(* ===== verification/MM_Prelude.thy ===== *)
theory MM_Prelude
  imports Main "HOL-Library.Word" "HOL-Library.Sublist"
begin

text \<open>
  Shared vocabulary of the development: machine integers, byte strings, the C library's
  character classes, \<open>std::to_string\<close> and the \<open>std::string\<close> searches the sources use,
  together with the list facts that several components need.

  A \<open>std::string\<close> is a sequence of bytes, so it is a \<open>char list\<close> here (an Isabelle
  \<open>char\<close> is one byte). Fixed-width integers are words.
\<close>

unbundle bit_operations_syntax

type_synonym bytes = string
type_synonym u8 = "8 word"
type_synonym u16 = "16 word"
type_synonym u32 = "32 word"
type_synonym u64 = "64 word"

named_theorems mm_defs \<open>definitions unfolded together by the component proofs\<close>
named_theorems str_simps \<open>rewrite rules on string scanning\<close>

section \<open>Character classes and decimal numbers\<close>

text \<open>\<open>std::isdigit\<close>, \<open>std::isspace\<close> and \<open>std::isalnum\<close> in the C locale.\<close>

definition isdigit :: "char \<Rightarrow> bool" where
  "isdigit c \<longleftrightarrow> 48 \<le> (of_char c :: nat) \<and> (of_char c :: nat) \<le> 57"

definition isspace :: "char \<Rightarrow> bool" where
  "isspace c \<longleftrightarrow> (of_char c :: nat) = 32 \<or> (9 \<le> (of_char c :: nat) \<and> (of_char c :: nat) \<le> 13)"

definition isalnum :: "char \<Rightarrow> bool" where
  "isalnum c \<longleftrightarrow> isdigit c \<or> (65 \<le> (of_char c :: nat) \<and> (of_char c :: nat) \<le> 90)
     \<or> (97 \<le> (of_char c :: nat) \<and> (of_char c :: nat) \<le> 122)"

definition digit_char :: "nat \<Rightarrow> char" where
  "digit_char d = char_of (48 + d)"

definition digit_val :: "char \<Rightarrow> nat" where
  "digit_val c = of_char c - 48"

text \<open>\<open>std::to_string\<close> on an unsigned value.\<close>

fun to_string :: "nat \<Rightarrow> string" where
  "to_string n = (if n < 10 then [digit_char n] else to_string (n div 10) @ [digit_char (n mod 10)])"

declare to_string.simps [simp del]

text \<open>The value a digit string denotes, most significant digit first.\<close>

definition dec_value :: "string \<Rightarrow> nat" where
  "dec_value s = foldl (\<lambda>a c. a * 10 + digit_val c) 0 s"

section \<open>Searching strings\<close>

text \<open>\<open>std::string::find(c, pos)\<close>: \<open>None\<close> is \<open>npos\<close>.\<close>

primrec find_index :: "('a \<Rightarrow> bool) \<Rightarrow> 'a list \<Rightarrow> nat option" where
  "find_index P [] = None"
| "find_index P (x # xs) = (if P x then Some 0 else map_option Suc (find_index P xs))"

definition str_find :: "char \<Rightarrow> string \<Rightarrow> nat \<Rightarrow> nat option" where
  "str_find c s pos = map_option ((+) pos) (find_index (\<lambda>x. x = c) (drop pos s))"

text \<open>\<open>std::string::substr(pos, n)\<close> for a position inside the string.\<close>

definition substr :: "string \<Rightarrow> nat \<Rightarrow> nat \<Rightarrow> string" where
  "substr s pos n = take n (drop pos s)"

text \<open>\<open>text.rfind(p, 0) == 0\<close>: the string starts with \<open>p\<close>.\<close>

definition starts_with :: "string \<Rightarrow> string \<Rightarrow> bool" where
  "starts_with p s \<longleftrightarrow> take (length p) s = p"

section \<open>Lists\<close>

text \<open>The last \<open>n\<close> elements of a list.\<close>

definition lastn :: "nat \<Rightarrow> 'a list \<Rightarrow> 'a list" where
  "lastn n xs = drop (length xs - n) xs"

lemma length_lastn [simp]: "length (lastn n xs) = min n (length xs)"
  by (simp add: lastn_def)

lemma lastn_all [simp]: "length xs \<le> n \<Longrightarrow> lastn n xs = xs"
  by (simp add: lastn_def)

lemma lastn_snoc: "0 < n \<Longrightarrow> lastn n (xs @ [x]) =
    (if length (lastn n xs) < n then lastn n xs else tl (lastn n xs)) @ [x]"
  by (auto simp: lastn_def drop_Suc tl_drop [symmetric] Suc_diff_le)

section \<open>Words\<close>

lemma unat_of_nat_small: "n < 2 ^ LENGTH('a) \<Longrightarrow> unat (of_nat n :: 'a::len word) = n"
  by (simp add: unat_of_nat)

lemma unat_of_nat_u64: "n < 2 ^ 64 \<Longrightarrow> unat (of_nat n :: u64) = n"
  by (rule unat_of_nat_small) simp

lemma u64_of_nat_inject: "m < 2 ^ 64 \<Longrightarrow> n < 2 ^ 64 \<Longrightarrow> (of_nat m :: u64) = of_nat n \<longleftrightarrow> m = n"
  by (metis unat_of_nat_u64)

lemma unat_bound: "unat (x :: 'a::len word) < 2 ^ LENGTH('a)"
  by (rule unsigned_less)

lemma unat_widen [simp]: "unat (ucast (x :: u32) :: u64) = unat x"
  using unat_bound [of x] by (simp add: unsigned_ucast_eq take_bit_nat_eq_self)

section \<open>Facts about decimal numbers\<close>

lemma digit_val_digit_char [simp]: "d < 10 \<Longrightarrow> digit_val (digit_char d) = d"
  by (simp add: digit_val_def digit_char_def)

lemma isdigit_digit_char [simp]: "d < 10 \<Longrightarrow> isdigit (digit_char d)"
  by (simp add: isdigit_def digit_char_def)

lemma digit_val_less: "isdigit c \<Longrightarrow> digit_val c < 10"
  unfolding isdigit_def digit_val_def by linarith

lemma digit_char_digit_val: "isdigit c \<Longrightarrow> digit_char (digit_val c) = c"
  by (simp add: isdigit_def digit_val_def digit_char_def)

lemma dec_value_Nil [simp]: "dec_value [] = 0"
  by (simp add: dec_value_def)

lemma dec_value_snoc [simp]: "dec_value (s @ [c]) = dec_value s * 10 + digit_val c"
  by (simp add: dec_value_def)

lemma dec_value_to_string [simp]: "dec_value (to_string n) = n"
proof (induction n rule: to_string.induct)
  case (1 n)
  then show ?case
    using dec_value_snoc [of "[]"] by (cases "n < 10") (simp_all add: to_string.simps [of n])
qed

lemma to_string_nonempty [simp]: "to_string n \<noteq> []"
  by (subst to_string.simps) simp

lemma to_string_digits: "c \<in> set (to_string n) \<Longrightarrow> isdigit c"
proof (induction n rule: to_string.induct)
  case (1 n)
  then show ?case
    by (cases "n < 10") (auto simp: to_string.simps [of n])
qed

lemma inj_to_string [simp]: "to_string m = to_string n \<longleftrightarrow> m = n"
  by (metis dec_value_to_string)

lemma to_string_length_le: "0 < k \<Longrightarrow> n < 10 ^ k \<Longrightarrow> length (to_string n) \<le> k"
proof (induction n arbitrary: k rule: to_string.induct)
  case (1 n)
  show ?case
  proof (cases "n < 10")
    case True
    with "1.prems" show ?thesis by (simp add: to_string.simps [of n])
  next
    case False
    then obtain j where j: "k = Suc j" "0 < j"
      using "1.prems" by (cases k; cases "k - 1") auto
    with "1.prems"(2) have "n div 10 < 10 ^ j" by (simp add: div_less_iff_less_mult mult.commute)
    with False j "1.IH" [of j] show ?thesis by (simp add: to_string.simps [of n])
  qed
qed

lemma to_string_length_pos [simp]: "0 < length (to_string n)"
  by simp

lemma to_string_length_mono: "m \<le> n \<Longrightarrow> length (to_string m) \<le> length (to_string n)"
proof (induction m arbitrary: n rule: to_string.induct)
  case (1 m)
  show ?case
  proof (cases "m < 10")
    case True
    then show ?thesis using to_string_length_pos [of n] by (simp add: to_string.simps [of m] Suc_le_eq)
  next
    case False
    with "1.prems" have "\<not> n < 10" and "m div 10 \<le> n div 10" by (auto intro: div_le_mono)
    with False "1.IH" show ?thesis by (simp add: to_string.simps [of m] to_string.simps [of n])
  qed
qed

section \<open>Facts about searching\<close>

lemma find_index_None: "find_index P xs = None \<longleftrightarrow> (\<forall>x \<in> set xs. \<not> P x)"
  by (induction xs) auto

lemma find_index_append [str_simps]:
  "\<forall>x \<in> set xs. \<not> P x \<Longrightarrow> find_index P (xs @ ys) = map_option ((+) (length xs)) (find_index P ys)"
  by (induction xs) (cases "find_index P ys"; auto)+

lemma find_index_SomeD: "find_index P xs = Some i \<Longrightarrow>
    i < length xs \<and> P (xs ! i) \<and> (\<forall>j < i. \<not> P (xs ! j))"
proof (induction xs arbitrary: i)
  case (Cons x xs)
  then show ?case
    by (cases i) (auto split: if_splits simp: nth_Cons')
qed simp

lemma isdigit_not_space: "isdigit c \<Longrightarrow> \<not> isspace c"
  by (simp add: isdigit_def isspace_def)

end
