(* ===== verification/Blocking_Queue.thy ===== *)
theory Blocking_Queue
  imports MM_Prelude
begin

text \<open>
  The bounded blocking queue of common/include/common/blocking_queue.h. Every member function
  holds the mutex for all it does, so each is one atomic operation on the state; a schedule of them is a list of
  operations. Waiting on the condition variable is a value: \<open>pop\<close> gives \<open>None\<close> where the thread
  stays blocked.

  The locale \<open>message_queue\<close> is the contract the subscriber relies on.
\<close>

section \<open>The queue\<close>

record 'a blocking_queue =
  bq_queue :: "'a list"
  bq_capacity :: nat
  bq_dropped :: u64
  bq_closed :: bool

definition new_queue :: "nat \<Rightarrow> 'a blocking_queue" where
  "new_queue capacity = \<lparr>bq_queue = [], bq_capacity = capacity, bq_dropped = 0, bq_closed = False\<rparr>"

definition push :: "'a blocking_queue \<Rightarrow> 'a \<Rightarrow> bool \<times> 'a blocking_queue" where
  "push q item =
     (if bq_closed q then (False, q)
      else
        (let q = (if bq_capacity q > 0 \<and> length (bq_queue q) \<ge> bq_capacity q
                  then q\<lparr>bq_queue := tl (bq_queue q), bq_dropped := bq_dropped q + 1\<rparr> else q)
         in (True, q\<lparr>bq_queue := bq_queue q @ [item]\<rparr>)))"

definition pop :: "'a blocking_queue \<Rightarrow> ('a option \<times> 'a blocking_queue) option" where
  "pop q =
     (case bq_queue q of
        [] \<Rightarrow> if bq_closed q then Some (None, q) else None
      | x # xs \<Rightarrow> Some (Some x, q\<lparr>bq_queue := xs\<rparr>))"

text \<open>\<open>timed_out\<close> is whether \<open>wait_for\<close> gave up; it only can while the queue is empty and open.\<close>

definition try_pop :: "bool \<Rightarrow> 'a blocking_queue \<Rightarrow> ('a option \<times> 'a blocking_queue) option" where
  "try_pop timed_out q =
     (if bq_queue q \<noteq> [] \<or> bq_closed q then
        (case bq_queue q of [] \<Rightarrow> Some (None, q) | x # xs \<Rightarrow> Some (Some x, q\<lparr>bq_queue := xs\<rparr>))
      else if timed_out then Some (None, q) else None)"

definition close_queue :: "'a blocking_queue \<Rightarrow> 'a blocking_queue" where
  "close_queue q = q\<lparr>bq_closed := True\<rparr>"

definition queue_size :: "'a blocking_queue \<Rightarrow> nat" where
  "queue_size q = length (bq_queue q)"

section \<open>Schedules of operations\<close>

datatype 'a queue_op = Push 'a | Pop | Close

text \<open>
  The messages accepted by \<open>push\<close>, the messages handed out by \<open>pop\<close> and the final queue. A
  \<open>pop\<close> that blocks has no effect.
\<close>

fun run_ops :: "('q \<Rightarrow> 'a \<Rightarrow> bool \<times> 'q) \<Rightarrow> ('q \<Rightarrow> ('a option \<times> 'q) option) \<Rightarrow> ('q \<Rightarrow> 'q) \<Rightarrow>
    'q \<Rightarrow> 'a queue_op list \<Rightarrow> 'a list \<times> 'a list \<times> 'q" where
  "run_ops put get fin q [] = ([], [], q)"
| "run_ops put get fin q (Push x # ops) =
     (let (ok, q1) = put q x; (acc, out, q2) = run_ops put get fin q1 ops
      in (if ok then x # acc else acc, out, q2))"
| "run_ops put get fin q (Pop # ops) =
     (case get q of
        None \<Rightarrow> run_ops put get fin q ops
      | Some (r, q1) \<Rightarrow>
          (let (acc, out, q2) = run_ops put get fin q1 ops
           in (acc, (case r of None \<Rightarrow> out | Some x \<Rightarrow> x # out), q2)))"
| "run_ops put get fin q (Close # ops) = run_ops put get fin (fin q) ops"

section \<open>The contract\<close>

locale message_queue =
  fixes put :: "'q \<Rightarrow> 'a \<Rightarrow> bool \<times> 'q"
    and get :: "'q \<Rightarrow> ('a option \<times> 'q) option"
    and fin :: "'q \<Rightarrow> 'q"
    and items :: "'q \<Rightarrow> 'a list"
    and closed :: "'q \<Rightarrow> bool"
    and lost :: "'q \<Rightarrow> u64"
  assumes put_closed: "closed q \<Longrightarrow> put q x = (False, q)"
    and put_open: "\<not> closed q \<Longrightarrow> fst (put q x) \<and> \<not> closed (snd (put q x)) \<and>
      (items (snd (put q x)) = items q @ [x] \<and> lost (snd (put q x)) = lost q \<or>
       items q \<noteq> [] \<and> items (snd (put q x)) = tl (items q) @ [x] \<and> lost (snd (put q x)) = lost q + 1)"
    and get_item: "items q = x # xs \<Longrightarrow>
      \<exists>q'. get q = Some (Some x, q') \<and> items q' = xs \<and> closed q' = closed q \<and> lost q' = lost q"
    and get_end: "items q = [] \<Longrightarrow> get q = (if closed q then Some (None, q) else None)"
    and fin_items: "items (fin q) = items q \<and> closed (fin q) \<and> lost (fin q) = lost q"
begin

text \<open>What goes in comes out in order, stays, or is counted as lost.\<close>

lemma conservation:
  assumes "run_ops put get fin q ops = (acc, out, q')"
  shows "subseq (out @ items q') (items q @ acc) \<and>
    lost q' + of_nat (length out + length (items q')) = lost q + of_nat (length (items q) + length acc)"
  using assms
proof (induction ops arbitrary: q acc out)
  case Nil
  then show ?case by simp
next
  case (Cons op ops)
  show ?case
  proof (cases op)
    case (Push x)
    obtain acc1 where r: "run_ops put get fin (snd (put q x)) ops = (acc1, out, q')"
      and a: "acc = (if fst (put q x) then x # acc1 else acc1)"
      using Cons.prems Push by (auto split: prod.splits)
    note ih = Cons.IH [OF r]
    show ?thesis
    proof (cases "closed q")
      case True
      with put_closed ih a show ?thesis by simp
    next
      case False
      consider "items (snd (put q x)) = items q @ [x]" "lost (snd (put q x)) = lost q"
        | "items q \<noteq> []" "items (snd (put q x)) = tl (items q) @ [x]" "lost (snd (put q x)) = lost q + 1"
        using put_open [OF False, of x] by blast
      then show ?thesis
      proof cases
        case 1
        with ih a put_open [OF False, of x] show ?thesis by simp
      next
        case 2
        then obtain y ys where y: "items q = y # ys" by (cases "items q") auto
        with ih 2 a put_open [OF False, of x] show ?thesis
          by (auto simp: algebra_simps intro: subseq_order.order_trans list_emb_Cons)
      qed
    qed
  next
    case Pop
    show ?thesis
    proof (cases "items q")
      case Nil
      have "run_ops put get fin q ops = (acc, out, q')"
        using get_end [OF Nil] Cons.prems Pop by (auto split: if_splits prod.splits)
      from Cons.IH [OF this] show ?thesis .
    next
      case (Cons y ys)
      from get_item [OF this] obtain q1 where
        q1: "get q = Some (Some y, q1)" "items q1 = ys" "lost q1 = lost q" by blast
      with Cons.prems Pop obtain out1 where
        "run_ops put get fin q1 ops = (acc, out1, q')" "out = y # out1" by (auto split: prod.splits)
      with Cons.IH [of q1 acc out1] q1 Cons show ?thesis by (auto simp: algebra_simps)
    qed
  next
    case Close
    with Cons.prems have "run_ops put get fin (fin q) ops = (acc, out, q')" by simp
    from Cons.IH [OF this] fin_items [of q] show ?thesis by simp
  qed
qed

text \<open>A queue that lost nothing is an exact FIFO.\<close>

lemma exact_fifo:
  assumes "run_ops put get fin q ops = (acc, out, q')" "lost q' = lost q"
    and "length (items q) + length acc < 2 ^ 64" "length out + length (items q') < 2 ^ 64"
  shows "out @ items q' = items q @ acc"
proof -
  from conservation [OF assms(1)] assms(2)
  have "(of_nat (length out + length (items q')) :: u64) = of_nat (length (items q) + length acc)"
    and s: "subseq (out @ items q') (items q @ acc)" by simp_all
  then have "length out + length (items q') = length (items q) + length acc"
    using u64_of_nat_inject [OF assms(4,3)] by blast
  with s show ?thesis by (intro subseq_same_length) auto
qed

end

interpretation bq: message_queue push pop close_queue bq_queue bq_closed bq_dropped
  by unfold_locales (auto simp: push_def pop_def close_queue_def split: list.splits)

section \<open>Bounds\<close>

definition queue_ok :: "'a blocking_queue \<Rightarrow> bool" where
  "queue_ok q \<longleftrightarrow> (bq_capacity q > 0 \<longrightarrow> length (bq_queue q) \<le> bq_capacity q)"

lemma new_queue_ok: "queue_ok (new_queue n)"
  by (simp add: queue_ok_def new_queue_def)

lemma push_ok: "queue_ok q \<Longrightarrow> queue_ok (snd (push q x))"
  by (auto simp: queue_ok_def push_def)

lemma pop_ok: "queue_ok q \<Longrightarrow> pop q = Some (r, q') \<Longrightarrow> queue_ok q'"
  by (auto simp: queue_ok_def pop_def split: list.splits if_splits)

lemma push_capacity [simp]: "bq_capacity (snd (push q x)) = bq_capacity q"
  by (simp add: push_def)

lemma pop_capacity: "pop q = Some (r, q') \<Longrightarrow> bq_capacity q' = bq_capacity q"
  by (auto simp: pop_def split: list.splits if_splits)

lemma push_unbounded_dropped: "bq_capacity q = 0 \<Longrightarrow> bq_dropped (snd (push q x)) = bq_dropped q"
  by (simp add: push_def)

lemma pop_dropped: "pop q = Some (r, q') \<Longrightarrow> bq_dropped q' = bq_dropped q"
  by (auto simp: pop_def split: list.splits if_splits)

lemma run_ops_ok:
  assumes "run_ops push pop close_queue q ops = (acc, out, q')"
  shows "bq_capacity q' = bq_capacity q \<and> (queue_ok q \<longrightarrow> queue_ok q') \<and>
    (bq_capacity q = 0 \<longrightarrow> bq_dropped q' = bq_dropped q)"
  using assms
proof (induction ops arbitrary: q acc out)
  case (Cons op ops)
  show ?case
  proof (cases op)
    case (Push x)
    then obtain acc1 where "run_ops push pop close_queue (snd (push q x)) ops = (acc1, out, q')"
      using Cons.prems by (auto split: prod.splits)
    from Cons.IH [OF this] show ?thesis by (auto simp: push_ok push_unbounded_dropped)
  next
    case Pop
    show ?thesis
    proof (cases "pop q")
      case None
      with Cons Pop show ?thesis by simp
    next
      case (Some p)
      then obtain r q1 out1 where s: "pop q = Some (r, q1)" "run_ops push pop close_queue q1 ops = (acc, out1, q')"
        using Cons.prems Pop by (cases p) (auto split: prod.splits)
      from Cons.IH [OF s(2)] pop_ok [OF _ s(1)] pop_capacity [OF s(1)] pop_dropped [OF s(1)]
      show ?thesis by auto
    qed
  next
    case Close
    with Cons.IH [of "close_queue q"] Cons.prems show ?thesis by (auto simp: close_queue_def queue_ok_def)
  qed
qed simp

lemma push_lastn:
  assumes "\<not> bq_closed q" "0 < bq_capacity q" "bq_queue q = lastn (bq_capacity q) xs"
  shows "fst (push q x) \<and> bq_queue (snd (push q x)) = lastn (bq_capacity q) (xs @ [x])"
  using assms lastn_snoc [OF assms(2), of xs x] by (auto simp: push_def)

section \<open>Properties\<close>

text \<open>
  C12: For every schedule of \<open>push\<close>, \<open>pop\<close> and \<open>close\<close> on a fresh queue, what \<open>pop\<close> handed out followed by what is
  still queued is a subsequence, in order, of what \<open>push\<close> accepted; the difference in number is
  exactly the drop counter (modulo \<open>2^64\<close>); and a bounded queue never holds more than its capacity.
\<close>

theorem queue_conservation:
  assumes "run_ops push pop close_queue (new_queue n) ops = (acc, out, q)"
  shows "subseq (out @ bq_queue q) acc \<and>
    bq_dropped q + of_nat (length out + length (bq_queue q)) = of_nat (length acc) \<and>
    (0 < n \<longrightarrow> queue_size q \<le> n)"
  using bq.conservation [OF assms] run_ops_ok [OF assms] new_queue_ok [of n]
  by (auto simp: new_queue_def queue_ok_def queue_size_def)

theorem queue_conservation_witness:
  "run_ops push pop close_queue (new_queue 2) [Push ''a'', Push ''b'', Push ''c'', Pop, Close, Push ''d'', Pop, Pop] =
     ([''a'', ''b'', ''c''], [''b'', ''c''], \<lparr>bq_queue = [], bq_capacity = 2, bq_dropped = 1, bq_closed = True\<rparr>) \<and>
   subseq [''b'', ''c''] [''a'', ''b'', ''c'']"
proof -
  have r: "run_ops push pop close_queue (new_queue 2) [Push ''a'', Push ''b'', Push ''c'', Pop, Close, Push ''d'', Pop, Pop] =
     ([''a'', ''b'', ''c''], [''b'', ''c''], \<lparr>bq_queue = [], bq_capacity = 2, bq_dropped = 1, bq_closed = True\<rparr>)"
    by (simp add: new_queue_def push_def pop_def close_queue_def)
  with queue_conservation [OF r] show ?thesis by simp
qed

text \<open>
  With \<open>KEEP_ALL\<close> (capacity 0) the queue is an exact FIFO: nothing is lost, duplicated or reordered.
\<close>

theorem keep_all_is_fifo:
  assumes "run_ops push pop close_queue (new_queue 0) ops = (acc, out, q)"
    and "length acc < 2 ^ 64" "length out + queue_size q < 2 ^ 64"
  shows "out @ bq_queue q = acc"
  using bq.exact_fifo [OF assms(1)] run_ops_ok [OF assms(1)] assms(2,3)
  by (simp add: new_queue_def queue_size_def)

theorem keep_all_is_fifo_witness:
  "run_ops push pop close_queue (new_queue 0) [Push 1, Push 2, Pop, Push (3 :: nat)] =
     ([1, 2, 3], [1], (new_queue 0)\<lparr>bq_queue := [2, 3]\<rparr>) \<and> [1] @ [2, 3] = [1, 2, 3 :: nat]"
proof -
  have r: "run_ops push pop close_queue (new_queue 0) [Push 1, Push 2, Pop, Push (3 :: nat)] =
     ([1, 2, 3], [1], (new_queue 0)\<lparr>bq_queue := [2, 3]\<rparr>)"
    by (simp add: new_queue_def push_def pop_def)
  with keep_all_is_fifo [OF r] show ?thesis by (simp add: queue_size_def)
qed

text \<open>
  With \<open>KEEP_LAST n\<close>, a burst that nobody pops leaves exactly its most recent \<open>n\<close> messages.
\<close>

theorem keep_last_keeps_newest:
  assumes "0 < n"
  shows "bq_queue (foldl (\<lambda>q x. snd (push q x)) (new_queue n) xs) = lastn n xs"
proof -
  have "\<not> bq_closed (foldl (\<lambda>q x. snd (push q x)) (new_queue n) xs) \<and>
    bq_capacity (foldl (\<lambda>q x. snd (push q x)) (new_queue n) xs) = n \<and>
    bq_queue (foldl (\<lambda>q x. snd (push q x)) (new_queue n) xs) = lastn n xs"
  proof (induction xs rule: rev_induct)
    case (snoc x xs)
    with push_lastn [of "foldl (\<lambda>q x. snd (push q x)) (new_queue n) xs" xs x] assms
      bq.put_open [of "foldl (\<lambda>q x. snd (push q x)) (new_queue n) xs" x]
    show ?case by simp
  qed (simp add: new_queue_def)
  then show ?thesis by simp
qed

theorem keep_last_keeps_newest_witness:
  "bq_queue (foldl (\<lambda>q x. snd (push q x)) (new_queue 2) [1, 2, 3 :: nat]) = [2, 3]"
  using keep_last_keeps_newest [of 2 "[1, 2, 3 :: nat]"] by (simp add: lastn_def)

end
