(* ===== verification/Pub_Sub.thy ===== *)
theory Pub_Sub
  imports Blocking_Queue
begin

text \<open>
  Publishing inside a process: \<open>Qos\<close> (common/include/common/qos.h), \<open>LocalBus\<close>
  (core/src/local_bus.cpp), \<open>Subscriber\<close> and \<open>Publisher\<close> (core/include/core).

  Sinks are objects behind \<open>weak_ptr\<close>s: the bus holds their identities, and the predicate
  \<open>alive\<close> says whose \<open>lock()\<close> succeeds. \<open>publish\<close> and \<open>deliver_inbound\<close> collect their targets under the mutex and
  call \<open>enqueue\<close> after releasing it, so they return the targets. Protobuf's \<open>SerializeToString\<close> and
  \<open>ParseFromString\<close> are the parameters \<open>ser\<close> and \<open>parse\<close>.
\<close>

section \<open>Qos\<close>

datatype reliability = BEST_EFFORT | RELIABLE
datatype history = KEEP_LAST | KEEP_ALL

record qos =
  qos_reliability :: reliability
  qos_history :: history
  qos_depth :: u32

definition default_qos :: qos where
  "default_qos = \<lparr>qos_reliability = BEST_EFFORT, qos_history = KEEP_LAST, qos_depth = 16\<rparr>"

fun reliability_int :: "reliability \<Rightarrow> int" where
  "reliability_int BEST_EFFORT = 0"
| "reliability_int RELIABLE = 1"

definition compatible :: "reliability \<Rightarrow> reliability \<Rightarrow> bool" where
  "compatible offered_writer requested_reader \<longleftrightarrow>
     reliability_int offered_writer \<ge> reliability_int requested_reader"

lemma compatible_iff: "compatible w r \<longleftrightarrow> (r = RELIABLE \<longrightarrow> w = RELIABLE)"
  by (cases w; cases r) (simp_all add: compatible_def)

section \<open>The bus\<close>

type_synonym sink_id = nat

record topic_entry =
  te_type :: string
  te_sinks :: "sink_id list"
  te_remote_sinks :: "sink_id list"

type_synonym local_bus = "string \<Rightarrow> topic_entry option"

definition new_entry :: topic_entry where
  "new_entry = \<lparr>te_type = [], te_sinks = [], te_remote_sinks = []\<rparr>"

text \<open>\<open>topics_[topic]\<close>: the entry, made if it is missing.\<close>

definition entry_at :: "local_bus \<Rightarrow> string \<Rightarrow> topic_entry" where
  "entry_at bus topic = (case bus topic of None \<Rightarrow> new_entry | Some e \<Rightarrow> e)"

text \<open>\<open>collect\<close>: the sinks that stay and the sinks added to \<open>out\<close>.\<close>

fun collect :: "(sink_id \<Rightarrow> bool) \<Rightarrow> sink_id list \<Rightarrow> sink_id list \<Rightarrow> sink_id list \<times> sink_id list" where
  "collect alive [] out = ([], out)"
| "collect alive (s # ss) out =
     (if alive s then (let (ss', out') = collect alive ss (out @ [s]) in (s # ss', out'))
      else collect alive ss out)"

definition check_type :: "topic_entry \<Rightarrow> string \<Rightarrow> bool \<times> topic_entry" where
  "check_type entry type_name =
     (if te_type entry = [] then (True, entry\<lparr>te_type := type_name\<rparr>)
      else if te_type entry \<noteq> type_name then (False, entry)
      else (True, entry))"

definition register_publisher :: "local_bus \<Rightarrow> string \<Rightarrow> string \<Rightarrow> local_bus" where
  "register_publisher bus topic type_name = bus(topic \<mapsto> snd (check_type (entry_at bus topic) type_name))"

definition subscribe :: "local_bus \<Rightarrow> string \<Rightarrow> string \<Rightarrow> sink_id \<Rightarrow> local_bus" where
  "subscribe bus topic type_name sink =
     (let (ok, entry) = check_type (entry_at bus topic) type_name in
      if \<not> ok then bus(topic \<mapsto> entry)
      else bus(topic \<mapsto> entry\<lparr>te_sinks := te_sinks entry @ [sink]\<rparr>))"

definition bus_publish :: "(sink_id \<Rightarrow> bool) \<Rightarrow> local_bus \<Rightarrow> string \<Rightarrow> string \<Rightarrow> sink_id list \<times> local_bus" where
  "bus_publish alive bus topic type_name =
     (case bus topic of
        None \<Rightarrow> ([], bus)
      | Some entry \<Rightarrow>
          (let (ok, entry) = check_type entry type_name in
           if \<not> ok then ([], bus(topic \<mapsto> entry))
           else
             (let (ss, targets) = collect alive (te_sinks entry) [];
                  (rs, targets) = collect alive (te_remote_sinks entry) targets
              in (targets, bus(topic \<mapsto> entry\<lparr>te_sinks := ss, te_remote_sinks := rs\<rparr>)))))"

definition add_remote_sink :: "local_bus \<Rightarrow> string \<Rightarrow> sink_id \<Rightarrow> local_bus" where
  "add_remote_sink bus topic sink =
     (let entry = entry_at bus topic
      in bus(topic \<mapsto> entry\<lparr>te_remote_sinks := te_remote_sinks entry @ [sink]\<rparr>))"

fun erase_remote :: "(sink_id \<Rightarrow> bool) \<Rightarrow> sink_id \<Rightarrow> sink_id list \<Rightarrow> sink_id list" where
  "erase_remote alive sink [] = []"
| "erase_remote alive sink (s # ss) =
     (if \<not> alive s \<or> s = sink then erase_remote alive sink ss else s # erase_remote alive sink ss)"

definition remove_remote_sink :: "(sink_id \<Rightarrow> bool) \<Rightarrow> local_bus \<Rightarrow> string \<Rightarrow> sink_id \<Rightarrow> local_bus" where
  "remove_remote_sink alive bus topic sink =
     (case bus topic of
        None \<Rightarrow> bus
      | Some entry \<Rightarrow> bus(topic \<mapsto> entry\<lparr>te_remote_sinks := erase_remote alive sink (te_remote_sinks entry)\<rparr>))"

definition deliver_inbound :: "(sink_id \<Rightarrow> bool) \<Rightarrow> local_bus \<Rightarrow> string \<Rightarrow> sink_id list \<times> local_bus" where
  "deliver_inbound alive bus topic =
     (case bus topic of
        None \<Rightarrow> ([], bus)
      | Some entry \<Rightarrow>
          (let (ss, targets) = collect alive (te_sinks entry) []
           in (targets, bus(topic \<mapsto> entry\<lparr>te_sinks := ss\<rparr>))))"

lemma collect_eq [simp]: "collect alive ss out = (filter alive ss, out @ filter alive ss)"
  by (induction ss arbitrary: out) auto

lemma erase_remote_eq [simp]: "erase_remote alive sink ss = filter (\<lambda>s. alive s \<and> s \<noteq> sink) ss"
  by (induction ss) auto

section \<open>Histories of the bus\<close>

datatype bus_op =
    RegisterPublisher string string
  | Subscribe string string sink_id
  | Publish string string
  | AddRemote string sink_id
  | RemoveRemote string sink_id
  | DeliverInbound string

text \<open>One operation, with the predicate that says which sinks are alive at that moment.\<close>

fun bus_step :: "(sink_id \<Rightarrow> bool) \<Rightarrow> bus_op \<Rightarrow> local_bus \<Rightarrow> local_bus" where
  "bus_step alive (RegisterPublisher t ty) bus = register_publisher bus t ty"
| "bus_step alive (Subscribe t ty s) bus = subscribe bus t ty s"
| "bus_step alive (Publish t ty) bus = snd (bus_publish alive bus t ty)"
| "bus_step alive (AddRemote t s) bus = add_remote_sink bus t s"
| "bus_step alive (RemoveRemote t s) bus = remove_remote_sink alive bus t s"
| "bus_step alive (DeliverInbound t) bus = snd (deliver_inbound alive bus t)"

definition run_bus :: "((sink_id \<Rightarrow> bool) \<times> bus_op) list \<Rightarrow> local_bus" where
  "run_bus ops = foldl (\<lambda>bus (alive, op). bus_step alive op bus) (\<lambda>_. None) ops"

text \<open>What a history leaves: types never change once set, sinks come from calls on the same topic.\<close>

definition bus_from :: "bus_op set \<Rightarrow> local_bus \<Rightarrow> bool" where
  "bus_from done bus \<longleftrightarrow> (\<forall>t e. bus t = Some e \<longrightarrow>
     (\<forall>s \<in> set (te_sinks e). \<exists>ty. Subscribe t ty s \<in> done \<and> te_type e = ty) \<and>
     (\<forall>s \<in> set (te_remote_sinks e). AddRemote t s \<in> done))"

fun typed_op :: "bus_op \<Rightarrow> bool" where
  "typed_op (RegisterPublisher t ty) = (ty \<noteq> [])"
| "typed_op (Subscribe t ty s) = (ty \<noteq> [])"
| "typed_op (Publish t ty) = (ty \<noteq> [])"
| "typed_op _ = True"

lemmas bus_defs = register_publisher_def subscribe_def bus_publish_def add_remote_sink_def
  remove_remote_sink_def deliver_inbound_def check_type_def entry_at_def new_entry_def Let_def

lemma bus_step_from:
  assumes "bus_from done bus" "typed_op op"
    and "\<forall>o' \<in> done. typed_op o'"
  shows "bus_from (insert op done) (bus_step alive op bus)"
  using assms
  by (cases op) (fastforce simp: bus_from_def bus_defs split: option.splits if_splits)+

lemma run_bus_from:
  assumes "\<forall>(alive, op) \<in> set ops. typed_op op"
  shows "bus_from (snd ` set ops) (run_bus ops)"
  using assms
proof (induction ops rule: rev_induct)
  case (snoc x ops)
  obtain alive op where x: "x = (alive, op)" by (cases x)
  have "bus_from (insert op (snd ` set ops)) (bus_step alive op (run_bus ops))"
    using snoc x by (intro bus_step_from) auto
  then show ?case by (simp add: run_bus_def x)
qed (simp add: run_bus_def bus_from_def)

lemma bus_step_type:
  assumes "bus t = Some e" "te_type e \<noteq> []"
  shows "\<exists>e'. bus_step alive op bus t = Some e' \<and> te_type e' = te_type e"
  using assms by (cases op) (auto simp: bus_defs split: option.splits)

lemma entry_typed:
  assumes "bus_from done bus" "bus t = Some e" "te_sinks e \<noteq> []" "\<forall>op \<in> done. typed_op op"
  shows "te_type e \<noteq> []"
  using assms by (cases "te_sinks e") (fastforce simp: bus_from_def)+

section \<open>Subscribers\<close>

text \<open>\<open>sub_calls\<close> records the messages the user's callback was called with.\<close>

record 'm subscriber =
  sub_topic :: string
  sub_qos :: qos
  sub_queue :: "bytes blocking_queue"
  sub_calls :: "'m list"

definition queue_bound :: "qos \<Rightarrow> nat" where
  "queue_bound q = (if qos_history q = KEEP_LAST then unat (qos_depth q) else 0)"

definition new_subscriber :: "string \<Rightarrow> qos \<Rightarrow> 'm subscriber" where
  "new_subscriber topic q =
     \<lparr>sub_topic = topic, sub_qos = q, sub_queue = new_queue (queue_bound q), sub_calls = []\<rparr>"

definition sub_enqueue :: "bytes \<Rightarrow> 'm subscriber \<Rightarrow> 'm subscriber" where
  "sub_enqueue bs s = s\<lparr>sub_queue := snd (push (sub_queue s) bs)\<rparr>"

datatype worker = Running | Blocked | Ended

text \<open>One turn of the worker's loop in \<open>run\<close>.\<close>

definition sub_turn :: "(bytes \<Rightarrow> 'm option) \<Rightarrow> 'm subscriber \<Rightarrow> worker \<times> 'm subscriber" where
  "sub_turn parse s =
     (case pop (sub_queue s) of
        None \<Rightarrow> (Blocked, s)
      | Some (None, q) \<Rightarrow> (Ended, s\<lparr>sub_queue := q\<rparr>)
      | Some (Some bs, q) \<Rightarrow>
          (Running, (case parse bs of
             None \<Rightarrow> s\<lparr>sub_queue := q\<rparr>
           | Some m \<Rightarrow> s\<lparr>sub_queue := q, sub_calls := sub_calls s @ [m]\<rparr>)))"

lemma sub_turn_shorter:
  "sub_turn parse s = (Running, s') \<Longrightarrow> length (bq_queue (sub_queue s')) < length (bq_queue (sub_queue s))"
  by (auto simp: sub_turn_def pop_def split: list.splits if_splits option.splits)

function sub_run :: "(bytes \<Rightarrow> 'm option) \<Rightarrow> 'm subscriber \<Rightarrow> worker \<times> 'm subscriber" where
  "sub_run parse s =
     (case sub_turn parse s of (Running, s') \<Rightarrow> sub_run parse s' | (w, s') \<Rightarrow> (w, s'))"
  by pat_completeness auto
termination
  by (relation "measure (\<lambda>(parse, s). length (bq_queue (sub_queue s)))")
    (auto dest: sub_turn_shorter [OF sym])

declare sub_run.simps [simp del]

text \<open>The destructor closes the queue and joins the worker.\<close>

definition sub_destroy :: "(bytes \<Rightarrow> 'm option) \<Rightarrow> 'm subscriber \<Rightarrow> worker \<times> 'm subscriber" where
  "sub_destroy parse s = sub_run parse (s\<lparr>sub_queue := close_queue (sub_queue s)\<rparr>)"

lemma sub_run_drains:
  "sub_run parse s =
     (if bq_closed (sub_queue s) then Ended else Blocked,
      s\<lparr>sub_queue := (sub_queue s)\<lparr>bq_queue := []\<rparr>,
        sub_calls := sub_calls s @ List.map_filter parse (bq_queue (sub_queue s))\<rparr>)"
proof (induction parse s rule: sub_run.induct)
  case (1 parse s)
  show ?case
  proof (cases "bq_queue (sub_queue s)")
    case Nil
    then show ?thesis
      by (subst sub_run.simps) (simp add: sub_turn_def pop_def List.map_filter_def)
  next
    case (Cons b bs)
    define s' where "s' = (case parse b of
      None \<Rightarrow> s\<lparr>sub_queue := (sub_queue s)\<lparr>bq_queue := bs\<rparr>\<rparr>
    | Some m \<Rightarrow> s\<lparr>sub_queue := (sub_queue s)\<lparr>bq_queue := bs\<rparr>, sub_calls := sub_calls s @ [m]\<rparr>)"
    have t: "sub_turn parse s = (Running, s')"
      using Cons by (simp add: sub_turn_def pop_def s'_def)
    with "1" [OF t [symmetric] refl] have "sub_run parse s =
      (if bq_closed (sub_queue s') then Ended else Blocked,
       s'\<lparr>sub_queue := (sub_queue s')\<lparr>bq_queue := []\<rparr>,
         sub_calls := sub_calls s' @ List.map_filter parse (bq_queue (sub_queue s'))\<rparr>)"
      by (subst sub_run.simps) simp
    then show ?thesis using Cons
      by (simp add: s'_def List.map_filter_def split: option.splits)
  qed
qed

section \<open>Publishers\<close>

record publisher =
  pub_topic :: string
  pub_type :: string
  pub_qos :: qos

definition create_publisher :: "local_bus \<Rightarrow> string \<Rightarrow> string \<Rightarrow> qos \<Rightarrow> publisher \<times> local_bus" where
  "create_publisher bus topic type_name q =
     (\<lparr>pub_topic = topic, pub_type = type_name, pub_qos = q\<rparr>, register_publisher bus topic type_name)"

text \<open>The result, the sinks to enqueue the bytes at, and the bus.\<close>

definition publish :: "('m \<Rightarrow> bytes option) \<Rightarrow> (sink_id \<Rightarrow> bool) \<Rightarrow> publisher \<Rightarrow> 'm \<Rightarrow> local_bus \<Rightarrow>
    bool \<times> (sink_id \<times> bytes) list \<times> local_bus" where
  "publish ser alive p m bus =
     (case ser m of
        None \<Rightarrow> (False, [], bus)
      | Some bs \<Rightarrow>
          (let (targets, bus) = bus_publish alive bus (pub_topic p) (pub_type p)
           in (True, map (\<lambda>t. (t, bs)) targets, bus)))"

text \<open>The deliveries, in order, to the subscribers of the process.\<close>

definition enqueue_all :: "(sink_id \<times> bytes) list \<Rightarrow> (sink_id \<Rightarrow> 'm subscriber) \<Rightarrow> (sink_id \<Rightarrow> 'm subscriber)" where
  "enqueue_all ds subs = foldl (\<lambda>subs (t, bs). subs(t := sub_enqueue bs (subs t))) subs ds"

fun publish_all :: "('m \<Rightarrow> bytes option) \<Rightarrow> (sink_id \<Rightarrow> bool) \<Rightarrow> publisher \<Rightarrow> 'm list \<Rightarrow>
    local_bus \<times> (sink_id \<Rightarrow> 'm subscriber) \<Rightarrow> local_bus \<times> (sink_id \<Rightarrow> 'm subscriber)" where
  "publish_all ser alive p [] (bus, subs) = (bus, subs)"
| "publish_all ser alive p (m # ms) (bus, subs) =
     (let (ok, ds, bus) = publish ser alive p m bus
      in publish_all ser alive p ms (bus, enqueue_all ds subs))"

lemma bus_publish_targets:
  assumes "bus t = Some e" "te_type e = ty \<or> te_type e = []"
  shows "fst (bus_publish alive bus t ty) = filter alive (te_sinks e) @ filter alive (te_remote_sinks e)"
    and "\<exists>e'. snd (bus_publish alive bus t ty) t = Some e' \<and> te_type e' = ty \<and>
      te_sinks e' = filter alive (te_sinks e) \<and> te_remote_sinks e' = filter alive (te_remote_sinks e)"
  using assms by (auto simp: bus_publish_def check_type_def Let_def)

lemma enqueue_all_Cons:
  "enqueue_all ((t, bs) # ds) subs = enqueue_all ds (subs(t := sub_enqueue bs (subs t)))"
  by (simp add: enqueue_all_def)

lemma enqueue_all_at:
  "enqueue_all (map (\<lambda>t. (t, bs)) ts) subs s = ((sub_enqueue bs) ^^ count_list ts s) (subs s)"
  by (induction ts arbitrary: subs) (simp_all add: enqueue_all_def [of "[]"] enqueue_all_Cons funpow_swap1)

lemma sub_enqueue_open:
  assumes "\<not> bq_closed (sub_queue s)" "bq_capacity (sub_queue s) = 0"
  shows "sub_enqueue bs s = s\<lparr>sub_queue := (sub_queue s)\<lparr>bq_queue := bq_queue (sub_queue s) @ [bs]\<rparr>\<rparr>"
  using assms by (simp add: sub_enqueue_def push_def Let_def)

lemma count_filter_alive: "alive s \<Longrightarrow> count_list (filter alive xs) s = count_list xs s"
  by (induction xs) auto

lemma publish_all_queue:
  assumes "bus (pub_topic p) = Some e" "te_type e = pub_type p" "alive s"
    and "count_list (te_sinks e) s = 1" "count_list (te_remote_sinks e) s = 0"
    and "\<not> bq_closed (sub_queue (subs s))" "bq_capacity (sub_queue (subs s)) = 0"
    and "\<forall>m \<in> set ms. ser m = Some (enc m)"
    and "publish_all ser alive p ms (bus, subs) = (bus', subs')"
  shows "subs' s = (subs s)\<lparr>sub_queue := (sub_queue (subs s))\<lparr>bq_queue := bq_queue (sub_queue (subs s)) @ map enc ms\<rparr>\<rparr>"
  using assms
proof (induction ms arbitrary: bus subs e)
  case Nil
  then show ?case by simp
next
  case (Cons m ms)
  let ?p = "bus_publish alive bus (pub_topic p) (pub_type p)"
  define ds where "ds = map (\<lambda>t. (t, enc m)) (fst ?p)"
  have t: "fst ?p = filter alive (te_sinks e) @ filter alive (te_remote_sinks e)"
    using Cons.prems(1,2) by (intro bus_publish_targets) auto
  have "enqueue_all ds subs s = sub_enqueue (enc m) (subs s)"
    using Cons.prems(3,4,5) by (simp add: ds_def t enqueue_all_at count_filter_alive del: map_append)
  with Cons.prems(6,7) have q: "enqueue_all ds subs s =
    (subs s)\<lparr>sub_queue := (sub_queue (subs s))\<lparr>bq_queue := bq_queue (sub_queue (subs s)) @ [enc m]\<rparr>\<rparr>"
    by (simp add: sub_enqueue_open)
  from bus_publish_targets(2) [of bus "pub_topic p" e "pub_type p" alive] Cons.prems(1,2)
  obtain e' where e': "snd ?p (pub_topic p) = Some e'" "te_type e' = pub_type p"
    "te_sinks e' = filter alive (te_sinks e)" "te_remote_sinks e' = filter alive (te_remote_sinks e)" by auto
  have r: "publish_all ser alive p ms (snd ?p, enqueue_all ds subs) = (bus', subs')"
    using Cons.prems(8,9) by (simp add: publish_def ds_def split_beta)
  have "subs' s = (enqueue_all ds subs s)\<lparr>sub_queue := (sub_queue (enqueue_all ds subs s))\<lparr>bq_queue :=
      bq_queue (sub_queue (enqueue_all ds subs s)) @ map enc ms\<rparr>\<rparr>"
    by (rule Cons.IH [OF e'(1,2) Cons.prems(3) _ _ _ _ _ r])
      (use Cons.prems q e' in \<open>simp_all add: count_filter_alive\<close>)
  with q show ?case by simp
qed

lemma map_filter_inverse: "\<forall>x \<in> set xs. parse (enc x) = Some x \<Longrightarrow> List.map_filter parse (map enc xs) = xs"
  by (induction xs) (auto simp: List.map_filter_def)

section \<open>Properties\<close>

text \<open>
  Type safety of the bus. In every history of a bus whose operations name a type, a publication of type
  \<open>ty\<close> only reaches local sinks that subscribed to that topic with type \<open>ty\<close>, and remote sinks added for
  that topic.
\<close>

theorem bus_type_safe:
  assumes "\<forall>(a, op) \<in> set ops. typed_op op" "ty \<noteq> []" "s \<in> set (fst (bus_publish alive (run_bus ops) t ty))"
  shows "(\<exists>a. (a, Subscribe t ty s) \<in> set ops) \<or> (\<exists>a. (a, AddRemote t s) \<in> set ops)"
proof -
  have "bus_from (snd ` set ops) (run_bus ops)" by (rule run_bus_from [OF assms(1)])
  moreover obtain e where "run_bus ops t = Some e" "te_type e = ty \<or> te_type e = []"
    using assms(3) by (auto simp: bus_publish_def check_type_def Let_def split: option.splits if_splits)
  moreover from this assms(3) have "s \<in> set (te_sinks e) \<or> s \<in> set (te_remote_sinks e)"
    by (auto simp: bus_publish_targets(1))
  moreover have "\<forall>op \<in> snd ` set ops. typed_op op" using assms(1) by auto
  ultimately have "Subscribe t ty s \<in> snd ` set ops \<or> AddRemote t s \<in> snd ` set ops"
    by (fastforce simp: bus_from_def)
  then show ?thesis by force
qed

theorem bus_type_safe_witness:
  "fst (bus_publish (\<lambda>_. True)
      (run_bus [(\<lambda>_. True, Subscribe ''t'' ''A'' 1), (\<lambda>_. True, Subscribe ''t'' ''B'' 2)]) ''t'' ''A'') = [1] \<and>
   ((\<exists>a. (a, Subscribe ''t'' ''A'' 1) \<in>
        set [(\<lambda>_::nat. True, Subscribe ''t'' ''A'' 1), (\<lambda>_. True, Subscribe ''t'' ''B'' 2)]) \<or>
    (\<exists>a. (a, AddRemote ''t'' 1) \<in>
        set [(\<lambda>_::nat. True, Subscribe ''t'' ''A'' 1), (\<lambda>_. True, Subscribe ''t'' ''B'' 2)]))"
proof -
  let ?ops = "[(\<lambda>_::nat. True, Subscribe ''t'' ''A'' 1), (\<lambda>_. True, Subscribe ''t'' ''B'' 2)]"
  have "fst (bus_publish (\<lambda>_. True) (run_bus ?ops) ''t'' ''A'') = [1]"
    by (simp add: run_bus_def bus_defs)
  with bus_type_safe [of ?ops "''A''" 1 "\<lambda>_. True" "''t''"] show ?thesis by simp
qed

text \<open>
  Inbound data is never forwarded: whatever the history, \<open>deliver_inbound\<close> only reaches sinks that
  subscribed to the topic, so a message that came from the network does not go out again.
\<close>

theorem inbound_stays_local:
  assumes "\<forall>(a, op) \<in> set ops. typed_op op" "s \<in> set (fst (deliver_inbound alive (run_bus ops) t))"
  shows "\<exists>a ty. (a, Subscribe t ty s) \<in> set ops"
proof -
  have "bus_from (snd ` set ops) (run_bus ops)" by (rule run_bus_from [OF assms(1)])
  with assms(2) show ?thesis
    by (fastforce simp: bus_from_def deliver_inbound_def Let_def split: option.splits)
qed

theorem inbound_stays_local_witness:
  "fst (deliver_inbound (\<lambda>_. True)
      (run_bus [(\<lambda>_. True, Subscribe ''t'' ''A'' 1), (\<lambda>_. True, AddRemote ''t'' 2)]) ''t'') = [1] \<and>
   (\<exists>a ty. (a, Subscribe ''t'' ty 1) \<in> set [(\<lambda>_::nat. True, Subscribe ''t'' ''A'' 1), (\<lambda>_. True, AddRemote ''t'' 2)])"
proof -
  let ?ops = "[(\<lambda>_::nat. True, Subscribe ''t'' ''A'' 1), (\<lambda>_. True, AddRemote ''t'' 2)]"
  have "fst (deliver_inbound (\<lambda>_. True) (run_bus ?ops) ''t'') = [1]"
    by (simp add: run_bus_def bus_defs)
  with inbound_stays_local [of ?ops 1 "\<lambda>_. True" "''t''"] show ?thesis by simp
qed

text \<open>
  C9: Publishing inside a process works: a live \<open>KEEP_ALL\<close> subscriber that is registered on the
  topic gets every message of the publisher, in order, and its worker then has called the callback with
  exactly these messages, whether it goes on waiting or the subscriber is destroyed.
\<close>

theorem local_pubsub_delivers:
  assumes "\<forall>m \<in> set ms. ser m = Some (enc m) \<and> parse (enc m) = Some m"
    and "bus (pub_topic p) = Some e" "te_type e = pub_type p" "alive s"
    and "count_list (te_sinks e) s = 1" "count_list (te_remote_sinks e) s = 0"
    and "subs s = new_subscriber (pub_topic p) q" "qos_history q = KEEP_ALL"
    and "publish_all ser alive p ms (bus, subs) = (bus', subs')"
  shows "fst (sub_run parse (subs' s)) = Blocked \<and> sub_calls (snd (sub_run parse (subs' s))) = ms \<and>
    fst (sub_destroy parse (subs' s)) = Ended \<and> sub_calls (snd (sub_destroy parse (subs' s))) = ms"
proof -
  have "subs' s = (subs s)\<lparr>sub_queue := (sub_queue (subs s))\<lparr>bq_queue := bq_queue (sub_queue (subs s)) @ map enc ms\<rparr>\<rparr>"
    by (rule publish_all_queue [OF assms(2-6) _ _ _ assms(9)])
      (use assms(1,7,8) in \<open>simp_all add: new_subscriber_def queue_bound_def new_queue_def\<close>)
  moreover have "List.map_filter parse (map enc ms) = ms" using assms(1) by (simp add: map_filter_inverse)
  ultimately show ?thesis using assms(7,8)
    by (simp add: sub_destroy_def sub_run_drains new_subscriber_def new_queue_def queue_bound_def close_queue_def)
qed

definition text_bus :: local_bus where
  "text_bus = subscribe (snd (create_publisher (\<lambda>_. None) ''t'' ''Text'' default_qos)) ''t'' ''Text'' 7"

theorem local_pubsub_delivers_witness:
  "sub_calls (snd (sub_run Some
     (snd (publish_all Some (\<lambda>_. True) \<lparr>pub_topic = ''t'', pub_type = ''Text'', pub_qos = default_qos\<rparr>
        [''x'', ''y''] (text_bus, \<lambda>_. new_subscriber ''t'' (default_qos\<lparr>qos_history := KEEP_ALL\<rparr>))) 7))) = [''x'', ''y'']"
proof -
  let ?q = "default_qos\<lparr>qos_history := KEEP_ALL\<rparr>"
  let ?p = "\<lparr>pub_topic = ''t'', pub_type = ''Text'', pub_qos = default_qos\<rparr>"
  have "text_bus ''t'' = Some \<lparr>te_type = ''Text'', te_sinks = [7], te_remote_sinks = []\<rparr>"
    by (simp add: text_bus_def create_publisher_def bus_defs)
  with local_pubsub_delivers [where ms = "[''x'', ''y'']" and ser = Some and enc = id and parse = Some
      and bus = text_bus and p = ?p and alive = "\<lambda>_. True" and s = 7
      and subs = "\<lambda>_. new_subscriber ''t'' ?q" and q = ?q]
  show ?thesis by (simp del: publish_all.simps add: prod_eq_iff)
qed

text \<open>
  Whatever its depth and however the worker is scheduled before, destroying a subscriber ends the worker
  with an empty queue after it has handled every message still queued.
\<close>

theorem destroy_drains:
  "\<exists>s'. sub_destroy parse s = (Ended, s') \<and> bq_queue (sub_queue s') = [] \<and>
     sub_calls s' = sub_calls s @ List.map_filter parse (bq_queue (sub_queue s))"
  by (simp add: sub_destroy_def sub_run_drains close_queue_def)

end
