(* ===== verification/Std_Map.thy ===== *)
theory Std_Map
  imports MM_Prelude "HOL-Library.List_Lexorder" "HOL-Library.Char_ord"
begin

text \<open>
  \<open>std::map\<close>: entries in increasing order of their keys, which is the order loops over the map visit them
  in. \<open>std::string\<close> keys compare lexicographically by unsigned bytes, as lists of
  \<open>char\<close> do here; integers compare as unsigned words.

  The locale \<open>key_map\<close> is what the components use of a map; the sorted lists provide it.
\<close>

type_synonym ('k, 'v) std_map = "('k \<times> 'v) list"

definition sm_ok :: "('k::linorder, 'v) std_map \<Rightarrow> bool" where
  "sm_ok m \<longleftrightarrow> sorted_wrt (<) (map fst m)"

abbreviation sm_find :: "('k, 'v) std_map \<Rightarrow> 'k \<Rightarrow> 'v option" where
  "sm_find \<equiv> map_of"

fun sm_put :: "'k::linorder \<Rightarrow> 'v \<Rightarrow> ('k, 'v) std_map \<Rightarrow> ('k, 'v) std_map" where
  "sm_put k v [] = [(k, v)]"
| "sm_put k v ((k', v') # m) =
     (if k < k' then (k, v) # (k', v') # m
      else if k = k' then (k, v) # m
      else (k', v') # sm_put k v m)"

definition sm_erase :: "'k \<Rightarrow> ('k, 'v) std_map \<Rightarrow> ('k, 'v) std_map" where
  "sm_erase k m = filter (\<lambda>e. fst e \<noteq> k) m"

locale key_map =
  fixes find :: "'m \<Rightarrow> 'k \<Rightarrow> 'v option"
    and put :: "'k \<Rightarrow> 'v \<Rightarrow> 'm \<Rightarrow> 'm"
    and erase :: "'k \<Rightarrow> 'm \<Rightarrow> 'm"
    and ok :: "'m \<Rightarrow> bool"
  assumes find_put: "ok m \<Longrightarrow> find (put k v m) = (find m)(k \<mapsto> v)"
    and find_erase: "ok m \<Longrightarrow> find (erase k m) = (find m)(k := None)"
    and ok_put: "ok m \<Longrightarrow> ok (put k v m)"
    and ok_erase: "ok m \<Longrightarrow> ok (erase k m)"
begin

lemma find_put_erase: "ok m \<Longrightarrow> find (put k v (erase k m)) = (find m)(k \<mapsto> v)"
  by (simp add: find_put find_erase ok_erase)

lemma dom_put: "ok m \<Longrightarrow> dom (find (put k v m)) = insert k (dom (find m))"
  by (simp add: find_put)

lemma dom_erase: "ok m \<Longrightarrow> dom (find (erase k m)) = dom (find m) - {k}"
  by (simp add: find_erase)

end

lemma map_of_sm_put: "map_of (sm_put k v m) = (map_of m)(k \<mapsto> v)"
  by (induction k v m rule: sm_put.induct) auto

lemma sm_put_mem: "e \<in> set (sm_put k v m) \<Longrightarrow> e = (k, v) \<or> e \<in> set m"
  by (induction k v m rule: sm_put.induct) (auto split: if_splits)

lemma sm_ok_put: "sm_ok m \<Longrightarrow> sm_ok (sm_put k v m)"
  by (induction k v m rule: sm_put.induct) (fastforce simp: sm_ok_def dest: sm_put_mem)+

lemma map_of_sm_erase: "map_of (sm_erase k m) = (map_of m)(k := None)"
  by (induction m) (auto simp: sm_erase_def)

lemma sm_ok_filter: "sm_ok m \<Longrightarrow> sm_ok (filter P m)"
  by (induction m) (auto simp: sm_ok_def)

lemma sm_ok_erase: "sm_ok m \<Longrightarrow> sm_ok (sm_erase k m)"
  by (simp add: sm_erase_def sm_ok_filter)

lemma sm_ok_distinct: "sm_ok m \<Longrightarrow> distinct (map fst m)"
  by (auto simp: sm_ok_def strict_sorted_iff)

lemma sm_find_iff: "sm_ok m \<Longrightarrow> sm_find m k = Some v \<longleftrightarrow> (k, v) \<in> set m"
  by (simp add: sm_ok_distinct)

lemma sm_unique: "sm_ok m \<Longrightarrow> (k, v) \<in> set m \<Longrightarrow> (k, v') \<in> set m \<Longrightarrow> v = v'"
  by (metis option.inject sm_find_iff)

lemma set_sm_put: "sm_ok m \<Longrightarrow> set (sm_put k v m) = insert (k, v) {e \<in> set m. fst e \<noteq> k}"
  by (induction k v m rule: sm_put.induct) (auto simp: sm_ok_def)

lemma sm_ok_Nil [simp]: "sm_ok []"
  by (simp add: sm_ok_def)

interpretation sm: key_map map_of sm_put sm_erase sm_ok
  by unfold_locales (simp_all add: map_of_sm_put map_of_sm_erase sm_ok_put sm_ok_erase)

end
