(* ===== verification/Endpoint_Matcher.thy ===== *)
theory Endpoint_Matcher
  imports Pub_Sub Std_Map
begin

text \<open>
  The messages of proto/discovery.proto as records and the matching of endpoints with QoS
  negotiation of discovery/src/endpoint_matcher.cpp, with the key under which a match is
  remembered (\<open>match_key\<close>, the same formula in discovery_agent.cpp and data_plane.cpp).

  The enumeration \<open>Kind\<close> has the four declared values; an endpoint of any other number matches nothing.
\<close>

datatype endpoint_kind = PUBLISHER | SUBSCRIBER | SERVICE | CLIENT

fun kind_nat :: "endpoint_kind \<Rightarrow> nat" where
  "kind_nat PUBLISHER = 0"
| "kind_nat SUBSCRIBER = 1"
| "kind_nat SERVICE = 2"
| "kind_nat CLIENT = 3"

record endpoint_info =
  ep_kind :: endpoint_kind
  ep_topic :: string
  ep_type :: string
  ep_reliability :: u32
  ep_response :: string

record locator =
  loc_ip :: string
  loc_port :: u32

record match_info =
  mi_local :: endpoint_info
  mi_remote :: endpoint_info
  mi_locator :: locator
  mi_pid :: u64
  mi_host :: string

definition rel_of :: "endpoint_info \<Rightarrow> reliability" where
  "rel_of e = (if ep_reliability e = 0 then BEST_EFFORT else RELIABLE)"

definition pubsub_pair :: "endpoint_info \<Rightarrow> endpoint_info \<Rightarrow> bool" where
  "pubsub_pair le re \<longleftrightarrow>
     (ep_kind le = PUBLISHER \<and> ep_kind re = SUBSCRIBER) \<or> (ep_kind le = SUBSCRIBER \<and> ep_kind re = PUBLISHER)"

definition rpc_pair :: "endpoint_info \<Rightarrow> endpoint_info \<Rightarrow> bool" where
  "rpc_pair le re \<longleftrightarrow>
     (ep_kind le = SERVICE \<and> ep_kind re = CLIENT) \<or> (ep_kind le = CLIENT \<and> ep_kind re = SERVICE)"

text \<open>The body of the two loops: the match of one pair, if there is one.\<close>

definition match_pair :: "u64 \<Rightarrow> locator \<Rightarrow> endpoint_info \<Rightarrow> endpoint_info \<Rightarrow> match_info option" where
  "match_pair remote_id remote_locator le re =
     (if \<not> pubsub_pair le re \<and> \<not> rpc_pair le re then None
      else if ep_topic le \<noteq> ep_topic re \<or> ep_type le \<noteq> ep_type re then None
      else if rpc_pair le re \<and> ep_response le \<noteq> ep_response re then None
      else
        (let writer = (if ep_kind le = PUBLISHER \<or> ep_kind le = SERVICE then le else re);
             reader = (if ep_kind le = SUBSCRIBER \<or> ep_kind le = CLIENT then le else re)
         in if \<not> compatible (rel_of writer) (rel_of reader) then None
            else Some \<lparr>mi_local = le, mi_remote = re, mi_locator = remote_locator, mi_pid = remote_id, mi_host = []\<rparr>))"

definition match_endpoints :: "endpoint_info list \<Rightarrow> u64 \<Rightarrow> locator \<Rightarrow> endpoint_info list \<Rightarrow> match_info list" where
  "match_endpoints local_endpoints remote_id remote_locator remote_endpoints =
     concat (map (\<lambda>le. List.map_filter (match_pair remote_id remote_locator le) remote_endpoints) local_endpoints)"

definition match_key :: "match_info \<Rightarrow> string" where
  "match_key m =
     to_string (kind_nat (ep_kind (mi_local m))) @ '':'' @ ep_topic (mi_local m) @ ''|'' @
     to_string (unat (mi_pid m)) @ ''|'' @
     to_string (kind_nat (ep_kind (mi_remote m))) @ '':'' @ ep_topic (mi_remote m)"

section \<open>Matching\<close>

text \<open>The role a kind plays in negotiation.\<close>

definition writes :: "endpoint_info \<Rightarrow> bool" where
  "writes e \<longleftrightarrow> ep_kind e = PUBLISHER \<or> ep_kind e = SERVICE"

lemma match_pair_Some:
  "match_pair i l le re = Some m \<longleftrightarrow>
     m = \<lparr>mi_local = le, mi_remote = re, mi_locator = l, mi_pid = i, mi_host = []\<rparr> \<and>
     (pubsub_pair le re \<or> rpc_pair le re \<and> ep_response le = ep_response re) \<and>
     ep_topic le = ep_topic re \<and> ep_type le = ep_type re \<and>
     (writes le \<and> (rel_of re = RELIABLE \<longrightarrow> rel_of le = RELIABLE) \<or>
      \<not> writes le \<and> (rel_of le = RELIABLE \<longrightarrow> rel_of re = RELIABLE))"
  by (cases "ep_kind le"; cases "ep_kind re")
    (auto simp: match_pair_def compatible_iff pubsub_pair_def rpc_pair_def writes_def)

lemma set_map_filter: "set (List.map_filter f xs) = {y. \<exists>x \<in> set xs. f x = Some y}"
  by (force simp: List.map_filter_def)

lemma set_match_endpoints:
  "m \<in> set (match_endpoints les i l res) \<longleftrightarrow> (\<exists>le \<in> set les. \<exists>re \<in> set res. match_pair i l le re = Some m)"
  by (auto simp: match_endpoints_def set_map_filter)

section \<open>The match key\<close>

lemma kind_nat_inject [simp]: "kind_nat a = kind_nat b \<longleftrightarrow> a = b"
  by (cases a; cases b) simp_all

lemma kind_string: "\<exists>c. to_string (kind_nat k) = [c] \<and> isdigit c"
proof -
  have "kind_nat k < 10" by (cases k) simp_all
  then show ?thesis by (simp add: to_string.simps)
qed

lemma bar_not_digit: "\<not> isdigit (CHR ''|'')"
  by (simp add: isdigit_def)

text \<open>Two texts \<open>t|p|d:t\<close> with different lengths of \<open>t\<close> differ at the bar after the longer \<open>t\<close>.\<close>

lemma key_length:
  assumes "t @ ''|'' @ p @ u = t' @ ''|'' @ p' @ u'" "length u = length t + 3" "length u' = length t' + 3"
    and "\<forall>c \<in> set p. isdigit c" "p' \<noteq> []"
  shows "length t' \<le> length t"
proof (rule ccontr)
  assume "\<not> length t' \<le> length t"
  then obtain k where k: "length t' = length t + Suc k" by (metis less_imp_Suc_add not_le add_Suc_right)
  have "length (t @ ''|'' @ p @ u) = length (t' @ ''|'' @ p' @ u')" by (simp only: assms(1))
  with assms(2,3,5) k have kp: "k < length p" by (cases p') auto
  have "(t' @ ''|'' @ p' @ u') ! length t' = CHR ''|''" by simp
  then have "(t @ ''|'' @ p @ u) ! length t' = CHR ''|''" by (simp only: assms(1))
  with k kp have "p ! k = CHR ''|''" by (simp add: nth_append)
  with assms(4) kp bar_not_digit show False by (metis nth_mem)
qed

lemma match_key_inject:
  assumes "match_key m = match_key m'"
    and "ep_topic (mi_local m) = ep_topic (mi_remote m)" "ep_topic (mi_local m') = ep_topic (mi_remote m')"
  shows "ep_kind (mi_local m) = ep_kind (mi_local m')" "ep_kind (mi_remote m) = ep_kind (mi_remote m')"
    "ep_topic (mi_local m) = ep_topic (mi_local m')" "mi_pid m = mi_pid m'"
proof -
  let ?t = "ep_topic (mi_local m)" and ?t' = "ep_topic (mi_local m')"
  let ?p = "to_string (unat (mi_pid m))" and ?p' = "to_string (unat (mi_pid m'))"
  obtain a b a' b' where d: "to_string (kind_nat (ep_kind (mi_local m))) = [a]"
    "to_string (kind_nat (ep_kind (mi_remote m))) = [b]"
    "to_string (kind_nat (ep_kind (mi_local m'))) = [a']"
    "to_string (kind_nat (ep_kind (mi_remote m'))) = [b']"
    using kind_string [of "ep_kind (mi_local m)"] kind_string [of "ep_kind (mi_remote m)"]
      kind_string [of "ep_kind (mi_local m')"] kind_string [of "ep_kind (mi_remote m')"] by blast
  let ?u = "''|'' @ b # '':'' @ ?t" and ?u' = "''|'' @ b' # '':'' @ ?t'"
  have e: "a = a'" "?t @ ''|'' @ ?p @ ?u = ?t' @ ''|'' @ ?p' @ ?u'"
    using assms unfolding match_key_def d by simp_all
  have "length ?t' \<le> length ?t" by (rule key_length [OF e(2)]) (use to_string_digits in simp_all)
  moreover have "length ?t \<le> length ?t'" by (rule key_length [OF e(2) [symmetric]]) (use to_string_digits in simp_all)
  ultimately have l: "length ?t = length ?t'" by simp
  from append_eq_append_conv [of ?t ?t' "''|'' @ ?p @ ?u" "''|'' @ ?p' @ ?u'"] e(2) l
  have t: "?t = ?t'" and r: "?p @ ?u = ?p' @ ?u'" by simp_all
  have "length (?p @ ?u) = length (?p' @ ?u')" by (simp only: r)
  with l have lp: "length ?p = length ?p'" by simp
  from append_eq_append_conv [of ?p ?p' ?u ?u'] lp r have "?p = ?p'" "b = b'" by simp_all
  with e(1) d have "to_string (kind_nat (ep_kind (mi_local m))) = to_string (kind_nat (ep_kind (mi_local m')))"
    "to_string (kind_nat (ep_kind (mi_remote m))) = to_string (kind_nat (ep_kind (mi_remote m')))"
    by (simp_all only:)
  with t \<open>?p = ?p'\<close> show "ep_kind (mi_local m) = ep_kind (mi_local m')" "ep_kind (mi_remote m) = ep_kind (mi_remote m')"
    "?t = ?t'" "mi_pid m = mi_pid m'"
    by (simp_all add: word_unat_eq_iff)
qed

end
