(* ===== verification/Discovery_Agent.thy ===== *)
theory Discovery_Agent
  imports Endpoint_Matcher
begin

text \<open>
  The discovery agent of discovery/src/discovery_agent.cpp: the participants it knows, the matches it has
  reported, and the callbacks it makes. Every member function is one operation; \<open>agent_turn\<close> is one
  turn of the background thread's loop. Operations of other threads (\<open>add_endpoint\<close>, the setters) fall
  between the operations of the background thread, so a history is a list of operations.

  Clock readings, the random participant id, the host id and the outcome of opening the multicast
  socket are arguments; a callback is the event it is called with. Times are milliseconds.
\<close>

section \<open>State\<close>

record announcement =
  an_pid :: u64
  an_node :: string
  an_locator :: locator
  an_endpoints :: "endpoint_info list"
  an_host :: string

record remote_peer =
  rp_node :: string
  rp_endpoints :: "endpoint_info list"
  rp_locator :: locator
  rp_host :: string
  rp_last_seen :: int

record discovered_endpoint =
  de_pid :: u64
  de_node :: string
  de_endpoint :: endpoint_info
  de_locator :: locator
  de_host :: string
  de_local :: bool

datatype match_event = OnMatch match_info | OnUnmatch match_info

record agent =
  ag_node :: string
  ag_locator :: locator
  ag_pid :: u64
  ag_endpoints :: "endpoint_info list"
  ag_dirty :: bool
  ag_remotes :: "(u64, remote_peer) std_map"
  ag_active :: "(string, match_info) std_map"
  ag_match_cb :: bool
  ag_unmatch_cb :: bool
  ag_running :: bool
  ag_last_announce :: int
  ag_interval :: int
  ag_timeout :: int

text \<open>\<open>make_participant_id\<close>: two draws of the random device and the process id.\<close>

definition make_participant_id :: "u32 \<Rightarrow> u32 \<Rightarrow> u32 \<Rightarrow> u64" where
  "make_participant_id hi lo pid = xor (xor (push_bit 32 (ucast hi)) (ucast lo)) (ucast pid)"

definition new_agent :: "string \<Rightarrow> locator \<Rightarrow> u64 \<Rightarrow> agent" where
  "new_agent node_name data_locator pid =
     \<lparr>ag_node = node_name, ag_locator = data_locator, ag_pid = pid, ag_endpoints = [], ag_dirty = False,
      ag_remotes = [], ag_active = [], ag_match_cb = False, ag_unmatch_cb = False, ag_running = False,
      ag_last_announce = 0, ag_interval = 1000, ag_timeout = 5000\<rparr>"

section \<open>Operations of other threads\<close>

definition add_endpoint :: "endpoint_kind \<Rightarrow> string \<Rightarrow> string \<Rightarrow> u32 \<Rightarrow> string \<Rightarrow> agent \<Rightarrow> agent" where
  "add_endpoint kind topic type_name reliability response a =
     a\<lparr>ag_endpoints := ag_endpoints a @ [\<lparr>ep_kind = kind, ep_topic = topic, ep_type = type_name,
          ep_reliability = reliability, ep_response = response\<rparr>],
       ag_dirty := True\<rparr>"

definition on_match :: "agent \<Rightarrow> agent" where
  "on_match a = a\<lparr>ag_match_cb := True\<rparr>"

definition on_unmatch :: "agent \<Rightarrow> agent" where
  "on_unmatch a = a\<lparr>ag_unmatch_cb := True\<rparr>"

definition set_timing :: "int \<Rightarrow> int \<Rightarrow> agent \<Rightarrow> agent" where
  "set_timing announce_interval liveliness_timeout a =
     a\<lparr>ag_interval := announce_interval, ag_timeout := liveliness_timeout\<rparr>"

definition agent_start :: "bool \<Rightarrow> agent \<Rightarrow> bool \<times> agent" where
  "agent_start mc_open a =
     (if ag_running a then (True, a)
      else if \<not> mc_open then (False, a)
      else (True, a\<lparr>ag_running := True\<rparr>))"

definition agent_stop :: "agent \<Rightarrow> agent" where
  "agent_stop a = a\<lparr>ag_running := False\<rparr>"

definition snapshot_endpoints :: "string \<Rightarrow> agent \<Rightarrow> discovered_endpoint list" where
  "snapshot_endpoints host a =
     map (\<lambda>e. \<lparr>de_pid = ag_pid a, de_node = ag_node a, de_endpoint = e, de_locator = ag_locator a,
               de_host = host, de_local = True\<rparr>) (ag_endpoints a) @
     concat (map (\<lambda>(i, r). map (\<lambda>e. \<lparr>de_pid = i, de_node = rp_node r, de_endpoint = e,
               de_locator = rp_locator r, de_host = rp_host r, de_local = False\<rparr>) (rp_endpoints r)) (ag_remotes a))"

section \<open>The background thread\<close>

definition announce :: "string \<Rightarrow> agent \<Rightarrow> announcement" where
  "announce host a =
     \<lparr>an_pid = ag_pid a, an_node = ag_node a, an_locator = ag_locator a,
      an_endpoints = ag_endpoints a, an_host = host\<rparr>"

text \<open>The loop of \<open>try_match\<close> over the computed matches.\<close>

fun note_matches :: "string \<Rightarrow> match_info list \<Rightarrow> agent \<Rightarrow> match_event list \<times> agent" where
  "note_matches host [] a = ([], a)"
| "note_matches host (m # ms) a =
     (let m = m\<lparr>mi_host := host\<rparr>; key = match_key m in
      if sm_find (ag_active a) key = None then
        (let a = a\<lparr>ag_active := sm_put key m (ag_active a)\<rparr>;
             (evs, a') = note_matches host ms a
         in (if ag_match_cb a then OnMatch m # evs else evs, a'))
      else note_matches host ms a)"

definition try_match :: "u64 \<Rightarrow> remote_peer \<Rightarrow> agent \<Rightarrow> match_event list \<times> agent" where
  "try_match remote_id r a =
     note_matches (rp_host r) (match_endpoints (ag_endpoints a) remote_id (rp_locator r) (rp_endpoints r)) a"

definition handle_announcement :: "int \<Rightarrow> announcement \<Rightarrow> agent \<Rightarrow> match_event list \<times> agent" where
  "handle_announcement now ann a =
     (if an_pid ann = ag_pid a then ([], a)
      else
        (let r = \<lparr>rp_node = an_node ann, rp_endpoints = an_endpoints ann, rp_locator = an_locator ann,
                  rp_host = an_host ann, rp_last_seen = now\<rparr>
         in try_match (an_pid ann) r (a\<lparr>ag_remotes := sm_put (an_pid ann) r (ag_remotes a)\<rparr>)))"

fun match_remotes :: "(u64 \<times> remote_peer) list \<Rightarrow> agent \<Rightarrow> match_event list \<times> agent" where
  "match_remotes [] a = ([], a)"
| "match_remotes ((i, r) # rs) a =
     (let (evs, a) = try_match i r a; (evs', a) = match_remotes rs a in (evs @ evs', a))"

definition rematch_all :: "agent \<Rightarrow> match_event list \<times> agent" where
  "rematch_all a = match_remotes (ag_remotes a) a"

text \<open>
  \<open>reap_dead\<close>: first the participants not heard of for longer than the timeout are removed, then for
  each of them, in order, its matches are reported and removed.
\<close>

definition is_dead :: "int \<Rightarrow> agent \<Rightarrow> remote_peer \<Rightarrow> bool" where
  "is_dead now a r \<longleftrightarrow> now - rp_last_seen r > ag_timeout a"

fun unmatch_dead :: "u64 list \<Rightarrow> agent \<Rightarrow> match_event list \<times> agent" where
  "unmatch_dead [] a = ([], a)"
| "unmatch_dead (i # is) a =
     (let gone = filter (\<lambda>(k, m). mi_pid m = i) (ag_active a);
          a1 = a\<lparr>ag_active := filter (\<lambda>(k, m). mi_pid m \<noteq> i) (ag_active a)\<rparr>;
          (evs, a2) = unmatch_dead is a1
      in ((if ag_unmatch_cb a then map (\<lambda>(k, m). OnUnmatch m) gone else []) @ evs, a2))"

definition reap_dead :: "int \<Rightarrow> agent \<Rightarrow> match_event list \<times> agent" where
  "reap_dead now a =
     unmatch_dead (map fst (filter (\<lambda>(i, r). is_dead now a r) (ag_remotes a)))
       (a\<lparr>ag_remotes := filter (\<lambda>(i, r). \<not> is_dead now a r) (ag_remotes a)\<rparr>)"

definition rematch_if_dirty :: "agent \<Rightarrow> match_event list \<times> agent" where
  "rematch_if_dirty a = (if ag_dirty a then rematch_all (a\<lparr>ag_dirty := False\<rparr>) else ([], a))"

text \<open>
  One turn of \<open>run\<close>: what \<open>recv\<close> gave, the three clock readings; the announcement sent, if any, and the
  callbacks.
\<close>

definition agent_turn :: "(bytes \<Rightarrow> announcement option) \<Rightarrow> string \<Rightarrow> bytes option \<Rightarrow> int \<Rightarrow> int \<Rightarrow> int \<Rightarrow> agent \<Rightarrow>
    announcement option \<times> match_event list \<times> agent" where
  "agent_turn parse host received t1 t2 t3 a =
     (let (e1, a) = (case received of
              None \<Rightarrow> ([], a)
            | Some bs \<Rightarrow> (case parse bs of None \<Rightarrow> ([], a) | Some ann \<Rightarrow> handle_announcement t1 ann a));
          (e2, a) = rematch_if_dirty a;
          (sent, a) = (if t2 - ag_last_announce a \<ge> ag_interval a
                       then (Some (announce host a), a\<lparr>ag_last_announce := t2\<rparr>) else (None, a));
          (e3, a) = reap_dead t3 a
      in (sent, e1 @ e2 @ e3, a))"

section \<open>Histories\<close>

datatype agent_op =
    AddEndpoint endpoint_kind string string u32 string
  | SetTiming int int
  | Announced int announcement
  | Rematch
  | Sent int
  | Reap int

fun agent_step :: "agent_op \<Rightarrow> agent \<Rightarrow> match_event list \<times> agent" where
  "agent_step (AddEndpoint k t ty rel resp) a = ([], add_endpoint k t ty rel resp a)"
| "agent_step (SetTiming i l) a = ([], set_timing i l a)"
| "agent_step (Announced now ann) a = handle_announcement now ann a"
| "agent_step Rematch a = rematch_if_dirty a"
| "agent_step (Sent now) a = ([], a\<lparr>ag_last_announce := now\<rparr>)"
| "agent_step (Reap now) a = reap_dead now a"

fun run_agent :: "agent_op list \<Rightarrow> agent \<Rightarrow> match_event list \<times> agent" where
  "run_agent [] a = ([], a)"
| "run_agent (op # ops) a =
     (let (evs, a1) = agent_step op a; (evs', a2) = run_agent ops a1 in (evs @ evs', a2))"

text \<open>An agent as \<open>Node\<close> sets it up: both callbacks registered before the thread starts.\<close>

definition node_agent :: "string \<Rightarrow> locator \<Rightarrow> u64 \<Rightarrow> agent" where
  "node_agent node_name data_locator pid =
     (on_unmatch (on_match (new_agent node_name data_locator pid)))\<lparr>ag_running := True\<rparr>"

section \<open>Replaying callbacks\<close>

text \<open>
  The matches a listener holds after the callbacks, if each match is new and each unmatch is of
  a match it holds.
\<close>

fun replay :: "match_event list \<Rightarrow> (string \<Rightarrow> match_info option) \<Rightarrow> (string \<Rightarrow> match_info option) option" where
  "replay [] K = Some K"
| "replay (OnMatch m # evs) K =
     (if K (match_key m) \<noteq> None then None else replay evs (K(match_key m \<mapsto> m)))"
| "replay (OnUnmatch m # evs) K =
     (if K (match_key m) \<noteq> Some m then None else replay evs (K(match_key m := None)))"

definition active_map :: "agent \<Rightarrow> string \<Rightarrow> match_info option" where
  "active_map a = sm_find (ag_active a)"

definition active_keys :: "agent \<Rightarrow> string set" where
  "active_keys a = fst ` set (ag_active a)"

lemma replay_append: "replay (evs @ evs') K = Option.bind (replay evs K) (replay evs')"
proof (induction evs arbitrary: K)
  case (Cons ev evs)
  then show ?case by (cases ev) (simp_all del: fun_upd_apply)
qed simp

lemma replay_unmatch:
  assumes "distinct (map match_key ms)" "\<forall>m \<in> set ms. K (match_key m) = Some m"
  shows "replay (map OnUnmatch ms) K = Some (\<lambda>k. if k \<in> match_key ` set ms then None else K k)"
  using assms
proof (induction ms arbitrary: K)
  case (Cons m ms)
  have "\<forall>x \<in> set ms. (K(match_key m := None)) (match_key x) = Some x"
    using Cons.prems by (auto simp: image_iff)
  with Cons.IH [of "K(match_key m := None)"] Cons.prems
  have "replay (map OnUnmatch (m # ms)) K =
    Some (\<lambda>k. if k \<in> match_key ` set ms then None else (K(match_key m := None)) k)" by (simp del: fun_upd_apply)
  moreover have "(\<lambda>k. if k \<in> match_key ` set ms then None else (K(match_key m := None)) k) =
    (\<lambda>k. if k \<in> match_key ` set (m # ms) then None else K k)" by auto
  ultimately show ?case by simp
qed simp

section \<open>Invariant\<close>

text \<open>What is known of every remembered match, relative to endpoints and participants.\<close>

definition match_known :: "agent \<Rightarrow> string \<Rightarrow> match_info \<Rightarrow> bool" where
  "match_known a k m \<longleftrightarrow> k = match_key m \<and> mi_local m \<in> set (ag_endpoints a) \<and>
     mi_pid m \<in> fst ` set (ag_remotes a) \<and>
     match_pair (mi_pid m) (mi_locator m) (mi_local m) (mi_remote m) = Some (m\<lparr>mi_host := []\<rparr>)"

definition agent_ok :: "agent \<Rightarrow> bool" where
  "agent_ok a \<longleftrightarrow> sm_ok (ag_active a) \<and> sm_ok (ag_remotes a) \<and>
     (\<forall>(k, m) \<in> set (ag_active a). match_known a k m)"

text \<open>Unless the dirty flag is set, every pair that matches is remembered.\<close>

definition agent_complete :: "agent \<Rightarrow> bool" where
  "agent_complete a \<longleftrightarrow> (\<forall>(i, r) \<in> set (ag_remotes a).
     match_key ` set (match_endpoints (ag_endpoints a) i (rp_locator r) (rp_endpoints r)) \<subseteq> active_keys a)"

lemma match_key_host [simp]: "match_key (m\<lparr>mi_host := h\<rparr>) = match_key m"
  by (simp add: match_key_def)

text \<open>An operation that changes the remembered matches only.\<close>

definition only_active :: "agent \<Rightarrow> agent \<Rightarrow> bool" where
  "only_active a a' \<longleftrightarrow> (\<exists>x. a' = a\<lparr>ag_active := x\<rparr>)"

lemma only_active_refl: "only_active a a"
  unfolding only_active_def by (rule exI [of _ "ag_active a"]) simp

lemma only_active_trans: "only_active a b \<Longrightarrow> only_active b c \<Longrightarrow> only_active a c"
  by (auto simp: only_active_def)

lemma only_active_fields:
  assumes "only_active a a'"
  shows "ag_endpoints a' = ag_endpoints a" "ag_remotes a' = ag_remotes a" "ag_match_cb a' = ag_match_cb a"
    "ag_unmatch_cb a' = ag_unmatch_cb a" "ag_dirty a' = ag_dirty a" "ag_pid a' = ag_pid a"
    "ag_timeout a' = ag_timeout a"
  using assms by (auto simp: only_active_def)

lemma note_matches_all:
  assumes "note_matches host ms a = (evs, a')" "sm_ok (ag_active a)"
  shows "only_active a a' \<and> sm_ok (ag_active a') \<and>
    active_keys a' = active_keys a \<union> match_key ` set ms \<and> set (ag_active a) \<subseteq> set (ag_active a') \<and>
    (\<forall>k m'. (k, m') \<in> set (ag_active a') \<longrightarrow> (k, m') \<in> set (ag_active a) \<or>
       k = match_key m' \<and> (\<exists>m0 \<in> set ms. m' = m0\<lparr>mi_host := host\<rparr>)) \<and>
    (ag_match_cb a \<longrightarrow> replay evs (active_map a) = Some (active_map a'))"
  using assms
proof (induction ms arbitrary: a evs)
  case Nil
  then show ?case by (simp add: only_active_refl)
next
  case (Cons m ms)
  let ?m = "m\<lparr>mi_host := host\<rparr>" and ?k = "match_key m"
  note ok = Cons.prems(2)
  define a1 where "a1 = (if sm_find (ag_active a) ?k = None then a\<lparr>ag_active := sm_put ?k ?m (ag_active a)\<rparr> else a)"
  have new: "sm_find (ag_active a) ?k = None \<longleftrightarrow> ?k \<notin> active_keys a"
    by (simp add: active_keys_def map_of_eq_None_iff)
  obtain evs1 where r: "note_matches host ms a1 = (evs1, a')"
    and e: "evs = (if sm_find (ag_active a) ?k = None \<and> ag_match_cb a then OnMatch ?m # evs1 else evs1)"
    using Cons.prems(1) by (auto simp: a1_def Let_def split: prod.splits if_splits)
  have o1: "only_active a a1" by (auto simp: a1_def only_active_def intro: exI [of _ "ag_active a"])
  have ok1: "sm_ok (ag_active a1)" using ok by (simp add: a1_def sm_ok_put)
  have s1: "set (ag_active a1) = (if ?k \<in> active_keys a then set (ag_active a) else insert (?k, ?m) (set (ag_active a)))"
    using ok new by (auto simp: a1_def set_sm_put active_keys_def intro: rev_image_eqI)
  then have k1: "active_keys a1 = insert ?k (active_keys a)" by (auto simp: active_keys_def)
  note ih = Cons.IH [OF r ok1]
  have "only_active a a'" using ih o1 by (blast intro: only_active_trans)
  moreover have "active_keys a' = active_keys a \<union> match_key ` set (m # ms)" using ih k1 by simp
  moreover have "set (ag_active a) \<subseteq> set (ag_active a')" using ih s1 by (auto split: if_splits)
  moreover have "(k, m') \<in> set (ag_active a) \<or> k = match_key m' \<and> (\<exists>m0 \<in> set (m # ms). m' = m0\<lparr>mi_host := host\<rparr>)"
    if "(k, m') \<in> set (ag_active a')" for k m'
  proof -
    from ih that have "(k, m') \<in> set (ag_active a1) \<or> k = match_key m' \<and> (\<exists>m0 \<in> set ms. m' = m0\<lparr>mi_host := host\<rparr>)"
      by blast
    then show ?thesis using s1 by (auto split: if_splits)
  qed
  moreover have "replay evs (active_map a) = Some (active_map a')" if "ag_match_cb a"
  proof -
    have "replay evs1 (active_map a1) = Some (active_map a')"
      using ih that only_active_fields(3) [OF o1] by simp
    moreover have "active_map a1 = (if sm_find (ag_active a) ?k = None then (active_map a)(?k \<mapsto> ?m) else active_map a)"
      by (simp add: a1_def active_map_def map_of_sm_put)
    ultimately show ?thesis using e that by (auto simp: active_map_def)
  qed
  ultimately show ?case using ih by blast
qed

lemma note_matches_spec:
  assumes "note_matches host ms a = (evs, a')" "sm_ok (ag_active a)"
  shows "only_active a a'" "sm_ok (ag_active a')"
    "active_keys a' = active_keys a \<union> match_key ` set ms" "set (ag_active a) \<subseteq> set (ag_active a')"
    "(k, m') \<in> set (ag_active a') \<Longrightarrow> (k, m') \<in> set (ag_active a) \<or>
       k = match_key m' \<and> (\<exists>m0 \<in> set ms. m' = m0\<lparr>mi_host := host\<rparr>)"
    "ag_match_cb a \<Longrightarrow> replay evs (active_map a) = Some (active_map a')"
  using note_matches_all [OF assms] by blast+

lemma match_pair_fields:
  assumes "match_pair i l le re = Some m"
  shows "mi_local m = le" "mi_remote m = re" "mi_locator m = l" "mi_pid m = i" "mi_host m = []"
  using assms by (auto simp: match_pair_Some)

lemma try_match_spec:
  assumes "try_match i r a = (evs, a')" "agent_ok a" "i \<in> fst ` set (ag_remotes a)"
  shows "only_active a a'" "agent_ok a'" "active_keys a \<subseteq> active_keys a'"
    "match_key ` set (match_endpoints (ag_endpoints a) i (rp_locator r) (rp_endpoints r)) \<subseteq> active_keys a'"
    "ag_match_cb a \<Longrightarrow> replay evs (active_map a) = Some (active_map a')"
proof -
  let ?ms = "match_endpoints (ag_endpoints a) i (rp_locator r) (rp_endpoints r)"
  have ok: "sm_ok (ag_active a)" using assms(2) by (simp add: agent_ok_def)
  have n: "note_matches (rp_host r) ?ms a = (evs, a')" using assms(1) by (simp add: try_match_def)
  note spec = note_matches_spec [OF n ok]
  note fields = only_active_fields [OF spec(1)]
  have "match_known a' k m" if "(k, m) \<in> set (ag_active a')" for k m
  proof (cases "(k, m) \<in> set (ag_active a)")
    case True
    with assms(2) fields show ?thesis by (fastforce simp: agent_ok_def match_known_def)
  next
    case False
    with spec(5) [OF that] obtain m0 where
      m0: "k = match_key m" "m0 \<in> set ?ms" "m = m0\<lparr>mi_host := rp_host r\<rparr>" by blast
    then obtain le re where p: "le \<in> set (ag_endpoints a)" "match_pair i (rp_locator r) le re = Some m0"
      by (auto simp: set_match_endpoints)
    with m0 match_pair_fields [OF p(2)] assms(3) fields show ?thesis by (simp add: match_known_def)
  qed
  then show "agent_ok a'" using spec(2) assms(2) fields by (auto simp: agent_ok_def)
  show "only_active a a'" by (rule spec(1))
  show "active_keys a \<subseteq> active_keys a'" "match_key ` set ?ms \<subseteq> active_keys a'" using spec(3) by auto
  show "ag_match_cb a \<Longrightarrow> replay evs (active_map a) = Some (active_map a')" by (rule spec(6))
qed

lemma match_remotes_spec:
  assumes "match_remotes rs a = (evs, a')" "agent_ok a" "fst ` set rs \<subseteq> fst ` set (ag_remotes a)"
  shows "only_active a a' \<and> agent_ok a' \<and> active_keys a \<subseteq> active_keys a' \<and>
    (\<forall>(i, r) \<in> set rs. match_key ` set (match_endpoints (ag_endpoints a) i (rp_locator r) (rp_endpoints r))
       \<subseteq> active_keys a') \<and>
    (ag_match_cb a \<longrightarrow> replay evs (active_map a) = Some (active_map a'))"
  using assms
proof (induction rs a arbitrary: evs rule: match_remotes.induct)
  case (1 a)
  then show ?case by (simp add: only_active_refl)
next
  case (2 i r rs a)
  obtain e1 a1 where t: "try_match i r a = (e1, a1)" by (cases "try_match i r a")
  obtain e2 where m: "match_remotes rs a1 = (e2, a')" and e: "evs = e1 @ e2"
    using "2.prems"(1) t by (auto split: prod.splits)
  have i: "i \<in> fst ` set (ag_remotes a)" using "2.prems"(3) by simp
  note s1 = try_match_spec [OF t "2.prems"(2) i]
  note f = only_active_fields [OF s1(1)]
  have s2: "only_active a1 a' \<and> agent_ok a' \<and> active_keys a1 \<subseteq> active_keys a' \<and>
    (\<forall>(i, r) \<in> set rs. match_key ` set (match_endpoints (ag_endpoints a1) i (rp_locator r) (rp_endpoints r))
       \<subseteq> active_keys a') \<and> (ag_match_cb a1 \<longrightarrow> replay e2 (active_map a1) = Some (active_map a'))"
    using "2.IH" [OF t [symmetric] refl m] s1(2) "2.prems"(3) f by simp
  have "only_active a a'" using s1(1) s2 by (blast intro: only_active_trans)
  moreover have "ag_match_cb a \<longrightarrow> replay evs (active_map a) = Some (active_map a')"
    using s1(5) s2 f e by (simp add: replay_append)
  ultimately show ?case using s1(3,4) s2 f by auto
qed

text \<open>The operations of the background thread.\<close>

lemma handle_announcement_spec:
  assumes "handle_announcement now ann a = (evs, a')" "agent_ok a"
  shows "agent_ok a'" "ag_match_cb a \<Longrightarrow> replay evs (active_map a) = Some (active_map a')"
    "agent_complete a \<Longrightarrow> agent_complete a'"
    "\<exists>rs x. a' = a\<lparr>ag_remotes := rs, ag_active := x\<rparr>"
    "fst ` set (ag_remotes a') \<subseteq> fst ` set (ag_remotes a) \<union> (- {ag_pid a})"
    "an_pid ann \<noteq> ag_pid a \<Longrightarrow>
      match_key ` set (match_endpoints (ag_endpoints a) (an_pid ann) (an_locator ann) (an_endpoints ann)) \<subseteq> active_keys a'"
proof -
  define r where "r = \<lparr>rp_node = an_node ann, rp_endpoints = an_endpoints ann, rp_locator = an_locator ann,
    rp_host = an_host ann, rp_last_seen = now\<rparr>"
  define a1 where "a1 = a\<lparr>ag_remotes := sm_put (an_pid ann) r (ag_remotes a)\<rparr>"
  have ro: "sm_ok (ag_remotes a)" using assms(2) by (simp add: agent_ok_def)
  have s: "set (ag_remotes a1) = insert (an_pid ann, r) {e \<in> set (ag_remotes a). fst e \<noteq> an_pid ann}"
    using ro by (simp add: a1_def set_sm_put)
  have "match_known a1 k m" if "(k, m) \<in> set (ag_active a)" for k m
    using assms(2) that s by (fastforce simp: agent_ok_def match_known_def a1_def)
  then have ok: "agent_ok a1" using assms(2) ro by (auto simp: agent_ok_def a1_def sm_ok_put)
  have i: "an_pid ann \<in> fst ` set (ag_remotes a1)" using s by auto
  have k: "active_keys a1 = active_keys a" "active_map a1 = active_map a" "ag_endpoints a1 = ag_endpoints a" "ag_match_cb a1 = ag_match_cb a"
    by (simp_all add: active_keys_def active_map_def a1_def)
  consider (own) "an_pid ann = ag_pid a" "evs = []" "a' = a"
    | (other) "an_pid ann \<noteq> ag_pid a" "try_match (an_pid ann) r a1 = (evs, a')"
    using assms(1) by (auto simp: handle_announcement_def r_def a1_def Let_def split: if_splits)
  note cases = this
  show "agent_ok a'" using cases try_match_spec(2) [OF _ ok i] assms(2) by cases auto
  show "ag_match_cb a \<Longrightarrow> replay evs (active_map a) = Some (active_map a')"
    using cases try_match_spec(5) [OF _ ok i] k by cases auto
  show "match_key ` set (match_endpoints (ag_endpoints a) (an_pid ann) (an_locator ann) (an_endpoints ann)) \<subseteq> active_keys a'"
    if "an_pid ann \<noteq> ag_pid a"
    using cases that try_match_spec(4) [OF _ ok i, of r] k by cases (simp_all add: r_def)
  show "\<exists>rs x. a' = a\<lparr>ag_remotes := rs, ag_active := x\<rparr>"
  proof (cases rule: cases)
    case own
    then show ?thesis by (intro exI [of _ "ag_remotes a"] exI [of _ "ag_active a"]) simp
  next
    case other
    with try_match_spec(1) [OF other(2) ok i] show ?thesis by (auto simp: only_active_def a1_def)
  qed
  show "fst ` set (ag_remotes a') \<subseteq> fst ` set (ag_remotes a) \<union> (- {ag_pid a})"
  proof (cases rule: cases)
    case other
    with only_active_fields(2) [OF try_match_spec(1) [OF other(2) ok i]] s show ?thesis by auto
  qed auto
  show "agent_complete a'" if c: "agent_complete a"
  proof (cases rule: cases)
    case other
    note spec = try_match_spec [OF other(2) ok i]
    note f = only_active_fields [OF spec(1)]
    show ?thesis unfolding agent_complete_def
    proof clarify
      fix j rj m assume j: "(j, rj) \<in> set (ag_remotes a')"
        and m: "m \<in> set (match_endpoints (ag_endpoints a') j (rp_locator rj) (rp_endpoints rj))"
      from j f s consider "j = an_pid ann" "rj = r" | "(j, rj) \<in> set (ag_remotes a)" by auto
      then show "match_key m \<in> active_keys a'"
      proof cases
        case 1
        with spec(4) m f show ?thesis by auto
      next
        case 2
        with c m f k have "match_key m \<in> active_keys a" by (fastforce simp: agent_complete_def)
        with spec(3) k show ?thesis by auto
      qed
    qed
  qed (use c in simp)
qed

lemma rematch_spec:
  assumes "rematch_if_dirty a = (evs, a')" "agent_ok a" "ag_dirty a \<or> agent_complete a"
  shows "agent_ok a' \<and> (ag_match_cb a \<longrightarrow> replay evs (active_map a) = Some (active_map a')) \<and>
    agent_complete a' \<and> (\<exists>x. a' = a\<lparr>ag_dirty := False, ag_active := x\<rparr>)"
proof (cases "ag_dirty a")
  case True
  define a0 where "a0 = a\<lparr>ag_dirty := False\<rparr>"
  have m: "match_remotes (ag_remotes a0) a0 = (evs, a')"
    using assms(1) True by (simp add: rematch_if_dirty_def rematch_all_def a0_def)
  have ok: "agent_ok a0" using assms(2) by (auto simp: a0_def agent_ok_def match_known_def)
  note s = match_remotes_spec [OF m ok order_refl]
  have k: "active_map a0 = active_map a" "ag_match_cb a0 = ag_match_cb a" by (simp_all add: a0_def active_map_def)
  have o: "only_active a0 a'" using s by blast
  have "agent_complete a'" using s only_active_fields [OF o] by (fastforce simp: agent_complete_def)
  moreover have "\<exists>x. a' = a\<lparr>ag_dirty := False, ag_active := x\<rparr>" using o by (auto simp: only_active_def a0_def)
  ultimately show ?thesis using s k by simp
next
  case False
  with assms show ?thesis
    by (auto simp: rematch_if_dirty_def intro!: exI [of _ "ag_active a"])
qed

lemma sm_find_filter:
  assumes "sm_ok m"
  shows "sm_find (filter P m) k = Option.bind (sm_find m k) (\<lambda>v. if P (k, v) then Some v else None)"
    (is "?l = ?r")
proof -
  have "?l = Some v \<longleftrightarrow> sm_find m k = Some v \<and> P (k, v)" for v
    using assms sm_ok_filter [OF assms, of P] by (simp add: sm_find_iff)
  moreover have "?r = Some v \<longleftrightarrow> sm_find m k = Some v \<and> P (k, v)" for v
    by (auto simp: bind_eq_Some_conv split: if_splits)
  ultimately have "?l = Some v \<longleftrightarrow> ?r = Some v" for v
    by blast
  then show ?thesis
    by (cases ?l) (metis not_Some_eq, metis)
qed

lemma unmatch_one:
  assumes "sm_ok (ag_active a)" "\<forall>(k, m) \<in> set (ag_active a). k = match_key m"
  shows "replay (map (\<lambda>(k, m). OnUnmatch m) (filter (\<lambda>(k, m). mi_pid m = i) (ag_active a))) (active_map a) =
    Some (map_of (filter (\<lambda>(k, m). mi_pid m \<noteq> i) (ag_active a)))"
proof -
  let ?gone = "filter (\<lambda>(k, m). mi_pid m = i) (ag_active a)"
  have d: "distinct (map fst (ag_active a))" "distinct (map fst ?gone)"
    using sm_ok_distinct [OF assms(1)] sm_ok_distinct [OF sm_ok_filter [OF assms(1)]] by simp_all
  have g: "map match_key (map snd ?gone) = map fst ?gone" using assms(2) by auto
  have e: "match_key ` set (map snd ?gone) = fst ` set ?gone" using g by (metis list.set_map)
  have k: "k \<in> fst ` set ?gone \<longleftrightarrow> (\<exists>m. active_map a k = Some m \<and> mi_pid m = i)" for k
    using sm_find_iff [OF assms(1)] by (force simp: active_map_def)
  have "replay (map OnUnmatch (map snd ?gone)) (active_map a) =
    Some (\<lambda>k. if k \<in> match_key ` set (map snd ?gone) then None else active_map a k)"
  proof (rule replay_unmatch)
    show "distinct (map match_key (map snd ?gone))" by (simp only: g d)
    show "\<forall>m \<in> set (map snd ?gone). active_map a (match_key m) = Some m"
      using sm_find_iff [OF assms(1)] assms(2) by (auto simp: active_map_def)
  qed
  moreover have "(\<lambda>k. if k \<in> fst ` set ?gone then None else active_map a k) =
    map_of (filter (\<lambda>(k, m). mi_pid m \<noteq> i) (ag_active a))"
    by (rule ext) (simp add: k sm_find_filter [OF assms(1)] active_map_def del: set_filter split: option.splits bind_splits)
  moreover have "map (\<lambda>(k, m). OnUnmatch m) ?gone = map OnUnmatch (map snd ?gone)" by auto
  ultimately show ?thesis using e by (simp only:)
qed

lemma unmatch_dead_all:
  assumes "unmatch_dead is a = (evs, a')" "sm_ok (ag_active a)" "\<forall>(k, m) \<in> set (ag_active a). k = match_key m"
  shows "a' = a\<lparr>ag_active := filter (\<lambda>(k, m). mi_pid m \<notin> set is) (ag_active a)\<rparr> \<and>
    (ag_unmatch_cb a \<longrightarrow> replay evs (active_map a) = Some (active_map a') \<and>
      set evs = {OnUnmatch m |k m. (k, m) \<in> set (ag_active a) \<and> mi_pid m \<in> set is})"
  using assms
proof (induction "is" arbitrary: a evs)
  case Nil
  then show ?case by simp
next
  case (Cons i "is")
  define a1 where "a1 = a\<lparr>ag_active := filter (\<lambda>(k, m). mi_pid m \<noteq> i) (ag_active a)\<rparr>"
  let ?e1 = "map (\<lambda>(k, m). OnUnmatch m) (filter (\<lambda>(k, m). mi_pid m = i) (ag_active a))"
  obtain e2 where r: "unmatch_dead is a1 = (e2, a')" and e: "evs = (if ag_unmatch_cb a then ?e1 else []) @ e2"
    using Cons.prems(1) by (auto simp: a1_def Let_def split: prod.splits)
  have ih: "a' = a1\<lparr>ag_active := filter (\<lambda>(k, m). mi_pid m \<notin> set is) (ag_active a1)\<rparr> \<and>
    (ag_unmatch_cb a1 \<longrightarrow> replay e2 (active_map a1) = Some (active_map a') \<and>
      set e2 = {OnUnmatch m |k m. (k, m) \<in> set (ag_active a1) \<and> mi_pid m \<in> set is})"
    by (rule Cons.IH [OF r]) (use Cons.prems(2,3) in \<open>auto simp: a1_def sm_ok_filter\<close>)
  have "a' = a\<lparr>ag_active := filter (\<lambda>(k, m). mi_pid m \<notin> set (i # is)) (ag_active a)\<rparr>"
  proof -
    have "filter (\<lambda>(k, m). mi_pid m \<notin> set is) (filter (\<lambda>(k, m). mi_pid m \<noteq> i) (ag_active a)) =
      filter (\<lambda>(k, m). mi_pid m \<notin> set (i # is)) (ag_active a)"
      by (simp only: filter_filter) (rule filter_cong, auto)
    moreover have "a' = a\<lparr>ag_active := filter (\<lambda>(k, m). mi_pid m \<notin> set is)
        (filter (\<lambda>(k, m). mi_pid m \<noteq> i) (ag_active a))\<rparr>"
      using ih by (simp add: a1_def)
    ultimately show ?thesis by simp
  qed
  moreover have "replay evs (active_map a) = Some (active_map a')" if "ag_unmatch_cb a"
    using ih e that unmatch_one [OF Cons.prems(2,3), of i]
    by (simp add: replay_append) (simp add: a1_def active_map_def)
  moreover have "set evs = {OnUnmatch m |k m. (k, m) \<in> set (ag_active a) \<and> mi_pid m \<in> set (i # is)}"
    if "ag_unmatch_cb a"
  proof -
    have "set e2 = {OnUnmatch m |k m. (k, m) \<in> set (ag_active a1) \<and> mi_pid m \<in> set is}"
      using ih that by (simp add: a1_def)
    then show ?thesis using e that by (auto simp: a1_def)
  qed
  ultimately show ?case by blast
qed

text \<open>
  A remaining participant keeps its matches when others are reaped: the key of a match determines
  the participant.
\<close>

lemma reap_dead_spec:
  assumes "reap_dead now a = (evs, a')" "agent_ok a"
  shows "a' = a\<lparr>ag_remotes := filter (\<lambda>(i, r). \<not> is_dead now a r) (ag_remotes a),
      ag_active := filter (\<lambda>(k, m). mi_pid m \<notin> {i. \<exists>r. (i, r) \<in> set (ag_remotes a) \<and> is_dead now a r}) (ag_active a)\<rparr>"
    (is "a' = ?a'")
    and "agent_ok a'" "agent_complete a \<Longrightarrow> agent_complete a'"
    and "ag_unmatch_cb a \<Longrightarrow> replay evs (active_map a) = Some (active_map a')"
    and "ag_unmatch_cb a \<Longrightarrow> set evs = {OnUnmatch m |k m. (k, m) \<in> set (ag_active a) \<and>
      (\<exists>r. (mi_pid m, r) \<in> set (ag_remotes a) \<and> is_dead now a r)}"
proof -
  define dead where "dead = map fst (filter (\<lambda>(i, r). is_dead now a r) (ag_remotes a))"
  define a1 where "a1 = a\<lparr>ag_remotes := filter (\<lambda>(i, r). \<not> is_dead now a r) (ag_remotes a)\<rparr>"
  have sd: "set dead = {i. \<exists>r. (i, r) \<in> set (ag_remotes a) \<and> is_dead now a r}"
    by (force simp: dead_def)
  have u: "unmatch_dead dead a1 = (evs, a')" using assms(1) by (simp add: reap_dead_def dead_def a1_def)
  have ro: "sm_ok (ag_remotes a)" "sm_ok (ag_active a)" using assms(2) by (simp_all add: agent_ok_def)
  have "sm_ok (ag_active a1)" "\<forall>(k, m) \<in> set (ag_active a1). k = match_key m"
    using assms(2) by (auto simp: a1_def agent_ok_def match_known_def)
  note all = unmatch_dead_all [OF u this]
  then have "a' = a1\<lparr>ag_active := filter (\<lambda>(k, m). mi_pid m \<notin> set dead) (ag_active a1)\<rparr>" by blast
  then show e: "a' = ?a'" by (simp add: a1_def sd)
  from all show "ag_unmatch_cb a \<Longrightarrow> replay evs (active_map a) = Some (active_map a')"
    by (simp add: a1_def active_map_def)
  from all show "ag_unmatch_cb a \<Longrightarrow> set evs = {OnUnmatch m |k m. (k, m) \<in> set (ag_active a) \<and>
      (\<exists>r. (mi_pid m, r) \<in> set (ag_remotes a) \<and> is_dead now a r)}"
    by (simp add: a1_def sd)
  have live: "i \<in> fst ` set (ag_remotes a')" if "i \<in> fst ` set (ag_remotes a)" "i \<notin> set dead" for i
    using that unfolding sd by (force simp: e)
  have "match_known a' k m" if "(k, m) \<in> set (ag_active a')" for k m
  proof -
    have m: "(k, m) \<in> set (ag_active a)" "mi_pid m \<notin> set dead" using that by (simp_all add: e sd)
    with assms(2) have "match_known a k m" by (auto simp: agent_ok_def)
    with live [of "mi_pid m"] m(2) show ?thesis by (simp add: match_known_def e)
  qed
  then show "agent_ok a'" using ro by (auto simp: agent_ok_def e sm_ok_filter)
  show "agent_complete a'" if c: "agent_complete a"
    unfolding agent_complete_def
  proof clarify
    fix i r m assume i: "(i, r) \<in> set (ag_remotes a')"
      and m: "m \<in> set (match_endpoints (ag_endpoints a') i (rp_locator r) (rp_endpoints r))"
    then have i': "(i, r) \<in> set (ag_remotes a)" "\<not> is_dead now a r" by (simp_all add: e)
    with c m have "match_key m \<in> active_keys a" by (fastforce simp: agent_complete_def e)
    then obtain m' where m': "(match_key m, m') \<in> set (ag_active a)" by (auto simp: active_keys_def)
    then have kn: "match_known a (match_key m) m'" using assms(2) by (auto simp: agent_ok_def)
    obtain le re where p: "match_pair i (rp_locator r) le re = Some m" using m by (auto simp: set_match_endpoints)
    have "mi_pid m' = i"
      using match_key_inject(4) [of m m'] kn p match_pair_fields [OF p]
      by (auto simp: match_known_def match_pair_Some)
    moreover have "i \<notin> set dead"
      using i' sm_unique [OF ro(1)] unfolding sd by blast
    ultimately have "(match_key m, m') \<in> set (ag_active a')" using m' by (simp add: e sd)
    then show "match_key m \<in> active_keys a'" by (force simp: active_keys_def)
  qed
qed

section \<open>Every history\<close>

definition agent_inv :: "agent \<Rightarrow> bool" where
  "agent_inv a \<longleftrightarrow> agent_ok a \<and> (ag_dirty a \<or> agent_complete a) \<and> ag_match_cb a \<and> ag_unmatch_cb a \<and>
     ag_pid a \<notin> fst ` set (ag_remotes a)"

lemma agent_step_inv:
  assumes "agent_step op a = (evs, a')" "agent_inv a"
  shows "agent_inv a' \<and> replay evs (active_map a) = Some (active_map a')"
proof -
  from assms(2) have ok: "agent_ok a" and c: "ag_dirty a \<or> agent_complete a" and cb: "ag_match_cb a" "ag_unmatch_cb a"
    and pid: "ag_pid a \<notin> fst ` set (ag_remotes a)" by (auto simp: agent_inv_def)
  show ?thesis
  proof (cases op)
    case (AddEndpoint k t ty rel resp)
    with assms(1) have a': "evs = []" "a' = add_endpoint k t ty rel resp a" by simp_all
    then have "agent_ok a'" using ok by (auto simp: agent_ok_def match_known_def add_endpoint_def)
    with a' cb pid show ?thesis by (simp add: agent_inv_def add_endpoint_def active_keys_def active_map_def)
  next
    case (SetTiming i l)
    with assms(1) have "evs = []" "a' = set_timing i l a" by simp_all
    with ok c cb pid show ?thesis
      by (simp add: agent_inv_def agent_ok_def match_known_def agent_complete_def set_timing_def active_keys_def active_map_def)
  next
    case (Announced now ann)
    with assms(1) have h: "handle_announcement now ann a = (evs, a')" by simp
    note s = handle_announcement_spec [OF h ok]
    from s(4) obtain rs x where "a' = a\<lparr>ag_remotes := rs, ag_active := x\<rparr>" by blast
    then have "ag_dirty a' = ag_dirty a" "ag_match_cb a' = ag_match_cb a" "ag_unmatch_cb a' = ag_unmatch_cb a"
      "ag_pid a' = ag_pid a" by simp_all
    with s cb c pid show ?thesis by (auto simp: agent_inv_def)
  next
    case Rematch
    with assms(1) have "rematch_if_dirty a = (evs, a')" by simp
    note s = rematch_spec [OF this ok c]
    then obtain x where "a' = a\<lparr>ag_dirty := False, ag_active := x\<rparr>" by blast
    then have "ag_match_cb a' = ag_match_cb a" "ag_unmatch_cb a' = ag_unmatch_cb a"
      "ag_pid a' = ag_pid a" "ag_remotes a' = ag_remotes a" by simp_all
    with s cb pid show ?thesis by (simp add: agent_inv_def)
  next
    case (Sent now)
    with assms(1) have "evs = []" "a' = a\<lparr>ag_last_announce := now\<rparr>" by simp_all
    with ok c cb pid show ?thesis
      by (simp add: agent_inv_def agent_ok_def match_known_def agent_complete_def active_keys_def active_map_def)
  next
    case (Reap now)
    with assms(1) have r: "reap_dead now a = (evs, a')" by simp
    note s = reap_dead_spec [OF r ok]
    from s(1) have "ag_dirty a' = ag_dirty a" "ag_match_cb a' = ag_match_cb a" "ag_unmatch_cb a' = ag_unmatch_cb a"
      "ag_pid a' = ag_pid a" "set (ag_remotes a') \<subseteq> set (ag_remotes a)" by auto
    with s(2,3,4) cb c pid show ?thesis by (auto simp: agent_inv_def)
  qed
qed

lemma run_agent_inv:
  assumes "run_agent ops a = (evs, a')" "agent_inv a"
  shows "agent_inv a' \<and> replay evs (active_map a) = Some (active_map a')"
  using assms
proof (induction ops arbitrary: a evs)
  case (Cons op ops)
  obtain e1 a1 where s: "agent_step op a = (e1, a1)" by (cases "agent_step op a")
  with Cons.prems obtain e2 where r: "run_agent ops a1 = (e2, a')" "evs = e1 @ e2" by (auto split: prod.splits)
  from agent_step_inv [OF s Cons.prems(2)] Cons.IH [OF r(1)] r(2) show ?case by (simp add: replay_append)
qed simp

lemma node_agent_inv: "agent_inv (node_agent n l p)" "active_map (node_agent n l p) = Map.empty"
  by (simp_all add: agent_inv_def node_agent_def on_match_def on_unmatch_def new_agent_def agent_ok_def
      agent_complete_def active_keys_def active_map_def)


section \<open>Properties\<close>

text \<open>
  C11: In every history of an agent set up by a node, the callbacks are consistent: no match is reported twice
  without being withdrawn, no match is withdrawn that was not reported, and what a listener that
  follows the callbacks holds is exactly what the agent remembers.
\<close>

theorem callbacks_consistent:
  assumes "run_agent ops (node_agent n l p) = (evs, a)"
  shows "replay evs Map.empty = Some (active_map a)"
  using run_agent_inv [OF assms node_agent_inv(1)] node_agent_inv(2) by simp

definition pub_x :: endpoint_info where
  "pub_x = \<lparr>ep_kind = PUBLISHER, ep_topic = ''x'', ep_type = ''T'', ep_reliability = 0, ep_response = []\<rparr>"

definition sub_x :: endpoint_info where
  "sub_x = \<lparr>ep_kind = SUBSCRIBER, ep_topic = ''x'', ep_type = ''T'', ep_reliability = 0, ep_response = []\<rparr>"

definition here :: locator where
  "here = \<lparr>loc_ip = ''127.0.0.1'', loc_port = 9\<rparr>"

definition ann_x :: announcement where
  "ann_x = \<lparr>an_pid = 7, an_node = ''n'', an_locator = here, an_endpoints = [sub_x], an_host = ''h''\<rparr>"

definition match_x :: match_info where
  "match_x = \<lparr>mi_local = pub_x, mi_remote = sub_x, mi_locator = here, mi_pid = 7, mi_host = ''h''\<rparr>"

definition ops_x :: "agent_op list" where
  "ops_x = [AddEndpoint PUBLISHER ''x'' ''T'' 0 [], Rematch, Announced 0 ann_x, Announced 10 ann_x, Reap 6000]"

definition after_x :: "nat \<Rightarrow> agent" where
  "after_x k = snd (run_agent (take k ops_x) (node_agent ''m'' here 1))"

lemmas x_defs = ops_x_def node_agent_def on_match_def on_unmatch_def new_agent_def add_endpoint_def rematch_if_dirty_def
  rematch_all_def handle_announcement_def try_match_def match_endpoints_def List.map_filter_def match_pair_def
  pubsub_pair_def rpc_pair_def compatible_def rel_of_def ann_x_def sub_x_def pub_x_def here_def match_x_def
  reap_dead_def is_dead_def Let_def

lemma run_x: "fst (run_agent ops_x (node_agent ''m'' here 1)) = [OnMatch match_x, OnUnmatch match_x]"
  by (simp add: x_defs)

theorem callbacks_consistent_witness:
  "\<exists>a. run_agent ops_x (node_agent ''m'' here 1) = ([OnMatch match_x, OnUnmatch match_x], a) \<and>
     replay [OnMatch match_x, OnUnmatch match_x] Map.empty = Some (active_map a)"
proof -
  obtain a where a: "run_agent ops_x (node_agent ''m'' here 1) = ([OnMatch match_x, OnUnmatch match_x], a)"
    using run_x by (metis prod.collapse)
  from callbacks_consistent [OF a] a show ?thesis by blast
qed

text \<open>
  C19: No match is missed. In every history, once the background thread has taken up the newest local endpoints
  (the dirty flag is down), every pair of a local endpoint and an endpoint of a known participant that
  match has been reported and is remembered.
\<close>

theorem no_match_missed:
  assumes "run_agent ops (node_agent n l p) = (evs, a)" "\<not> ag_dirty a"
    and "(i, r) \<in> set (ag_remotes a)" "le \<in> set (ag_endpoints a)" "re \<in> set (rp_endpoints r)"
    and "match_pair i (rp_locator r) le re = Some m"
  shows "match_key m \<in> active_keys a"
proof -
  have "agent_inv a" using run_agent_inv [OF assms(1) node_agent_inv(1)] by blast
  with assms(2) have "agent_complete a" by (simp add: agent_inv_def)
  moreover have "m \<in> set (match_endpoints (ag_endpoints a) i (rp_locator r) (rp_endpoints r))"
    using assms(4-6) by (auto simp: set_match_endpoints)
  ultimately show ?thesis using assms(3) by (fastforce simp: agent_complete_def)
qed

theorem no_match_missed_witness:
  "\<not> ag_dirty (after_x 4) \<and> match_key (match_x\<lparr>mi_host := []\<rparr>) \<in> active_keys (after_x 4)"
proof -
  obtain evs where r: "run_agent (take 4 ops_x) (node_agent ''m'' here 1) = (evs, after_x 4)"
    unfolding after_x_def by (metis prod.collapse)
  have "\<not> ag_dirty (after_x 4)" "ag_endpoints (after_x 4) = [pub_x]"
    "ag_remotes (after_x 4) = [(7, \<lparr>rp_node = ''n'', rp_endpoints = [sub_x], rp_locator = here, rp_host = ''h'', rp_last_seen = 10\<rparr>)]"
    by (simp_all add: after_x_def x_defs)
  with no_match_missed [OF r, of 7 _ pub_x sub_x "match_x\<lparr>mi_host := []\<rparr>"] show ?thesis
    by (simp add: x_defs)
qed

text \<open>
  Every remembered match is a match: it joins an endpoint of this node with an endpoint of another known
  participant, on the same topic and type, as publisher and subscriber or as service and
  client, and a reliable reader only with a reliable writer.
\<close>

theorem matches_are_sound:
  assumes "run_agent ops (node_agent n l p) = (evs, a)" "(k, m) \<in> set (ag_active a)"
  shows "k = match_key m \<and> mi_local m \<in> set (ag_endpoints a) \<and> mi_pid m \<in> fst ` set (ag_remotes a) \<and>
    mi_pid m \<noteq> ag_pid a \<and> (pubsub_pair (mi_local m) (mi_remote m) \<or> rpc_pair (mi_local m) (mi_remote m)) \<and>
    ep_topic (mi_local m) = ep_topic (mi_remote m) \<and> ep_type (mi_local m) = ep_type (mi_remote m) \<and>
    (writes (mi_local m) \<and> (rel_of (mi_remote m) = RELIABLE \<longrightarrow> rel_of (mi_local m) = RELIABLE) \<or>
     \<not> writes (mi_local m) \<and> (rel_of (mi_local m) = RELIABLE \<longrightarrow> rel_of (mi_remote m) = RELIABLE))"
proof -
  have i: "agent_inv a" using run_agent_inv [OF assms(1) node_agent_inv(1)] by blast
  with assms(2) have "match_known a k m" by (auto simp: agent_inv_def agent_ok_def)
  moreover from this i have "mi_pid m \<noteq> ag_pid a" by (metis agent_inv_def match_known_def)
  ultimately show ?thesis unfolding match_known_def match_pair_Some by blast
qed

theorem matches_are_sound_witness:
  "(match_key match_x, match_x) \<in> set (ag_active (after_x 4)) \<and>
   mi_local match_x \<in> set (ag_endpoints (after_x 4)) \<and> mi_pid match_x \<noteq> ag_pid (after_x 4)"
proof -
  obtain evs where r: "run_agent (take 4 ops_x) (node_agent ''m'' here 1) = (evs, after_x 4)"
    unfolding after_x_def by (metis prod.collapse)
  have "(match_key match_x, match_x) \<in> set (ag_active (after_x 4))"
    by (simp add: after_x_def x_defs match_key_def)
  with matches_are_sound [OF r this] show ?thesis by blast
qed

text \<open>
  C27: Liveness. In every history, reaping withdraws exactly the matches of the participants that have been
  silent for longer than the timeout, reports each of them, and forgets these participants only.
\<close>

theorem reap_withdraws_silent:
  assumes "run_agent ops (node_agent n l p) = (evs, a)" "reap_dead now a = (evs', a')"
  shows "set evs' = {OnUnmatch m |k m. (k, m) \<in> set (ag_active a) \<and>
      (\<exists>r. (mi_pid m, r) \<in> set (ag_remotes a) \<and> now - rp_last_seen r > ag_timeout a)} \<and>
    set (ag_remotes a') = {(i, r). (i, r) \<in> set (ag_remotes a) \<and> \<not> now - rp_last_seen r > ag_timeout a} \<and>
    (\<forall>k m. (k, m) \<in> set (ag_active a') \<longleftrightarrow> (k, m) \<in> set (ag_active a) \<and> OnUnmatch m \<notin> set evs')"
proof -
  have i: "agent_ok a" "ag_unmatch_cb a"
    using run_agent_inv [OF assms(1) node_agent_inv(1)] by (auto simp: agent_inv_def)
  note s = reap_dead_spec [OF assms(2) i(1)]
  from s(5) [OF i(2)] have e: "set evs' = {OnUnmatch m |k m. (k, m) \<in> set (ag_active a) \<and>
      (\<exists>r. (mi_pid m, r) \<in> set (ag_remotes a) \<and> now - rp_last_seen r > ag_timeout a)}"
    by (simp add: is_dead_def)
  moreover have "set (ag_remotes a') = {(i, r). (i, r) \<in> set (ag_remotes a) \<and> \<not> now - rp_last_seen r > ag_timeout a}"
    unfolding s(1) by (auto simp: is_dead_def)
  moreover have "(k, m) \<in> set (ag_active a') \<longleftrightarrow> (k, m) \<in> set (ag_active a) \<and> OnUnmatch m \<notin> set evs'" for k m
    unfolding e s(1) by (auto simp: is_dead_def)
  ultimately show ?thesis by blast
qed

theorem reap_withdraws_silent_witness:
  "\<exists>a'. reap_dead 6000 (after_x 4) = ([OnUnmatch match_x], a') \<and> ag_active a' = [] \<and>
     (\<forall>k m. (k, m) \<in> set (ag_active a') \<longleftrightarrow> (k, m) \<in> set (ag_active (after_x 4)) \<and> OnUnmatch m \<notin> set [OnUnmatch match_x])"
proof -
  obtain evs where r: "run_agent (take 4 ops_x) (node_agent ''m'' here 1) = (evs, after_x 4)"
    unfolding after_x_def by (metis prod.collapse)
  obtain a' where e: "reap_dead 6000 (after_x 4) = ([OnUnmatch match_x], a')" "ag_active a' = []"
    by (simp add: after_x_def x_defs)
  from reap_withdraws_silent [OF r e(1)] have "\<forall>k m. (k, m) \<in> set (ag_active a') \<longleftrightarrow>
    (k, m) \<in> set (ag_active (after_x 4)) \<and> OnUnmatch m \<notin> set [OnUnmatch match_x]" by blast
  with e show ?thesis by blast
qed

text \<open>
  The two sides agree: if an agent finds that its endpoint matches one of a remote participant, the remote
  agent, looking at the same two endpoints, finds it too.
\<close>

theorem matching_is_symmetric:
  "(match_pair i l le re = None) = (match_pair j l' re le = None)"
  unfolding match_pair_def pubsub_pair_def rpc_pair_def compatible_iff
  by (cases "ep_kind le"; cases "ep_kind re") auto

text \<open>
  The key under which matches are remembered leaves out type and reliability: when a participant announces
  a best-effort and a reliable subscriber of the same topic, a reliable publisher reports a match for
  the best-effort one only.
\<close>

theorem reliable_reader_shadowed:
  assumes "sm_find (ag_active a) (match_key \<lparr>mi_local = w, mi_remote = b, mi_locator = l, mi_pid = i, mi_host = h\<rparr>) = None"
    and "ag_endpoints a = [w]" "ag_match_cb a" "i \<noteq> ag_pid a"
    and "ep_kind w = PUBLISHER" "rel_of w = RELIABLE" "ep_kind b = SUBSCRIBER" "rel_of b = BEST_EFFORT"
    and "ep_topic b = ep_topic w" "ep_type b = ep_type w"
    and "c = b\<lparr>ep_reliability := 1\<rparr>"
  shows "fst (handle_announcement now \<lparr>an_pid = i, an_node = n, an_locator = l, an_endpoints = [b, c], an_host = h\<rparr> a)
      = [OnMatch \<lparr>mi_local = w, mi_remote = b, mi_locator = l, mi_pid = i, mi_host = h\<rparr>]"
proof -
  have m: "match_pair i l w b = Some \<lparr>mi_local = w, mi_remote = b, mi_locator = l, mi_pid = i, mi_host = []\<rparr>"
    "match_pair i l w c = Some \<lparr>mi_local = w, mi_remote = c, mi_locator = l, mi_pid = i, mi_host = []\<rparr>"
    using assms by (simp_all add: match_pair_def pubsub_pair_def rpc_pair_def compatible_iff)
  have k: "match_key \<lparr>mi_local = w, mi_remote = c, mi_locator = l, mi_pid = i, mi_host = h\<rparr> =
    match_key \<lparr>mi_local = w, mi_remote = b, mi_locator = l, mi_pid = i, mi_host = h\<rparr>"
    by (simp add: match_key_def assms(11))
  show ?thesis using assms(1-4) k
    by (simp add: handle_announcement_def try_match_def match_endpoints_def List.map_filter_def m Let_def map_of_sm_put)
qed

theorem reliable_reader_shadowed_witness:
  "fst (handle_announcement 0
      \<lparr>an_pid = 7, an_node = ''n'', an_locator = here, an_endpoints = [sub_x, sub_x\<lparr>ep_reliability := 1\<rparr>], an_host = ''h''\<rparr>
      ((node_agent ''m'' here 1)\<lparr>ag_endpoints := [pub_x\<lparr>ep_reliability := 1\<rparr>]\<rparr>))
    = [OnMatch \<lparr>mi_local = pub_x\<lparr>ep_reliability := 1\<rparr>, mi_remote = sub_x, mi_locator = here, mi_pid = 7, mi_host = ''h''\<rparr>]"
  by (rule reliable_reader_shadowed)
    (simp_all add: node_agent_def on_match_def on_unmatch_def new_agent_def pub_x_def sub_x_def rel_of_def)

end
