(* ===== verification/Shm_Ring.thy ===== *)
theory Shm_Ring
  imports MM_Prelude
begin

text \<open>
  The single-writer, multi-reader ring of transport/include/transport/shm_ring.h, one call at a time:
  the memory layout, \<open>init\<close>, \<open>attach\<close>, \<open>write\<close> and \<open>read\<close>. The steps of a writer and of
  readers that run at the same time are in the theory \<open>Shm_Concurrent\<close>.

  A segment's memory is a record: the header fields and the slots, each slot with its
  sequence word, its length word and its \<open>slot_size\<close> payload bytes. The copies of
  \<open>slot_count\<close> and \<open>slot_size\<close> that a view keeps are the header's values, which no operation
  changes after \<open>init\<close>.
\<close>

section \<open>Constants and layout\<close>

definition kMagic :: u32 where
  "kMagic = 0x4D4D5247"

definition kCacheLine :: u64 where
  "kCacheLine = 64"

definition kWritingBit :: u64 where
  "kWritingBit = push_bit 63 1"

definition align_up :: "u64 \<Rightarrow> u64 \<Rightarrow> u64" where
  "align_up n a = (n + a - 1) AND NOT (a - 1)"

text \<open>\<open>sizeof(Header)\<close> is 24 and \<open>sizeof(SlotHeader)\<close> is 16 on the x86-64 target.\<close>

definition header_bytes :: u64 where
  "header_bytes = align_up 24 kCacheLine"

definition slot_stride :: "u32 \<Rightarrow> u64" where
  "slot_stride slot_size = align_up (16 + ucast slot_size) kCacheLine"

definition bytes_needed :: "u32 \<Rightarrow> u32 \<Rightarrow> u64" where
  "bytes_needed slot_count slot_size = header_bytes + ucast slot_count * slot_stride slot_size"

definition slot_offset :: "u32 \<Rightarrow> u32 \<Rightarrow> u64" where
  "slot_offset slot_size i = header_bytes + ucast i * slot_stride slot_size"

section \<open>Memory\<close>

record shm_slot =
  sl_seq :: u64
  sl_len :: u32
  sl_data :: bytes

record shm_ring =
  rg_magic :: u32
  rg_slot_count :: u32
  rg_slot_size :: u32
  rg_write_seq :: u64
  rg_slots :: "shm_slot list"

text \<open>\<open>old i j\<close> is the byte that was at payload position \<open>j\<close> of slot \<open>i\<close> before; \<open>init\<close> leaves it.\<close>

definition ring_init :: "(nat \<Rightarrow> nat \<Rightarrow> char) \<Rightarrow> u32 \<Rightarrow> u32 \<Rightarrow> shm_ring" where
  "ring_init old slot_count slot_size =
     \<lparr>rg_magic = kMagic, rg_slot_count = slot_count, rg_slot_size = slot_size, rg_write_seq = 0,
      rg_slots = map (\<lambda>i. \<lparr>sl_seq = kWritingBit, sl_len = 0, sl_data = map (old i) [0..<unat slot_size]\<rparr>)
                   [0..<unat slot_count]\<rparr>"

definition ring_attach :: "shm_ring \<Rightarrow> shm_ring option" where
  "ring_attach r = (if rg_magic r \<noteq> kMagic then None else Some r)"

definition slot_index :: "shm_ring \<Rightarrow> u64 \<Rightarrow> nat" where
  "slot_index r pos = unat ((ucast pos :: u32) AND (rg_slot_count r - 1))"

definition slot_at :: "shm_ring \<Rightarrow> u64 \<Rightarrow> shm_slot" where
  "slot_at r pos = rg_slots r ! slot_index r pos"

definition map_slot :: "u64 \<Rightarrow> (shm_slot \<Rightarrow> shm_slot) \<Rightarrow> shm_ring \<Rightarrow> shm_ring" where
  "map_slot pos f r = r\<lparr>rg_slots := (rg_slots r)[slot_index r pos := f (slot_at r pos)]\<rparr>"

section \<open>The stores of a write\<close>

definition claim_pos :: "shm_ring \<Rightarrow> u64 \<times> shm_ring" where
  "claim_pos r = (rg_write_seq r, r\<lparr>rg_write_seq := rg_write_seq r + 1\<rparr>)"

definition mark_writing :: "u64 \<Rightarrow> shm_ring \<Rightarrow> shm_ring" where
  "mark_writing pos = map_slot pos (\<lambda>s. s\<lparr>sl_seq := pos OR kWritingBit\<rparr>)"

definition store_len :: "u64 \<Rightarrow> u32 \<Rightarrow> shm_ring \<Rightarrow> shm_ring" where
  "store_len pos len = map_slot pos (\<lambda>s. s\<lparr>sl_len := len\<rparr>)"

definition store_byte :: "u64 \<Rightarrow> nat \<Rightarrow> char \<Rightarrow> shm_ring \<Rightarrow> shm_ring" where
  "store_byte pos j b = map_slot pos (\<lambda>s. s\<lparr>sl_data := (sl_data s)[j := b]\<rparr>)"

definition store_data :: "u64 \<Rightarrow> bytes \<Rightarrow> shm_ring \<Rightarrow> shm_ring" where
  "store_data pos bs = map_slot pos (\<lambda>s. s\<lparr>sl_data := bs @ drop (length bs) (sl_data s)\<rparr>)"

definition publish_pos :: "u64 \<Rightarrow> shm_ring \<Rightarrow> shm_ring" where
  "publish_pos pos = map_slot pos (\<lambda>s. s\<lparr>sl_seq := pos\<rparr>)"

text \<open>\<open>write(const void*, uint32_t)\<close>, and the overload on strings, which narrows the size.\<close>

definition ring_write_raw :: "shm_ring \<Rightarrow> bytes \<Rightarrow> u32 \<Rightarrow> bool \<times> shm_ring" where
  "ring_write_raw r src len =
     (if len > rg_slot_size r then (False, r)
      else
        (let (pos, r) = claim_pos r;
             r = mark_writing pos r;
             r = store_len pos len r;
             r = store_data pos (take (unat len) src) r
         in (True, publish_pos pos r)))"

definition ring_write :: "shm_ring \<Rightarrow> bytes \<Rightarrow> bool \<times> shm_ring" where
  "ring_write r bs = ring_write_raw r bs (of_nat (length bs))"

section \<open>Reading\<close>

record ring_reader =
  rd_valid :: bool
  rd_next :: u64
  rd_dropped :: u64

definition make_reader :: "shm_ring option \<Rightarrow> ring_reader" where
  "make_reader v =
     (case v of
        None \<Rightarrow> \<lparr>rd_valid = False, rd_next = 0, rd_dropped = 0\<rparr>
      | Some r \<Rightarrow> \<lparr>rd_valid = True, rd_next = rg_write_seq r, rd_dropped = 0\<rparr>)"

definition skip_one :: "ring_reader \<Rightarrow> ring_reader" where
  "skip_one rd = rd\<lparr>rd_dropped := rd_dropped rd + 1, rd_next := rd_next rd + 1\<rparr>"

text \<open>A reader more than a ring behind \<open>w\<close> moves on to position \<open>w - n + 1\<close>.\<close>

definition fast_forward :: "u64 \<Rightarrow> u32 \<Rightarrow> ring_reader \<Rightarrow> ring_reader" where
  "fast_forward w n rd =
     (if w - rd_next rd > ucast n then
        (let target = w - ucast n + 1
         in rd\<lparr>rd_dropped := rd_dropped rd + (target - rd_next rd), rd_next := target\<rparr>)
      else rd)"

datatype iteration = Again ring_reader | Return "bytes option" ring_reader

text \<open>One pass through the body of the \<open>for (;;)\<close> loop of \<open>read\<close>.\<close>

definition read_iteration :: "shm_ring \<Rightarrow> ring_reader \<Rightarrow> iteration" where
  "read_iteration r rd =
     (let w = rg_write_seq r in
      if rd_next rd \<ge> w then Return None rd
      else
        (let rd = fast_forward w (rg_slot_count r) rd;
             s = slot_at r (rd_next rd);
             s1 = sl_seq s
         in if s1 AND NOT kWritingBit \<noteq> rd_next rd then Again (skip_one rd)
            else if s1 AND kWritingBit \<noteq> 0 then Return None rd
            else if sl_len s > rg_slot_size r then Again (skip_one rd)
            else
              (let out = take (unat (sl_len s)) (sl_data s); s2 = sl_seq s in
               if s2 \<noteq> rd_next rd then Again (skip_one rd)
               else Return (Some out) (rd\<lparr>rd_next := rd_next rd + 1\<rparr>))))"

partial_function (option) read_loop :: "shm_ring \<Rightarrow> ring_reader \<Rightarrow> (bytes option \<times> ring_reader) option" where
  "read_loop r rd =
     (case read_iteration r rd of Again rd' \<Rightarrow> read_loop r rd' | Return out rd' \<Rightarrow> Some (out, rd'))"

definition ring_read :: "shm_ring \<Rightarrow> ring_reader \<Rightarrow> (bytes option \<times> ring_reader) option" where
  "ring_read r rd = (if \<not> rd_valid rd then Some (None, rd) else read_loop r rd)"

text \<open>
  Reading a ring until it is empty, at most \<open>k\<close> times (the inner loop of
  \<open>ShmReaderManager::poll_once\<close>): the messages read and the cursor.
\<close>

fun drain :: "('r \<Rightarrow> 'c \<Rightarrow> (bytes option \<times> 'c) option) \<Rightarrow> 'r \<Rightarrow> 'c \<Rightarrow> nat \<Rightarrow> (bytes list \<times> 'c) option" where
  "drain get r c 0 = Some ([], c)"
| "drain get r c (Suc k) =
     (case get r c of
        None \<Rightarrow> None
      | Some (None, c') \<Rightarrow> Some ([], c')
      | Some (Some m, c') \<Rightarrow> map_option (\<lambda>(ms, c''). (m # ms, c'')) (drain get r c' k))"

fun put_all :: "('r \<Rightarrow> bytes \<Rightarrow> bool \<times> 'r) \<Rightarrow> 'r \<Rightarrow> bytes list \<Rightarrow> 'r" where
  "put_all put r [] = r"
| "put_all put r (m # ms) = put_all put (snd (put r m)) ms"

section \<open>What a quiescent ring holds\<close>

text \<open>
  Positions below \<open>pos_limit\<close> leave the writing bit clear. At one write per nanosecond the
  limit is reached after 292 years.
\<close>

definition pos_limit :: nat where
  "pos_limit = 2 ^ 63"

text \<open>
  \<open>slot_holds s i h m\<close>: slot number \<open>i\<close> of a ring of \<open>m\<close> slots holds the latest of the
  messages \<open>h\<close> whose position falls on it, or is as \<open>init\<close> left it when there is none.
\<close>

definition slot_holds :: "shm_slot \<Rightarrow> nat \<Rightarrow> bytes list \<Rightarrow> nat \<Rightarrow> bool" where
  "slot_holds s i h m \<longleftrightarrow>
     sl_seq s = kWritingBit \<and> length h \<le> i \<or>
     (\<exists>p. p < length h \<and> p mod m = i \<and> length h \<le> p + m \<and> sl_seq s = of_nat p \<and>
          sl_len s = of_nat (length (h ! p)) \<and> take (length (h ! p)) (sl_data s) = h ! p)"

text \<open>The geometry: a power of two of slots, each with room for \<open>slot_size\<close> bytes.\<close>

definition ring_geometry :: "shm_ring \<Rightarrow> bool" where
  "ring_geometry r \<longleftrightarrow>
     (\<exists>k < 32. unat (rg_slot_count r) = 2 ^ k) \<and> length (rg_slots r) = unat (rg_slot_count r) \<and>
     (\<forall>s \<in> set (rg_slots r). length (sl_data s) = unat (rg_slot_size r))"

definition ring_holds :: "shm_ring \<Rightarrow> bytes list \<Rightarrow> bool" where
  "ring_holds r h \<longleftrightarrow> ring_geometry r \<and> length h < pos_limit \<and> rg_write_seq r = of_nat (length h) \<and>
     (\<forall>m \<in> set h. length m \<le> unat (rg_slot_size r)) \<and>
     (\<forall>i < unat (rg_slot_count r). slot_holds (rg_slots r ! i) i h (unat (rg_slot_count r)))"

section \<open>Words\<close>

lemma bit_kWritingBit [simp]: "bit kWritingBit n \<longleftrightarrow> n = 63"
  unfolding kWritingBit_def bit_push_bit_iff by (auto simp: bit_1_iff)

lemma pos_bit63: "p < pos_limit \<Longrightarrow> \<not> bit p 63"
  by (simp add: bit_iff_odd pos_limit_def)

lemma pos_clear [simp]: "p < pos_limit \<Longrightarrow> (of_nat p :: u64) AND NOT kWritingBit = of_nat p"
  by (rule bit_word_eqI) (auto simp: bit_simps pos_bit63)

lemma pos_no_bit [simp]: "p < pos_limit \<Longrightarrow> (of_nat p :: u64) AND kWritingBit = 0"
  by (rule bit_word_eqI) (auto simp: bit_simps pos_bit63)

lemma marked_clear [simp]:
  "p < pos_limit \<Longrightarrow> (of_nat p OR kWritingBit :: u64) AND NOT kWritingBit = of_nat p"
  by (rule bit_word_eqI) (auto simp: bit_simps pos_bit63)

lemma marked_bit [simp]: "(x OR kWritingBit :: u64) AND kWritingBit = kWritingBit"
  by (rule bit_word_eqI) (auto simp: bit_simps)

lemma sentinel_clear [simp]: "kWritingBit AND NOT kWritingBit = 0"
  by (rule bit_word_eqI) (simp add: bit_simps)

lemma kWritingBit_nonzero [simp]: "kWritingBit \<noteq> 0" "0 \<noteq> kWritingBit"
  using bit_kWritingBit [of 63] by (auto simp del: bit_kWritingBit)

lemma marked_not_pos [simp]: "p < pos_limit \<Longrightarrow> (x OR kWritingBit :: u64) \<noteq> of_nat p"
  using marked_bit [of x] by (metis kWritingBit_nonzero(1) pos_no_bit)

lemma sentinel_not_pos [simp]: "p < pos_limit \<Longrightarrow> kWritingBit \<noteq> of_nat p"
  by (metis kWritingBit_nonzero(1) and.idem pos_no_bit)

lemma unat_pos [simp]: "p < pos_limit \<Longrightarrow> unat (of_nat p :: u64) = p"
  by (simp add: pos_limit_def unat_of_nat)

lemma pos_inject [simp]: "p < pos_limit \<Longrightarrow> q < pos_limit \<Longrightarrow> (of_nat p :: u64) = of_nat q \<longleftrightarrow> p = q"
  by (metis unat_pos)

text \<open>Indexing with the mask \<open>slot_count - 1\<close> is indexing modulo the slot count.\<close>

lemma slot_index_mod:
  assumes "unat (rg_slot_count r) = 2 ^ k" "k < 32"
  shows "slot_index r pos = unat pos mod unat (rg_slot_count r)"
proof -
  have "rg_slot_count r = of_nat (unat (rg_slot_count r))" by simp
  also have "\<dots> = 2 ^ k" using assms(1) by simp
  finally have "slot_index r pos = unat (take_bit k (ucast pos :: u32))"
    by (simp add: slot_index_def take_bit_eq_mask mask_eq_exp_minus_1)
  also have "\<dots> = take_bit k (take_bit 32 (unat pos))"
    by (simp add: unsigned_take_bit_eq unsigned_ucast_eq)
  also have "\<dots> = take_bit k (unat pos)"
    using assms(2) by (simp add: min_def)
  also have "\<dots> = unat pos mod 2 ^ k" by (rule take_bit_eq_mod)
  finally show ?thesis using assms(1) by simp
qed

section \<open>Geometry\<close>

lemma slot_index_eq: "ring_geometry r \<Longrightarrow> slot_index r pos = unat pos mod unat (rg_slot_count r)"
  by (auto simp: ring_geometry_def slot_index_mod)

lemma slot_count_pos: "ring_geometry r \<Longrightarrow> 0 < unat (rg_slot_count r)"
  by (auto simp: ring_geometry_def)

lemma slot_index_less: "ring_geometry r \<Longrightarrow> slot_index r pos < length (rg_slots r)"
  by (metis mod_less_divisor ring_geometry_def slot_count_pos slot_index_eq)

lemma slot_at_mem: "ring_geometry r \<Longrightarrow> slot_at r pos \<in> set (rg_slots r)"
  by (simp add: slot_at_def slot_index_less)

lemma map_slot_simps [simp]:
  "rg_write_seq (map_slot pos f r) = rg_write_seq r"
  "rg_slot_count (map_slot pos f r) = rg_slot_count r"
  "rg_slot_size (map_slot pos f r) = rg_slot_size r"
  "rg_magic (map_slot pos f r) = rg_magic r"
  "slot_index (map_slot pos f r) = slot_index r"
  "length (rg_slots (map_slot pos f r)) = length (rg_slots r)"
  by (simp_all add: map_slot_def slot_index_def fun_eq_iff)

lemma slot_at_map_slot:
  "ring_geometry r \<Longrightarrow>
   slot_at (map_slot pos f r) q = (if slot_index r q = slot_index r pos then f (slot_at r pos) else slot_at r q)"
  by (auto simp: slot_at_def map_slot_def slot_index_def slot_index_less [unfolded slot_index_def])

lemma map_slot_twice: "ring_geometry r \<Longrightarrow> map_slot pos f (map_slot pos g r) = map_slot pos (f \<circ> g) r"
  by (simp add: map_slot_def slot_at_def slot_index_def slot_index_less [unfolded slot_index_def])

lemma geometry_map_slot:
  assumes "ring_geometry r" "length (sl_data (f (slot_at r pos))) = length (sl_data (slot_at r pos))"
  shows "ring_geometry (map_slot pos f r)"
  using assms slot_at_mem [OF assms(1), of pos] set_update_subset_insert
  by (auto simp: ring_geometry_def map_slot_def dest!: subsetD [OF set_update_subset_insert])

lemma claim_pos_eq: "claim_pos r = (rg_write_seq r, r\<lparr>rg_write_seq := rg_write_seq r + 1\<rparr>)"
  by (simp add: claim_pos_def)

lemma geometry_write_seq [simp]: "ring_geometry (r\<lparr>rg_write_seq := w\<rparr>) = ring_geometry r"
  by (simp add: ring_geometry_def)

lemma slot_index_write_seq [simp]: "slot_index (r\<lparr>rg_write_seq := w\<rparr>) = slot_index r"
  by (simp add: slot_index_def fun_eq_iff)

lemma slot_at_write_seq [simp]: "slot_at (r\<lparr>rg_write_seq := w\<rparr>) = slot_at r"
  by (simp add: slot_at_def fun_eq_iff)

lemmas store_defs = mark_writing_def store_len_def store_byte_def store_data_def publish_pos_def

lemma small_message:
  assumes "length m \<le> unat (rg_slot_size r)"
  shows "unat (of_nat (length m) :: u32) = length m"
proof -
  have "unat (rg_slot_size r) < 2 ^ 32" using unat_bound [of "rg_slot_size r"] by simp
  with assms show ?thesis by (intro unat_of_nat_small) simp
qed

text \<open>The net effect of one uninterrupted \<open>write\<close>.\<close>

lemma ring_write_eq:
  assumes "ring_geometry r" "length m \<le> unat (rg_slot_size r)"
  shows "ring_write r m =
    (True, map_slot (rg_write_seq r)
             (\<lambda>s. s\<lparr>sl_len := of_nat (length m), sl_data := m @ drop (length m) (sl_data s),
                    sl_seq := rg_write_seq r\<rparr>)
             (r\<lparr>rg_write_seq := rg_write_seq r + 1\<rparr>))"
proof -
  have "\<not> of_nat (length m) > rg_slot_size r"
    using assms(2) by (simp add: word_less_nat_alt small_message)
  with assms show ?thesis
    by (simp add: ring_write_def ring_write_raw_def claim_pos_def store_defs map_slot_twice
        small_message geometry_map_slot comp_def)
qed

section \<open>Writing\<close>

lemma slot_holds_other:
  assumes "slot_holds s i h n" "i < n" "i \<noteq> length h mod n"
  shows "slot_holds s i (h @ [m]) n"
proof -
  consider "sl_seq s = kWritingBit" "length h \<le> i"
    | p where "p < length h" "p mod n = i" "length h \<le> p + n" "sl_seq s = of_nat p"
      "sl_len s = of_nat (length (h ! p))" "take (length (h ! p)) (sl_data s) = h ! p"
    using assms(1) by (auto simp: slot_holds_def)
  then show ?thesis
  proof cases
    case 1
    with assms(2,3) have "length h \<noteq> i" by auto
    with 1 show ?thesis by (simp add: slot_holds_def)
  next
    case (2 p)
    with assms(3) have "length h \<noteq> p + n" by auto
    with 2 show ?thesis unfolding slot_holds_def
      by (intro disjI2 exI [of _ p]) (simp add: nth_append)
  qed
qed

lemma ring_write_holds:
  assumes "ring_holds r h" "length m \<le> unat (rg_slot_size r)" "Suc (length h) < pos_limit"
  shows "\<exists>r'. ring_write r m = (True, r') \<and> ring_holds r' (h @ [m])
            \<and> rg_slot_count r' = rg_slot_count r \<and> rg_slot_size r' = rg_slot_size r"
proof -
  from assms(1) have g: "ring_geometry r" and w: "rg_write_seq r = of_nat (length h)"
    by (simp_all add: ring_holds_def)
  let ?n = "unat (rg_slot_count r)"
  let ?f = "\<lambda>s. s\<lparr>sl_len := of_nat (length m), sl_data := m @ drop (length m) (sl_data s),
                 sl_seq := rg_write_seq r\<rparr>"
  define r' where "r' = map_slot (rg_write_seq r) ?f (r\<lparr>rg_write_seq := rg_write_seq r + 1\<rparr>)"
  have dl: "length (sl_data (slot_at r pos)) = unat (rg_slot_size r)" for pos
    using g slot_at_mem [OF g] by (auto simp: ring_geometry_def)
  have idx: "slot_index r (rg_write_seq r) = length h mod ?n"
    using g w assms(3) by (simp add: slot_index_eq)
  have geo: "ring_geometry r'"
    unfolding r'_def using g dl assms(2) by (intro geometry_map_slot) simp_all
  have "slot_holds (rg_slots r' ! i) i (h @ [m]) ?n" if "i < ?n" for i
  proof (cases "i = length h mod ?n")
    case True
    with that g have "rg_slots r' ! i = ?f (slot_at r (rg_write_seq r))"
      by (simp add: r'_def map_slot_def idx ring_geometry_def)
    with True slot_count_pos [OF g] w show ?thesis
      unfolding slot_holds_def by (intro disjI2 exI [of _ "length h"]) simp
  next
    case False
    with that idx have "rg_slots r' ! i = rg_slots r ! i"
      by (simp add: r'_def map_slot_def)
    with that False assms(1) show ?thesis by (simp add: ring_holds_def slot_holds_other)
  qed
  with geo assms w have "ring_holds r' (h @ [m])"
    by (auto simp: ring_holds_def r'_def)
  with ring_write_eq [OF g assms(2)] show ?thesis by (auto simp: r'_def)
qed

lemma ring_init_holds:
  assumes "unat cnt = 2 ^ k" "k < 32"
  shows "ring_holds (ring_init old cnt sz) []"
  using assms by (auto simp: ring_holds_def ring_geometry_def ring_init_def slot_holds_def pos_limit_def)

section \<open>Reading a quiescent ring\<close>

lemma window_unique:
  assumes "(p::nat) mod n = q mod n" "p < l" "q < l" "l \<le> p + n" "l \<le> q + n"
  shows "p = q"
proof (rule ccontr)
  assume "p \<noteq> q"
  moreover have False if "a < b" "a mod n = b mod n" "b < l" "l \<le> a + n" for a b
  proof -
    from that(1,2) have "n dvd b - a" by (metis less_imp_le mod_eq_dvd_iff_nat)
    with that show False using dvd_imp_le [of n "b - a"] by simp
  qed
  ultimately show False using assms by (metis linorder_neqE_nat)
qed

lemma slot_holds_in_window:
  assumes "ring_holds r h" "p < length h" "length h \<le> p + unat (rg_slot_count r)"
  shows "sl_seq (slot_at r (of_nat p)) = of_nat p \<and>
         sl_len (slot_at r (of_nat p)) = of_nat (length (h ! p)) \<and>
         take (length (h ! p)) (sl_data (slot_at r (of_nat p))) = h ! p"
proof -
  let ?n = "unat (rg_slot_count r)"
  from assms have g: "ring_geometry r" and l: "p < pos_limit" by (auto simp: ring_holds_def)
  have i: "slot_at r (of_nat p) = rg_slots r ! (p mod ?n)"
    by (simp add: slot_at_def slot_index_eq [OF g] l)
  have lt: "p mod ?n < ?n" using slot_count_pos [OF g] by simp
  with assms(1) have "slot_holds (rg_slots r ! (p mod ?n)) (p mod ?n) h ?n"
    by (simp add: ring_holds_def)
  moreover have "\<not> length h \<le> p mod ?n" 
    using order.strict_trans1 [OF mod_less_eq_dividend assms(2)] by (simp add: not_le)
  ultimately obtain q where q: "q < length h" "q mod ?n = p mod ?n" "length h \<le> q + ?n"
    "sl_seq (slot_at r (of_nat p)) = of_nat q" "sl_len (slot_at r (of_nat p)) = of_nat (length (h ! q))"
    "take (length (h ! q)) (sl_data (slot_at r (of_nat p))) = h ! q"
    by (auto simp: slot_holds_def i)
  with window_unique [of q ?n p "length h"] assms have "q = p" by simp
  with q show ?thesis by simp
qed

lemma pos_less [simp]: "p < pos_limit \<Longrightarrow> q < pos_limit \<Longrightarrow> (of_nat p :: u64) < of_nat q \<longleftrightarrow> p < q"
  by (simp add: word_less_nat_alt)

lemma pos_le [simp]: "p < pos_limit \<Longrightarrow> q < pos_limit \<Longrightarrow> (of_nat p :: u64) \<le> of_nat q \<longleftrightarrow> p \<le> q"
  by (simp add: word_le_nat_alt)

lemma slot_count_limit: "unat (n :: u32) < pos_limit"
  using unat_bound [of n] by (simp add: pos_limit_def)

lemma fast_forward_pos:
  assumes "p \<le> w" "w < pos_limit" "rd_next rd = of_nat p"
  shows "fast_forward (of_nat w) n rd =
    (if w - p > unat n
     then rd\<lparr>rd_dropped := rd_dropped rd + of_nat (w - unat n + 1 - p), rd_next := of_nat (w - unat n + 1)\<rparr>
     else rd)"
proof -
  have d: "(of_nat w :: u64) - of_nat p = of_nat (w - p)" using assms(1) by (simp add: of_nat_diff)
  have n: "(ucast n :: u64) = of_nat (unat n)" by simp
  have gt: "(ucast n :: u64) < of_nat (w - p) \<longleftrightarrow> unat n < w - p"
    unfolding n using assms slot_count_limit [of n] by (intro pos_less) simp_all
  have t: "(of_nat w :: u64) - ucast n + 1 = of_nat (w - unat n + 1)" if "unat n < w - p"
    using that by (simp add: n of_nat_diff del: of_nat_unat)
  show ?thesis
  proof (cases "unat n < w - p")
    case True
    have "(of_nat (w - unat n + 1) :: u64) - of_nat p = of_nat (w - unat n + 1 - p)"
      using True by (intro of_nat_diff [symmetric]) simp
    with True show ?thesis
      by (simp only: fast_forward_def assms(3) d gt Let_def t if_True)
  qed (simp add: fast_forward_def assms(3) d gt)
qed

lemma ring_read_iteration:
  assumes "ring_holds r h" "rd_next rd = of_nat p" "p < length h"
    "length h \<le> p + unat (rg_slot_count r)"
  shows "read_iteration r rd = Return (Some (h ! p)) (rd\<lparr>rd_next := of_nat (Suc p)\<rparr>)"
proof -
  from assms(1,3) have l: "length h < pos_limit" "p < pos_limit"
    and w: "rg_write_seq r = of_nat (length h)" by (auto simp: ring_holds_def)
  have fit: "length (h ! p) \<le> unat (rg_slot_size r)"
    using assms(1,3) by (simp add: ring_holds_def)
  have ff: "fast_forward (of_nat (length h)) (rg_slot_count r) rd = rd"
    using fast_forward_pos [of p "length h" rd] l assms by simp
  from slot_holds_in_window [OF assms(1,3,4)] show ?thesis
    using assms l fit
    by (simp add: read_iteration_def w ff Let_def small_message word_less_nat_alt add.commute)
qed

lemma read_loop_return: "read_iteration r rd = Return out rd' \<Longrightarrow> read_loop r rd = Some (out, rd')"
  by (simp add: read_loop.simps)

text \<open>Nothing new, the next message, or the oldest message the reader still trusts.\<close>

lemma ring_read_none:
  assumes "ring_holds r h" "rd_valid rd" "rd_next rd = of_nat (length h)"
  shows "ring_read r rd = Some (None, rd)"
  using assms
  by (auto simp: ring_read_def ring_holds_def read_iteration_def intro!: read_loop_return)

lemma ring_read_next:
  assumes "ring_holds r h" "rd_valid rd" "rd_next rd = of_nat p" "p < length h"
    "length h \<le> p + unat (rg_slot_count r)"
  shows "ring_read r rd = Some (Some (h ! p), rd\<lparr>rd_next := of_nat (Suc p)\<rparr>)"
  using assms(2) ring_read_iteration [OF assms(1,3-5)] by (simp add: ring_read_def read_loop_return)

lemma ring_read_overrun:
  assumes "ring_holds r h" "rd_valid rd" "rd_next rd = of_nat p"
    "p + unat (rg_slot_count r) < length h" "2 \<le> unat (rg_slot_count r)"
  defines "t \<equiv> length h - unat (rg_slot_count r) + 1"
  shows "ring_read r rd =
    Some (Some (h ! t), rd\<lparr>rd_next := of_nat (Suc t), rd_dropped := rd_dropped rd + of_nat (t - p)\<rparr>)"
proof -
  let ?n = "rg_slot_count r"
  let ?rd = "rd\<lparr>rd_dropped := rd_dropped rd + of_nat (t - p), rd_next := of_nat t\<rparr>"
  from assms(1) have l: "length h < pos_limit" and w: "rg_write_seq r = of_nat (length h)"
    by (auto simp: ring_holds_def)
  have t: "t < length h" "length h \<le> t + unat ?n" "p < length h" "t < pos_limit" "p < pos_limit"
    using assms(4,5) l by (auto simp: t_def)
  have "fast_forward (of_nat (length h)) ?n rd = ?rd"
    using fast_forward_pos [of p "length h" rd ?n] assms(3,4) l t_def by simp
  moreover have "fast_forward (of_nat (length h)) ?n ?rd = ?rd"
    using fast_forward_pos [of t "length h" ?rd ?n] l t by simp
  ultimately have "read_iteration r rd = read_iteration r ?rd"
    using l t assms(3) by (simp add: read_iteration_def w Let_def)
  with ring_read_iteration [OF assms(1), of ?rd t] t
  have "read_iteration r rd = Return (Some (h ! t)) (?rd\<lparr>rd_next := of_nat (Suc t)\<rparr>)" by simp
  with assms(2) show ?thesis by (simp add: ring_read_def read_loop_return)
qed

section \<open>The interface of a bounded message log\<close>

text \<open>
  What the sink that writes and the poller that reads need of the ring: it holds a history of
  messages, a write appends to it, and a cursor that is less than a window behind reads the
  history one message at a time.
\<close>

locale message_log =
  fixes holds :: "'r \<Rightarrow> bytes list \<Rightarrow> bool"
    and put :: "'r \<Rightarrow> bytes \<Rightarrow> bool \<times> 'r"
    and get :: "'r \<Rightarrow> 'c \<Rightarrow> (bytes option \<times> 'c) option"
    and cursor :: "'c \<Rightarrow> nat \<Rightarrow> bool"
    and cap :: "'r \<Rightarrow> nat"
    and window :: "'r \<Rightarrow> nat"
    and limit :: nat
  assumes put_holds: "holds r h \<Longrightarrow> length m \<le> cap r \<Longrightarrow> Suc (length h) < limit \<Longrightarrow>
      fst (put r m) \<and> holds (snd (put r m)) (h @ [m]) \<and>
      cap (snd (put r m)) = cap r \<and> window (snd (put r m)) = window r"
    and get_none: "holds r h \<Longrightarrow> cursor c (length h) \<Longrightarrow> get r c = Some (None, c)"
    and get_next: "holds r h \<Longrightarrow> cursor c p \<Longrightarrow> p < length h \<Longrightarrow> length h \<le> p + window r \<Longrightarrow>
      \<exists>c'. get r c = Some (Some (h ! p), c') \<and> cursor c' (Suc p)"
begin

lemma put_all_holds:
  "holds r h \<Longrightarrow> \<forall>m \<in> set ms. length m \<le> cap r \<Longrightarrow> length h + length ms < limit \<Longrightarrow>
   holds (put_all put r ms) (h @ ms) \<and> window (put_all put r ms) = window r"
proof (induction ms arbitrary: r h)
  case (Cons m ms)
  with put_holds [of r h m] have "holds (snd (put r m)) (h @ [m])" "cap (snd (put r m)) = cap r"
    "window (snd (put r m)) = window r" by auto
  with Cons.IH [of "snd (put r m)" "h @ [m]"] Cons.prems show ?case by simp
qed simp

lemma drain_reads:
  "holds r h \<Longrightarrow> cursor c p \<Longrightarrow> p \<le> length h \<Longrightarrow> length h \<le> p + window r \<Longrightarrow>
   \<exists>c'. drain get r c k = Some (take k (drop p h), c') \<and> cursor c' (min (length h) (p + k))"
proof (induction k arbitrary: c p)
  case 0
  then show ?case by simp
next
  case (Suc k)
  show ?case
  proof (cases "p = length h")
    case True
    with Suc.prems get_none show ?thesis by auto
  next
    case False
    with Suc.prems get_next [of r h c p] obtain c' where
      c': "get r c = Some (Some (h ! p), c')" "cursor c' (Suc p)" by auto
    with Suc.IH [of c' "Suc p"] Suc.prems False obtain c'' where
      "drain get r c' k = Some (take k (drop (Suc p) h), c'')" "cursor c'' (min (length h) (Suc p + k))"
      by auto
    with c' False Suc.prems show ?thesis
      by (auto simp: Cons_nth_drop_Suc [symmetric])
  qed
qed

text \<open>A burst no longer than the window reaches a reader that was up to date, complete and in order.\<close>

lemma burst_is_read:
  assumes "holds r h" "cursor c (length h)" "\<forall>m \<in> set ms. length m \<le> cap r"
    "length h + length ms < limit" "length ms \<le> window r" "length ms \<le> k"
  shows "\<exists>c'. drain get (put_all put r ms) c k = Some (ms, c')"
  using put_all_holds [OF assms(1,3,4)] drain_reads [of "put_all put r ms" "h @ ms" c "length h" k] assms
  by auto

end

definition cursor_at :: "ring_reader \<Rightarrow> nat \<Rightarrow> bool" where
  "cursor_at rd p \<longleftrightarrow> rd_valid rd \<and> rd_next rd = of_nat p"

interpretation ring: message_log ring_holds ring_write ring_read cursor_at
    "\<lambda>r. unat (rg_slot_size r)" "\<lambda>r. unat (rg_slot_count r)" pos_limit
proof unfold_locales
  fix r :: shm_ring and h :: "bytes list" and m :: bytes
  assume "ring_holds r h" "length m \<le> unat (rg_slot_size r)" "Suc (length h) < pos_limit"
  from ring_write_holds [OF this] show "fst (ring_write r m) \<and> ring_holds (snd (ring_write r m)) (h @ [m]) \<and>
      unat (rg_slot_size (snd (ring_write r m))) = unat (rg_slot_size r) \<and>
      unat (rg_slot_count (snd (ring_write r m))) = unat (rg_slot_count r)" by auto
next
  fix r :: shm_ring and h :: "bytes list" and c
  assume "ring_holds r h" "cursor_at c (length h)"
  then show "ring_read r c = Some (None, c)" by (simp add: cursor_at_def ring_read_none)
next
  fix r :: shm_ring and h :: "bytes list" and c p
  assume "ring_holds r h" "cursor_at c p" "p < length h" "length h \<le> p + unat (rg_slot_count r)"
  then show "\<exists>c'. ring_read r c = Some (Some (h ! p), c') \<and> cursor_at c' (Suc p)"
    by (simp add: cursor_at_def ring_read_next)
qed

section \<open>Layout\<close>

lemma and_not_mask: "x AND NOT 63 = push_bit 6 (drop_bit 6 x)" for x :: u64
proof -
  have "x AND NOT (mask 6) = push_bit 6 (drop_bit 6 x)"
    by (auto intro!: bit_word_eqI simp: bit_simps)
  then show ?thesis by (simp add: mask_eq_exp_minus_1)
qed

lemma unat_align_up:
  assumes "unat n + 63 < 2 ^ 64"
  shows "unat (align_up n kCacheLine) = (unat n + 63) div 64 * 64"
proof -
  have s: "unat (n + 63) = unat n + 63"
    using assms by (subst unat_add_lem [THEN iffD1]) simp_all
  have d: "unat (drop_bit 6 (n + 63)) = (unat n + 63) div 64"
    by (simp only: unat_drop_bit_eq s) (simp add: drop_bit_eq_div)
  have m: "(unat n + 63) div 64 * 64 < 2 ^ 64"
    using assms by (meson le_less_trans div_times_less_eq_dividend)
  have c: "n + 64 - 1 = n + 63" "(64 :: u64) - 1 = 63" by simp_all
  have "align_up n kCacheLine = push_bit 6 (drop_bit 6 (n + 63))"
    by (simp only: align_up_def kCacheLine_def c and_not_mask)
  then have "align_up n kCacheLine = drop_bit 6 (n + 63) * 64" by (simp add: push_bit_eq_mult)
  with unat_mult_lem [THEN iffD1, of "drop_bit 6 (n + 63)" 64] d m show ?thesis by simp
qed

lemma unat_slot_stride: "unat (slot_stride sz) = (unat sz + 79) div 64 * 64"
proof -
  have e: "unat (16 + ucast sz :: u64) = 16 + unat sz"
    using unat_bound [of sz] by (subst unat_add_lem [THEN iffD1]) simp_all
  have b: "unat (16 + ucast sz :: u64) + 63 < 2 ^ 64"
    unfolding e using unat_bound [of sz] by simp
  have "16 + unat sz + 63 = unat sz + 79" by simp
  then show ?thesis by (simp only: slot_stride_def unat_align_up [OF b] e)
qed

lemma unat_slot_offset:
  assumes "unat i * (unat sz + 80) + 64 < 2 ^ 64"
  shows "unat (slot_offset sz i) = 64 + unat i * unat (slot_stride sz)"
proof -
  have h: "header_bytes = 64" by (simp add: header_bytes_def align_up_def kCacheLine_def)
  have "unat (slot_stride sz) \<le> unat sz + 80"
    using div_times_less_eq_dividend [of "unat sz + 79" 64] by (simp add: unat_slot_stride)
  then have b: "unat i * unat (slot_stride sz) + 64 < 2 ^ 64"
    using assms by (meson le_less_trans add_le_mono1 mult_le_mono2)
  with unat_mult_lem [THEN iffD1, of "ucast i" "slot_stride sz"]
  have "unat (ucast i * slot_stride sz) = unat i * unat (slot_stride sz)" by simp
  with b unat_add_lem [THEN iffD1, of 64 "ucast i * slot_stride sz"]
  have "unat (64 + ucast i * slot_stride sz) = 64 + unat i * unat (slot_stride sz)" by simp
  then show ?thesis by (simp only: slot_offset_def h)
qed

section \<open>Properties\<close>

text \<open>
  A burst of messages that each fit a slot, no longer than the number of slots, written to a
  ring while a reader is up to date, is read completely and in order, and reading terminates.
\<close>

theorem shm_burst_is_read:
  assumes "ring_holds r h" "rd_valid rd" "rd_next rd = of_nat (length h)"
    and "\<forall>m \<in> set ms. length m \<le> unat (rg_slot_size r)"
    and "length h + length ms < pos_limit" "length ms \<le> unat (rg_slot_count r)" "length ms \<le> k"
  shows "\<exists>rd'. drain ring_read (put_all ring_write r ms) rd k = Some (ms, rd')"
  using ring.burst_is_read [of r h rd ms k] assms by (simp add: cursor_at_def)

theorem shm_burst_is_read_witness:
  "\<exists>rd'. drain ring_read (put_all ring_write (ring_init (\<lambda>_ _. CHR 0x00) 4 8) [''a'', ''bc''])
           (make_reader (Some (ring_init (\<lambda>_ _. CHR 0x00) 4 8))) 256 = Some ([''a'', ''bc''], rd')"
proof (rule shm_burst_is_read [where h = "[]"])
  show "ring_holds (ring_init (\<lambda>_ _. CHR 0x00) 4 8) []"
    by (rule ring_init_holds [where k = 2]) simp_all
qed (simp_all add: make_reader_def ring_init_def pos_limit_def)

text \<open>
  Reading a quiescent ring of at least two slots returns the next message when the
  reader is less than a ring behind; a reader that was overrun skips to the position after the
  oldest one still stored, gets the message of that position, and counts exactly the skipped
  positions as dropped.
\<close>

theorem shm_read_spec:
  assumes "ring_holds r h" "2 \<le> unat (rg_slot_count r)" "rd_valid rd" "rd_next rd = of_nat p" "p \<le> length h"
  defines "n \<equiv> unat (rg_slot_count r)"
  shows "ring_read r rd =
    Some (if p = length h then (None, rd)
          else if length h - p \<le> n then (Some (h ! p), rd\<lparr>rd_next := of_nat (Suc p)\<rparr>)
          else (Some (h ! (length h - n + 1)),
                rd\<lparr>rd_next := of_nat (Suc (length h - n + 1)),
                   rd_dropped := rd_dropped rd + of_nat (length h - n + 1 - p)\<rparr>))"
proof -
  consider "p = length h" | "p < length h" "length h \<le> p + n" | "p + n < length h"
    using assms(5) by linarith
  then show ?thesis
  proof cases
    case 1
    with assms ring_read_none [of r h rd] show ?thesis by simp
  next
    case 2
    then have "p \<noteq> length h" "length h - p \<le> n" by simp_all
    moreover have "ring_read r rd = Some (Some (h ! p), rd\<lparr>rd_next := of_nat (Suc p)\<rparr>)"
      using 2 assms ring_read_next [of r h rd p] by simp
    ultimately show ?thesis by simp
  next
    case 3
    then have "p \<noteq> length h" "\<not> length h - p \<le> n" by simp_all
    moreover note ring_read_overrun [of r h rd p, folded n_def] assms 3
    ultimately show ?thesis by (simp add: n_def)
  qed
qed

definition three_written :: shm_ring where
  "three_written = put_all ring_write (ring_init (\<lambda>_ _. CHR 0x00) 2 8) [''a'', ''b'', ''c'']"

theorem shm_read_spec_witness:
  "ring_read three_written \<lparr>rd_valid = True, rd_next = 0, rd_dropped = 0\<rparr> =
     Some (Some ''c'', \<lparr>rd_valid = True, rd_next = 3, rd_dropped = 2\<rparr>)"
proof -
  have "ring_holds (ring_init (\<lambda>_ _. CHR 0x00) 2 8) []"
    by (rule ring_init_holds [where k = 1]) simp_all
  then have h: "ring_holds three_written [''a'', ''b'', ''c'']"
    and c: "unat (rg_slot_count three_written) = 2"
    using ring.put_all_holds [of "ring_init (\<lambda>_ _. CHR 0x00) 2 8" "[]" "[''a'', ''b'', ''c'']"]
    by (simp_all add: three_written_def ring_init_def pos_limit_def)
  from shm_read_spec [OF h, of "\<lparr>rd_valid = True, rd_next = 0, rd_dropped = 0\<rparr>" 0] c
  show ?thesis by simp
qed

text \<open>
  The string overload of \<open>write\<close> narrows the size to 32 bits before the capacity check: a message
  of \<open>2^32 + j\<close> bytes is accepted as if it were its first \<open>j\<close> bytes.
\<close>

theorem shm_write_truncates_huge_message:
  assumes "length bs = 2 ^ 32 + j" "j < 2 ^ 32"
  shows "ring_write r bs = ring_write r (take j bs)"
proof -
  have "(of_nat (2 ^ 32 + j) :: u32) = of_nat j" by simp
  moreover have "unat (of_nat j :: u32) = j" using assms(2) by (intro unat_of_nat_small) simp
  ultimately show ?thesis
    unfolding ring_write_def ring_write_raw_def using assms
    by (simp only: length_take take_take min.idem) (simp add: min_def)
qed

theorem shm_write_truncates_huge_message_witness:
  "ring_write (ring_init (\<lambda>_ _. CHR 0x00) 2 8) (replicate (2 ^ 32 + 3) CHR ''x'')
     = ring_write (ring_init (\<lambda>_ _. CHR 0x00) 2 8) ''xxx''"
proof -
  have "ring_write (ring_init (\<lambda>_ _. CHR 0x00) 2 8) (replicate (2 ^ 32 + 3) CHR ''x'')
     = ring_write (ring_init (\<lambda>_ _. CHR 0x00) 2 8) (take 3 (replicate (2 ^ 32 + 3) CHR ''x''))"
    by (rule shm_write_truncates_huge_message) (simp_all only: length_replicate, simp)
  moreover have "take 3 (replicate (2 ^ 32 + 3) CHR ''x'') = ''xxx''"
    by (simp only: take_replicate) (simp add: numeral_3_eq_3)
  ultimately show ?thesis by (simp only:)
qed

text \<open>
  As long as the size does not overflow 64 bits, the slots lie one after the other inside the
  \<open>bytes_needed\<close> bytes of the segment: a slot's header and payload end before the next slot
  starts, and every slot starts on a cache line.
\<close>

theorem shm_slots_disjoint:
  assumes "unat cnt * (unat sz + 80) + 64 < 2 ^ 64" "i < j" "j \<le> cnt"
  shows "unat (slot_offset sz i) + 16 + unat sz \<le> unat (slot_offset sz j)
       \<and> unat (slot_offset sz j) \<le> unat (bytes_needed cnt sz)
       \<and> 64 dvd unat (slot_offset sz i)"
proof -
  let ?S = "unat (slot_stride sz)"
  have ij: "unat i < unat j" "unat j \<le> unat cnt" using assms by (simp_all add: word_less_nat_alt word_le_nat_alt)
  have off: "unat (slot_offset sz x) = 64 + unat x * ?S" if "unat x \<le> unat cnt" for x
    using assms(1) that by (intro unat_slot_offset) (meson add_le_mono1 le_less_trans mult_le_mono1)
  have S: "16 + unat sz \<le> ?S" "64 dvd ?S" by (simp_all add: unat_slot_stride)
  have "Suc (unat i) * ?S \<le> unat j * ?S" using ij by (intro mult_le_mono1) simp
  then have "unat i * ?S + ?S \<le> unat j * ?S" by simp
  moreover have "unat j * ?S \<le> unat cnt * ?S" using ij by simp
  moreover have "bytes_needed cnt sz = slot_offset sz cnt" by (simp add: bytes_needed_def slot_offset_def)
  ultimately show ?thesis using ij S by (simp add: off)
qed

theorem shm_slots_disjoint_witness:
  "unat (slot_offset 262144 3) + 16 + 262144 \<le> unat (slot_offset 262144 4)
     \<and> unat (slot_offset 262144 4) \<le> unat (bytes_needed 32 262144) \<and> 64 dvd unat (slot_offset 262144 3)"
  using shm_slots_disjoint [of 32 262144 3 4] by simp

end
