(* ===== verification/Shm_Segment.thy ===== *)
theory Shm_Segment
  imports Shm_Ring
begin

text \<open>
  POSIX shared memory segments (transport/src/shm_segment.cpp) and the sink that writes into one
  (core/include/core/shm_sink.h). The kernel's table maps names to memory objects; an object
  outlives its name as long as it is mapped, so objects have identities. The outcomes of the system calls are
  arguments.
\<close>

record shm_object =
  so_size :: u64
  so_ring :: "shm_ring option"

record shm_table =
  st_names :: "string \<Rightarrow> nat option"
  st_objects :: "nat \<Rightarrow> shm_object"
  st_next :: nat

record segment =
  sg_name :: string
  sg_object :: nat
  sg_size :: u64
  sg_owner :: bool

definition shm_unlink :: "string \<Rightarrow> shm_table \<Rightarrow> shm_table" where
  "shm_unlink name t = t\<lparr>st_names := (st_names t)(name := None)\<rparr>"

text \<open>\<open>shm_open(O_CREAT | O_RDWR)\<close>: the named object, or a new empty one.\<close>

definition shm_open_create :: "string \<Rightarrow> shm_table \<Rightarrow> nat \<times> shm_table" where
  "shm_open_create name t =
     (case st_names t name of
        Some i \<Rightarrow> (i, t)
      | None \<Rightarrow> (st_next t, t\<lparr>st_names := (st_names t)(name \<mapsto> st_next t),
                   st_objects := (st_objects t)(st_next t := \<lparr>so_size = 0, so_ring = None\<rparr>),
                   st_next := Suc (st_next t)\<rparr>))"

record shm_outcome =
  oc_open :: bool
  oc_truncate :: bool
  oc_stat :: bool
  oc_map :: bool

definition all_ok :: shm_outcome where
  "all_ok = \<lparr>oc_open = True, oc_truncate = True, oc_stat = True, oc_map = True\<rparr>"

definition segment_create :: "shm_outcome \<Rightarrow> (nat \<Rightarrow> nat \<Rightarrow> char) \<Rightarrow> string \<Rightarrow> u32 \<Rightarrow> u32 \<Rightarrow> shm_table \<Rightarrow>
    segment option \<times> shm_table" where
  "segment_create oc old name slot_count slot_size t =
     (let bytes = bytes_needed slot_count slot_size in
      if \<not> oc_open oc then (None, t)
      else
        (let (i, t) = shm_open_create name t in
         if \<not> oc_truncate oc then (None, shm_unlink name t)
         else
           (let t = t\<lparr>st_objects := (st_objects t)(i := (st_objects t i)\<lparr>so_size := bytes\<rparr>)\<rparr> in
            if \<not> oc_map oc then (None, shm_unlink name t)
            else (Some \<lparr>sg_name = name, sg_object = i, sg_size = bytes, sg_owner = True\<rparr>,
                  t\<lparr>st_objects := (st_objects t)(i := \<lparr>so_size = bytes, so_ring = Some (ring_init old slot_count slot_size)\<rparr>)\<rparr>))))"

text \<open>\<open>open\<close> maps what it finds; an object whose header has no magic yet is refused.\<close>

definition segment_open :: "shm_outcome \<Rightarrow> string \<Rightarrow> shm_table \<Rightarrow> segment option" where
  "segment_open oc name t =
     (if \<not> oc_open oc then None
      else
        (case st_names t name of
           None \<Rightarrow> None
         | Some i \<Rightarrow>
             (if \<not> oc_stat oc \<or> so_size (st_objects t i) < 24 then None
              else if \<not> oc_map oc then None
              else
                (case Option.bind (so_ring (st_objects t i)) ring_attach of
                   None \<Rightarrow> None
                 | Some r \<Rightarrow> Some \<lparr>sg_name = name, sg_object = i, sg_size = so_size (st_objects t i), sg_owner = False\<rparr>))))"

definition segment_destroy :: "segment \<Rightarrow> shm_table \<Rightarrow> shm_table" where
  "segment_destroy s t = (if sg_owner s \<and> sg_name s \<noteq> [] then shm_unlink (sg_name s) t else t)"

definition ring_of :: "shm_table \<Rightarrow> segment \<Rightarrow> shm_ring option" where
  "ring_of t s = so_ring (st_objects t (sg_object s))"

text \<open>\<open>ShmSink::enqueue\<close>: write, and drop with a warning what does not fit.\<close>

definition shm_sink_enqueue :: "segment \<Rightarrow> bytes \<Rightarrow> shm_table \<Rightarrow> bool \<times> shm_table" where
  "shm_sink_enqueue s bs t =
     (case ring_of t s of
        None \<Rightarrow> (False, t)
      | Some r \<Rightarrow>
          (let (ok, r) = ring_write r bs
           in (ok, t\<lparr>st_objects := (st_objects t)(sg_object s := (st_objects t (sg_object s))\<lparr>so_ring := Some r\<rparr>)\<rparr>)))"

section \<open>Creating, opening, destroying\<close>

lemma create_success:
  assumes "segment_create oc old name n sz t = (Some s, t')"
  shows "sg_name s = name" "sg_owner s" "st_names t' name = Some (sg_object s)"
    "ring_of t' s = Some (ring_init old n sz)" "so_size (st_objects t' (sg_object s)) = bytes_needed n sz"
    "sg_size s = bytes_needed n sz"
  using assms
  by (auto simp: segment_create_def shm_open_create_def ring_of_def Let_def split: if_splits option.splits)

lemma create_failure:
  assumes "segment_create oc old name n sz t = (None, t')"
  shows "st_names t' name = None \<or> t' = t"
  using assms by (auto simp: segment_create_def shm_unlink_def Let_def split: if_splits prod.splits)

lemma create_other_names:
  assumes "segment_create oc old name n sz t = (so, t')" "name' \<noteq> name"
  shows "st_names t' name' = st_names t name'"
  using assms
  by (auto simp: segment_create_def shm_open_create_def shm_unlink_def Let_def split: if_splits option.splits)

lemma header_bytes_value: "header_bytes = 64"
  by (simp add: header_bytes_def align_up_def kCacheLine_def)

lemma open_after_create:
  assumes "segment_create oc old name n sz t = (Some s, t')" "bytes_needed n sz \<ge> 24"
  shows "segment_open all_ok name t' = Some (s\<lparr>sg_owner := False\<rparr>)"
  using create_success [OF assms(1)] assms(2)
  by (simp add: segment_open_def all_ok_def ring_of_def ring_attach_def ring_init_def not_less)

lemma open_after_destroy:
  "sg_owner s \<Longrightarrow> sg_name s \<noteq> [] \<Longrightarrow> segment_open oc (sg_name s) (segment_destroy s t) = None"
  by (simp add: segment_open_def segment_destroy_def shm_unlink_def)

end
