(* ===== verification/Shm_Reader.thy ===== *)
theory Shm_Reader
  imports Shm_Segment Std_Map
begin

text \<open>
  The poller of the subscribing side, \<open>ShmReaderManager\<close> (core/src/shm_reader.cpp). A poll returns the
  deliveries it makes to the bus, in order. Reading a ring is the partial function
  \<open>ring_read\<close>: a poll is \<open>None\<close> where some read would not return.
\<close>

definition kMaxDrainPerReader :: nat where
  "kMaxDrainPerReader = 256"

text \<open>Sleeping times in microseconds.\<close>

definition kMinSleep :: nat where
  "kMinSleep = 50"

definition kMaxSleep :: nat where
  "kMaxSleep = 1000"

record reader_entry =
  en_topic :: string
  en_seg_name :: string
  en_seg :: "segment option"
  en_reader :: ring_reader

record reader_manager =
  rm_readers :: "(string, reader_entry) std_map"
  rm_running :: bool

definition new_manager :: reader_manager where
  "new_manager = \<lparr>rm_readers = [], rm_running = True\<rparr>"

definition manager_stop :: "reader_manager \<Rightarrow> reader_manager" where
  "manager_stop m = (if \<not> rm_running m then m else m\<lparr>rm_running := False, rm_readers := []\<rparr>)"

definition add_reader :: "string \<Rightarrow> string \<Rightarrow> string \<Rightarrow> reader_manager \<Rightarrow> reader_manager" where
  "add_reader key topic seg_name m =
     (if sm_find (rm_readers m) key \<noteq> None then m
      else m\<lparr>rm_readers := sm_put key \<lparr>en_topic = topic, en_seg_name = seg_name, en_seg = None,
               en_reader = make_reader None\<rparr> (rm_readers m)\<rparr>)"

definition remove_reader :: "string \<Rightarrow> reader_manager \<Rightarrow> reader_manager" where
  "remove_reader key m =
     (if sm_find (rm_readers m) key = None then m else m\<lparr>rm_readers := sm_erase key (rm_readers m)\<rparr>)"

text \<open>The body of the poll loop for one entry: open if needed, then drain.\<close>

definition poll_open :: "(string \<Rightarrow> shm_outcome) \<Rightarrow> shm_table \<Rightarrow> reader_entry \<Rightarrow> reader_entry" where
  "poll_open oc t e =
     (case en_seg e of
        Some s \<Rightarrow> e
      | None \<Rightarrow>
          (case segment_open (oc (en_seg_name e)) (en_seg_name e) t of
             None \<Rightarrow> e
           | Some s \<Rightarrow> e\<lparr>en_seg := Some s, en_reader := make_reader (ring_of t s)\<rparr>))"

definition poll_entry :: "(string \<Rightarrow> shm_outcome) \<Rightarrow> shm_table \<Rightarrow> reader_entry \<Rightarrow> (bytes list \<times> reader_entry) option" where
  "poll_entry oc t e =
     (let e = poll_open oc t e in
      case Option.bind (en_seg e) (ring_of t) of
        None \<Rightarrow> Some ([], e)
      | Some r \<Rightarrow>
          map_option (\<lambda>(ms, rd). (ms, e\<lparr>en_reader := rd\<rparr>)) (drain ring_read r (en_reader e) kMaxDrainPerReader))"

fun poll_entries :: "(string \<Rightarrow> shm_outcome) \<Rightarrow> shm_table \<Rightarrow> (string \<times> reader_entry) list \<Rightarrow>
    ((string \<times> bytes) list \<times> (string \<times> reader_entry) list) option" where
  "poll_entries oc t [] = Some ([], [])"
| "poll_entries oc t ((k, e) # es) =
     (case poll_entry oc t e of
        None \<Rightarrow> None
      | Some (ms, e') \<Rightarrow>
          (case poll_entries oc t es of
             None \<Rightarrow> None
           | Some (ds, es') \<Rightarrow> Some (map (Pair (en_topic e)) ms @ ds, (k, e') # es')))"

definition poll_once :: "(string \<Rightarrow> shm_outcome) \<Rightarrow> shm_table \<Rightarrow> reader_manager \<Rightarrow>
    (bool \<times> (string \<times> bytes) list \<times> reader_manager) option" where
  "poll_once oc t m =
     (case poll_entries oc t (rm_readers m) of
        None \<Rightarrow> None
      | Some (ds, es) \<Rightarrow> Some (ds \<noteq> [], ds, m\<lparr>rm_readers := es\<rparr>))"

text \<open>The waiting time of \<open>run\<close> after a poll that did or did not find data.\<close>

definition next_sleep :: "bool \<Rightarrow> nat \<Rightarrow> nat" where
  "next_sleep did_work sleep = (if did_work then kMinSleep else if sleep < kMaxSleep then sleep * 2 else sleep)"

section \<open>Lemmas\<close>

lemma poll_entries_one:
  assumes "(k, e) \<in> set es" "poll_entries oc t es = Some (ds, es')"
  shows "\<exists>ms e' ds1 ds2. poll_entry oc t e = Some (ms, e') \<and> ds = ds1 @ map (Pair (en_topic e)) ms @ ds2 \<and> (k, e') \<in> set es'"
  using assms
proof (induction es arbitrary: ds es')
  case (Cons x es)
  obtain k1 e1 where x: "x = (k1, e1)" by (cases x)
  from Cons.prems(2) x obtain ms1 e1' ds1 es1 where
    p: "poll_entry oc t e1 = Some (ms1, e1')" "poll_entries oc t es = Some (ds1, es1)"
    "ds = map (Pair (en_topic e1)) ms1 @ ds1" "es' = (k1, e1') # es1"
    by (auto split: option.splits)
  show ?case
  proof (cases "(k, e) = x")
    case True
    with p x show ?thesis by (intro exI [of _ ms1] exI [of _ e1'] exI [of _ "[]"] exI [of _ ds1]) simp
  next
    case False
    with Cons.prems(1) have "(k, e) \<in> set es" by simp
    from Cons.IH [OF this p(2)] obtain ms e' da db where
      "poll_entry oc t e = Some (ms, e')" "ds1 = da @ map (Pair (en_topic e)) ms @ db" "(k, e') \<in> set es1" by blast
    with p show ?thesis
      by (intro exI [of _ ms] exI [of _ e'] exI [of _ "map (Pair (en_topic e1)) ms1 @ da"] exI [of _ db]) simp
  qed
qed simp

lemma drain_length: "drain get r c k = Some (ms, c') \<Longrightarrow> length ms \<le> k"
  by (induction k arbitrary: c ms) (auto split: option.splits prod.splits)

fun sink_all :: "segment \<Rightarrow> bytes list \<Rightarrow> shm_table \<Rightarrow> shm_table" where
  "sink_all s [] t = t"
| "sink_all s (m # ms) t = sink_all s ms (snd (shm_sink_enqueue s m t))"

lemma sink_all_ring:
  "ring_of t s = Some r \<Longrightarrow> ring_of (sink_all s ms t) s = Some (put_all ring_write r ms)"
  by (induction ms arbitrary: t r) (simp_all add: shm_sink_enqueue_def ring_of_def split_beta)

text \<open>A reader whose cursor does not lie beyond a quiescent ring.\<close>

definition reader_fits :: "shm_ring \<Rightarrow> ring_reader \<Rightarrow> bool" where
  "reader_fits r rd \<longleftrightarrow> (rd_valid rd \<longrightarrow> 2 \<le> unat (rg_slot_count r) \<and>
     (\<exists>h p. ring_holds r h \<and> rd_next rd = of_nat p \<and> p \<le> length h))"

lemma ring_read_returns:
  assumes "reader_fits r rd"
  shows "\<exists>m rd'. ring_read r rd = Some (m, rd') \<and> reader_fits r rd'"
proof (cases "rd_valid rd")
  case False
  with assms show ?thesis by (simp add: ring_read_def)
next
  case True
  with assms obtain h p where h: "ring_holds r h" "rd_next rd = of_nat p" "p \<le> length h"
    and n: "2 \<le> unat (rg_slot_count r)" by (auto simp: reader_fits_def)
  consider "p = length h" | "p < length h" "length h \<le> p + unat (rg_slot_count r)" | "p + unat (rg_slot_count r) < length h"
    using h(3) by linarith
  then show ?thesis
  proof cases
    case 1
    with assms True h ring_read_none [of r h rd] show ?thesis by simp
  next
    case 2
    with True h n ring_read_next [of r h rd p] have "ring_read r rd = Some (Some (h ! p), rd\<lparr>rd_next := of_nat (Suc p)\<rparr>)"
      by simp
    moreover have "reader_fits r (rd\<lparr>rd_next := of_nat (Suc p)\<rparr>)"
      unfolding reader_fits_def using h(1) n 2(1) by (intro impI conjI exI [of _ h] exI [of _ "Suc p"]) simp_all
    ultimately show ?thesis by blast
  next
    case 3
    let ?q = "Suc (length h - unat (rg_slot_count r) + 1)"
    note ring_read_overrun [OF h(1) True h(2) 3 n]
    moreover have "reader_fits r (rd\<lparr>rd_next := of_nat ?q, rd_dropped := d\<rparr>)" for d
      unfolding reader_fits_def using h(1) n 3 by (intro impI conjI exI [of _ h] exI [of _ ?q]) auto
    ultimately show ?thesis by blast
  qed
qed

lemma drain_returns:
  "reader_fits r rd \<Longrightarrow> \<exists>ms rd'. drain ring_read r rd k = Some (ms, rd')"
proof (induction k arbitrary: rd)
  case (Suc k)
  from ring_read_returns [OF Suc.prems] obtain m rd' where
    r: "ring_read r rd = Some (m, rd')" "reader_fits r rd'" by blast
  from Suc.IH [OF r(2)] r(1) show ?case by (auto split: option.splits)
qed simp

definition entry_fits :: "shm_table \<Rightarrow> reader_entry \<Rightarrow> bool" where
  "entry_fits t e = (case Option.bind (en_seg e) (ring_of t) of None \<Rightarrow> True | Some r \<Rightarrow> reader_fits r (en_reader e))"

lemma poll_entries_return:
  assumes "\<forall>(k, e) \<in> set es. entry_fits t (poll_open oc t e)"
  shows "\<exists>ds es'. poll_entries oc t es = Some (ds, es')"
  using assms
proof (induction es)
  case (Cons x es)
  obtain k e where x: "x = (k, e)" by (cases x)
  from Cons.prems x have "entry_fits t (poll_open oc t e)" by simp
  then have "\<exists>ms e'. poll_entry oc t e = Some (ms, e')"
    using drain_returns by (force simp: poll_entry_def entry_fits_def Let_def split: option.splits)
  with Cons x show ?case by fastforce
qed simp

section \<open>Properties\<close>

text \<open>
  Shared memory delivers. Messages that fit a slot, at most a ring of them and at most 256, written by the sink
  of a segment while a reader of it is up to date, are handed by the next poll to the bus under
  the reader's topic, all of them and in order. The poll returns if all other readers are within their rings.
\<close>

theorem shm_poll_delivers:
  assumes "(k, e) \<in> set (rm_readers m)" "en_seg e = Some s" "ring_of t s = Some r" "ring_holds r h"
    and "rd_valid (en_reader e)" "rd_next (en_reader e) = of_nat (length h)"
    and "\<forall>b \<in> set ms. length b \<le> unat (rg_slot_size r)" "length h + length ms < pos_limit"
    and "length ms \<le> unat (rg_slot_count r)" "length ms \<le> kMaxDrainPerReader"
    and "\<forall>(k, e) \<in> set (rm_readers m). entry_fits (sink_all s ms t) (poll_open oc (sink_all s ms t) e)"
  shows "\<exists>ds1 ds2 m'. poll_once oc (sink_all s ms t) m =
    Some (ds1 @ map (Pair (en_topic e)) ms @ ds2 \<noteq> [], ds1 @ map (Pair (en_topic e)) ms @ ds2, m')"
proof -
  obtain ds es where p: "poll_entries oc (sink_all s ms t) (rm_readers m) = Some (ds, es)"
    using poll_entries_return [OF assms(11)] by blast
  have "\<exists>rd'. drain ring_read (put_all ring_write r ms) (en_reader e) kMaxDrainPerReader = Some (ms, rd')"
    using ring.burst_is_read [of r h "en_reader e" ms kMaxDrainPerReader] assms(4-10) by (simp add: cursor_at_def)
  then obtain rd' where "poll_entry oc (sink_all s ms t) e = Some (ms, e\<lparr>en_reader := rd'\<rparr>)"
    using assms(2) sink_all_ring [OF assms(3), of ms] by (auto simp: poll_entry_def poll_open_def)
  with poll_entries_one [OF assms(1) p] obtain ds1 ds2 where "ds = ds1 @ map (Pair (en_topic e)) ms @ ds2" by auto
  with p show ?thesis by (auto simp: poll_once_def)
qed

definition demo_table :: shm_table where
  "demo_table = snd (segment_create all_ok (\<lambda>_ _. CHR 0x00) ''/mm.7.x'' 32 4
     \<lparr>st_names = (\<lambda>_. None), st_objects = (\<lambda>_. \<lparr>so_size = 0, so_ring = None\<rparr>), st_next = 0\<rparr>)"

definition demo_segment :: segment where
  "demo_segment = \<lparr>sg_name = ''/mm.7.x'', sg_object = 0, sg_size = bytes_needed 32 4, sg_owner = True\<rparr>"

definition demo_manager :: reader_manager where
  "demo_manager = \<lparr>rm_readers = [(''/mm.7.x'', \<lparr>en_topic = ''x'', en_seg_name = ''/mm.7.x'',
     en_seg = Some demo_segment, en_reader = make_reader (ring_of demo_table demo_segment)\<rparr>)], rm_running = True\<rparr>"

theorem shm_poll_delivers_witness:
  "\<exists>ds1 ds2 m'. poll_once (\<lambda>_. all_ok) (sink_all demo_segment [''a'', ''bc''] demo_table) demo_manager =
     Some (ds1 @ [(''x'', ''a''), (''x'', ''bc'')] @ ds2 \<noteq> [], ds1 @ [(''x'', ''a''), (''x'', ''bc'')] @ ds2, m')"
proof -
  let ?r = "ring_init (\<lambda>_ _. CHR 0x00) 32 4" and ?ms = "[''a'', ''bc'']"
  let ?t = "sink_all demo_segment ?ms demo_table"
  have r: "ring_of demo_table demo_segment = Some ?r"
    by (simp add: demo_table_def demo_segment_def segment_create_def shm_open_create_def all_ok_def ring_of_def Let_def)
  have h: "ring_holds ?r []" by (rule ring_init_holds [where k = 5]) simp_all
  obtain e where m: "rm_readers demo_manager = [(''/mm.7.x'', e)]" and rd: "en_seg e = Some demo_segment"
    "en_reader e = \<lparr>rd_valid = True, rd_next = 0, rd_dropped = 0\<rparr>" "en_topic e = ''x''"
    by (simp add: demo_manager_def make_reader_def r) (simp add: ring_init_def)
  have two: "ring_holds (put_all ring_write ?r ?ms) ?ms \<and> unat (rg_slot_count (put_all ring_write ?r ?ms)) = 32"
    using ring.put_all_holds [OF h, of ?ms] by (simp add: ring_init_def pos_limit_def)
  have "entry_fits ?t (poll_open (\<lambda>_. all_ok) ?t e)"
    using sink_all_ring [OF r, of ?ms] rd two
    by (auto simp: entry_fits_def poll_open_def reader_fits_def intro!: exI [of _ ?ms] exI [of _ 0])
  with shm_poll_delivers [of "''/mm.7.x''" e demo_manager demo_segment demo_table ?r "[]" ?ms "\<lambda>_. all_ok"] m rd r h
  show ?thesis by (simp add: pos_limit_def kMaxDrainPerReader_def ring_init_def)
qed

text \<open>
  The back-off of an idle poller overshoots its bound: the waiting time doubles from 50 microseconds and
  settles at 1600, above \<open>kMaxSleep\<close>; it never exceeds 1600.
\<close>

theorem idle_sleep_exceeds_max:
  "(next_sleep False ^^ 5) kMinSleep = 1600 \<and> (next_sleep False ^^ (5 + n)) kMinSleep = 1600 \<and> 1600 > kMaxSleep"
proof -
  have e: "(next_sleep False ^^ 5) kMinSleep = 1600" "next_sleep False 1600 = 1600"
    by (simp_all add: next_sleep_def kMinSleep_def kMaxSleep_def eval_nat_numeral)
  have "(next_sleep False ^^ n) 1600 = 1600" by (induction n) (simp_all add: e(2))
  then have "(next_sleep False ^^ (n + 5)) kMinSleep = 1600" by (simp add: funpow_add e(1))
  with e(1) show ?thesis by (simp add: add.commute kMaxSleep_def)
qed

end
