(* ===== verification/Data_Plane.thy ===== *)
theory Data_Plane
  imports Discovery_Agent Shm_Reader
begin

text \<open>
  The data plane (core/src/data_plane.cpp): for every reported match it sets up or takes down a
  TCP channel or a shared memory channel. The state of \<open>DataPlane\<close> is a record; the bus, the kernel's table of
  shared memory and the calls made on connections go with it.

  A connection is the identity of a \<open>TcpClientTransport\<close>; the calls of \<open>start\<close> and \<open>stop\<close> on it are recorded in
  order (the transport itself is in the theory \<open>Tcp_Client\<close>). Sinks of the data plane are alive
  as long as one of its maps owns them. Calling \<open>shm_readers_\<close> when it is null is the value \<open>None\<close>.
\<close>

section \<open>State\<close>

record remote_sink =
  rs_id :: sink_id
  rs_topic :: string
  rs_conn :: nat

record shm_pub =
  sp_id :: sink_id
  sp_seg :: segment
  sp_ref :: int

datatype conn_call = ConnStart nat string u16 | ConnStop nat

record data_plane =
  dp_ip :: string
  dp_server :: "u16 option"
  dp_pid :: u64
  dp_host :: string
  dp_shm_enabled :: bool
  dp_connections :: "(u64, nat) std_map"
  dp_sinks :: "string \<Rightarrow> remote_sink option"
  dp_refcount :: "u64 \<Rightarrow> int option"
  dp_shm_pub :: "(string, shm_pub) std_map"
  dp_shm_sub_ref :: "string \<Rightarrow> int option"
  dp_readers :: "reader_manager option"
  dp_stopped :: bool
  dp_next_sink :: nat
  dp_next_conn :: nat

record plane =
  pl_dp :: data_plane
  pl_bus :: local_bus
  pl_shm :: shm_table
  pl_calls :: "conn_call list"

definition kShmSlotCount :: u32 where
  "kShmSlotCount = 32"

definition kShmSlotCapacity :: u32 where
  "kShmSlotCapacity = 256 * 1024"

definition seg_name :: "u64 \<Rightarrow> string \<Rightarrow> string" where
  "seg_name writer_pid topic =
     ''/mm.'' @ to_string (unat writer_pid) @ ''.'' @
     map (\<lambda>c. if c = CHR ''/'' \<or> c = CHR ''.'' \<or> c = CHR '' '' then CHR ''_'' else c) topic"

definition new_data_plane :: "string \<Rightarrow> data_plane" where
  "new_data_plane ip =
     \<lparr>dp_ip = ip, dp_server = None, dp_pid = 0, dp_host = [], dp_shm_enabled = True, dp_connections = [],
      dp_sinks = (\<lambda>_. None), dp_refcount = (\<lambda>_. None), dp_shm_pub = [], dp_shm_sub_ref = (\<lambda>_. None),
      dp_readers = None, dp_stopped = False, dp_next_sink = 0, dp_next_conn = 0\<rparr>"

definition set_local_identity :: "u64 \<Rightarrow> string \<Rightarrow> bool \<Rightarrow> data_plane \<Rightarrow> data_plane" where
  "set_local_identity pid host_id enable_shm d =
     d\<lparr>dp_pid := pid, dp_host := host_id, dp_shm_enabled := enable_shm\<rparr>"

text \<open>\<open>listening\<close> is the port the server got, if it started.\<close>

definition dp_start :: "u16 option \<Rightarrow> data_plane \<Rightarrow> bool \<times> data_plane" where
  "dp_start listening d =
     (case listening of
        None \<Rightarrow> (False, d\<lparr>dp_server := None\<rparr>)
      | Some port \<Rightarrow> (True, d\<lparr>dp_server := Some port, dp_readers := Some new_manager\<rparr>))"

definition server_port :: "data_plane \<Rightarrow> u16" where
  "server_port d = (case dp_server d of None \<Rightarrow> 0 | Some p \<Rightarrow> p)"

text \<open>Clearing \<open>shm_pub_\<close> destroys the sinks and with them the writers' segments.\<close>

definition release_segments :: "(string, shm_pub) std_map \<Rightarrow> shm_table \<Rightarrow> shm_table" where
  "release_segments ps t = foldl (\<lambda>t (topic, p). segment_destroy (sp_seg p) t) t ps"

definition dp_stop :: "plane \<Rightarrow> plane" where
  "dp_stop w =
     (let d = pl_dp w in
      w\<lparr>pl_calls := pl_calls w @ map (\<lambda>(i, c). ConnStop c) (dp_connections d),
        pl_shm := release_segments (dp_shm_pub d) (pl_shm w),
        pl_dp := d\<lparr>dp_stopped := True, dp_sinks := (\<lambda>_. None), dp_connections := [], dp_refcount := (\<lambda>_. None),
                   dp_shm_pub := [], dp_shm_sub_ref := (\<lambda>_. None), dp_readers := None, dp_server := None\<rparr>\<rparr>)"

definition same_host :: "data_plane \<Rightarrow> match_info \<Rightarrow> bool" where
  "same_host d m \<longleftrightarrow> dp_shm_enabled d \<and> dp_host d \<noteq> [] \<and> mi_host m = dp_host d"

definition use_shm :: "data_plane \<Rightarrow> match_info \<Rightarrow> bool" where
  "use_shm d m =
     (if \<not> same_host d m then False
      else
        (let reader = (if ep_kind (mi_local m) = SUBSCRIBER then mi_local m else mi_remote m)
         in ep_reliability reader = 0))"

text \<open>The sinks the data plane owns.\<close>

definition dp_alive :: "data_plane \<Rightarrow> sink_id \<Rightarrow> bool" where
  "dp_alive d s \<longleftrightarrow> (\<exists>k r. dp_sinks d k = Some r \<and> rs_id r = s) \<or> (\<exists>t p. sm_find (dp_shm_pub d) t = Some p \<and> sp_id p = s)"

section \<open>Inbound data and the remote sink\<close>

text \<open>\<open>parse\<close> and \<open>ser\<close> are protobuf's functions for \<open>DataMessage\<close>: topic and payload.\<close>

definition on_inbound :: "(bytes \<Rightarrow> (string \<times> bytes) option) \<Rightarrow> (sink_id \<Rightarrow> bool) \<Rightarrow> bytes \<Rightarrow> local_bus \<Rightarrow>
    (sink_id \<times> bytes) list \<times> local_bus" where
  "on_inbound parse alive payload bus =
     (case parse payload of
        None \<Rightarrow> ([], bus)
      | Some (topic, bs) \<Rightarrow>
          (let (targets, bus) = deliver_inbound alive bus topic in (map (\<lambda>t. (t, bs)) targets, bus)))"

text \<open>\<open>RemoteSink::enqueue\<close>: the frame payload handed to the connection's \<open>send\<close>, if any.\<close>

definition remote_sink_enqueue :: "(string \<times> bytes \<Rightarrow> bytes option) \<Rightarrow> remote_sink \<Rightarrow> bytes \<Rightarrow> (nat \<times> bytes) option" where
  "remote_sink_enqueue ser r bs = map_option (\<lambda>out. (rs_conn r, out)) (ser (rs_topic r, bs))"

section \<open>TCP channels\<close>

definition connection_for :: "u64 \<Rightarrow> locator \<Rightarrow> plane \<Rightarrow> nat \<times> plane" where
  "connection_for pid loc w =
     (let d = pl_dp w in
      case sm_find (dp_connections d) pid of
        Some c \<Rightarrow> (c, w)
      | None \<Rightarrow>
          (let c = dp_next_conn d in
           (c, w\<lparr>pl_calls := pl_calls w @ [ConnStart c (loc_ip loc) (ucast (loc_port loc))],
                 pl_dp := d\<lparr>dp_connections := sm_put pid c (dp_connections d), dp_next_conn := Suc c\<rparr>\<rparr>)))"

definition tcp_pub_match :: "match_info \<Rightarrow> plane \<Rightarrow> plane" where
  "tcp_pub_match m w =
     (let key = match_key m; topic = ep_topic (mi_local m) in
      if dp_sinks (pl_dp w) key \<noteq> None then w
      else
        (let (c, w) = connection_for (mi_pid m) (mi_locator m) w;
             d = pl_dp w;
             s = dp_next_sink d;
             n = (case dp_refcount d (mi_pid m) of None \<Rightarrow> 0 | Some n \<Rightarrow> n)
         in w\<lparr>pl_bus := add_remote_sink (pl_bus w) topic s,
              pl_dp := d\<lparr>dp_sinks := (dp_sinks d)(key \<mapsto> \<lparr>rs_id = s, rs_topic = topic, rs_conn = c\<rparr>),
                         dp_refcount := (dp_refcount d)(mi_pid m \<mapsto> n + 1),
                         dp_next_sink := Suc s\<rparr>\<rparr>))"

definition tcp_pub_unmatch :: "match_info \<Rightarrow> plane \<Rightarrow> plane" where
  "tcp_pub_unmatch m w =
     (let d = pl_dp w; key = match_key m; pid = mi_pid m in
      case dp_sinks d key of
        None \<Rightarrow> w
      | Some r \<Rightarrow>
          (let bus = remove_remote_sink (dp_alive d) (pl_bus w) (ep_topic (mi_local m)) (rs_id r);
               d = d\<lparr>dp_sinks := (dp_sinks d)(key := None)\<rparr>;
               n = (case dp_refcount d pid of None \<Rightarrow> 0 | Some n \<Rightarrow> n) - 1
           in if n \<le> 0 then
                (case sm_find (dp_connections d) pid of
                   None \<Rightarrow> w\<lparr>pl_bus := bus, pl_dp := d\<lparr>dp_refcount := (dp_refcount d)(pid := None)\<rparr>\<rparr>
                 | Some c \<Rightarrow>
                     w\<lparr>pl_bus := bus, pl_calls := pl_calls w @ [ConnStop c],
                       pl_dp := d\<lparr>dp_refcount := (dp_refcount d)(pid := None),
                                  dp_connections := sm_erase pid (dp_connections d)\<rparr>\<rparr>)
              else w\<lparr>pl_bus := bus, pl_dp := d\<lparr>dp_refcount := (dp_refcount d)(pid \<mapsto> n)\<rparr>\<rparr>))"

section \<open>Shared memory channels\<close>

definition shm_pub_match :: "shm_outcome \<Rightarrow> (nat \<Rightarrow> nat \<Rightarrow> char) \<Rightarrow> match_info \<Rightarrow> plane \<Rightarrow> plane" where
  "shm_pub_match oc old m w =
     (let d = pl_dp w; topic = ep_topic (mi_local m) in
      case sm_find (dp_shm_pub d) topic of
        Some p \<Rightarrow> w\<lparr>pl_dp := d\<lparr>dp_shm_pub := sm_put topic (p\<lparr>sp_ref := sp_ref p + 1\<rparr>) (dp_shm_pub d)\<rparr>\<rparr>
      | None \<Rightarrow>
          (case segment_create oc old (seg_name (dp_pid d) topic) kShmSlotCount kShmSlotCapacity (pl_shm w) of
             (None, t) \<Rightarrow> w\<lparr>pl_shm := t\<rparr>
           | (Some seg, t) \<Rightarrow>
               (let s = dp_next_sink d in
                w\<lparr>pl_shm := t, pl_bus := add_remote_sink (pl_bus w) topic s,
                  pl_dp := d\<lparr>dp_shm_pub := sm_put topic \<lparr>sp_id = s, sp_seg = seg, sp_ref = 1\<rparr> (dp_shm_pub d),
                             dp_next_sink := Suc s\<rparr>\<rparr>)))"

definition shm_pub_unmatch :: "match_info \<Rightarrow> plane \<Rightarrow> plane" where
  "shm_pub_unmatch m w =
     (let d = pl_dp w; topic = ep_topic (mi_local m) in
      case sm_find (dp_shm_pub d) topic of
        None \<Rightarrow> w
      | Some p \<Rightarrow>
          (if sp_ref p - 1 > 0 then
             w\<lparr>pl_dp := d\<lparr>dp_shm_pub := sm_put topic (p\<lparr>sp_ref := sp_ref p - 1\<rparr>) (dp_shm_pub d)\<rparr>\<rparr>
           else
             w\<lparr>pl_bus := remove_remote_sink (dp_alive d) (pl_bus w) topic (sp_id p),
               pl_shm := segment_destroy (sp_seg p) (pl_shm w),
               pl_dp := d\<lparr>dp_shm_pub := sm_erase topic (dp_shm_pub d)\<rparr>\<rparr>))"

definition shm_sub_match :: "match_info \<Rightarrow> plane \<Rightarrow> plane option" where
  "shm_sub_match m w =
     (let d = pl_dp w; topic = ep_topic (mi_local m); name = seg_name (mi_pid m) topic in
      case dp_shm_sub_ref d name of
        Some n \<Rightarrow> Some (w\<lparr>pl_dp := d\<lparr>dp_shm_sub_ref := (dp_shm_sub_ref d)(name \<mapsto> n + 1)\<rparr>\<rparr>)
      | None \<Rightarrow>
          (case dp_readers d of
             None \<Rightarrow> None
           | Some rm \<Rightarrow>
               Some (w\<lparr>pl_dp := d\<lparr>dp_readers := Some (add_reader name topic name rm),
                                  dp_shm_sub_ref := (dp_shm_sub_ref d)(name \<mapsto> 1)\<rparr>\<rparr>)))"

definition shm_sub_unmatch :: "match_info \<Rightarrow> plane \<Rightarrow> plane option" where
  "shm_sub_unmatch m w =
     (let d = pl_dp w; name = seg_name (mi_pid m) (ep_topic (mi_local m)) in
      case dp_shm_sub_ref d name of
        None \<Rightarrow> Some w
      | Some n \<Rightarrow>
          (if n - 1 > 0 then Some (w\<lparr>pl_dp := d\<lparr>dp_shm_sub_ref := (dp_shm_sub_ref d)(name \<mapsto> n - 1)\<rparr>\<rparr>)
           else
             (case dp_readers d of
                None \<Rightarrow> None
              | Some rm \<Rightarrow>
                  Some (w\<lparr>pl_dp := d\<lparr>dp_readers := Some (remove_reader name rm),
                                     dp_shm_sub_ref := (dp_shm_sub_ref d)(name := None)\<rparr>\<rparr>))))"

section \<open>Routing\<close>

definition handle_match :: "shm_outcome \<Rightarrow> (nat \<Rightarrow> nat \<Rightarrow> char) \<Rightarrow> match_info \<Rightarrow> plane \<Rightarrow> plane option" where
  "handle_match oc old m w =
     (let d = pl_dp w in
      if dp_stopped d then Some w
      else if \<not> pubsub_pair (mi_local m) (mi_remote m) then Some w
      else if ep_kind (mi_local m) = PUBLISHER then
        (if use_shm d m then Some (shm_pub_match oc old m w) else Some (tcp_pub_match m w))
      else (if use_shm d m then shm_sub_match m w else Some w))"

definition handle_unmatch :: "match_info \<Rightarrow> plane \<Rightarrow> plane option" where
  "handle_unmatch m w =
     (let d = pl_dp w in
      if dp_stopped d then Some w
      else if \<not> pubsub_pair (mi_local m) (mi_remote m) then Some w
      else if ep_kind (mi_local m) = PUBLISHER then
        (if use_shm d m then Some (shm_pub_unmatch m w) else Some (tcp_pub_unmatch m w))
      else (if use_shm d m then shm_sub_unmatch m w else Some w))"

section \<open>Reference counts\<close>

definition tally :: "('a \<Rightarrow> bool) \<Rightarrow> 'a set \<Rightarrow> nat" where
  "tally P S = card {m \<in> S. P m}"

definition count_opt :: "nat \<Rightarrow> int option" where
  "count_opt n = (if n = 0 then None else Some (int n))"

lemma tally_insert:
  assumes "finite S" "m \<notin> S"
  shows "tally P (insert m S) = (if P m then Suc (tally P S) else tally P S)"
proof -
  have "{x \<in> insert m S. P x} = (if P m then insert m {x \<in> S. P x} else {x \<in> S. P x})" by auto
  with assms show ?thesis by (simp add: tally_def)
qed

lemma tally_remove:
  assumes "finite S" "m \<in> S"
  shows "tally P S = (if P m then Suc (tally P (S - {m})) else tally P (S - {m}))"
  using tally_insert [of "S - {m}" m P] assms by (simp add: insert_absorb)

lemma tally_0: "finite S \<Longrightarrow> tally P S = 0 \<longleftrightarrow> (\<forall>m \<in> S. \<not> P m)"
  by (auto simp: tally_def)

lemma count_opt_simps [simp]:
  "count_opt 0 = None" "count_opt (Suc n) = Some (int n + 1)"
  "(case count_opt n of None \<Rightarrow> 0 | Some x \<Rightarrow> x) = int n" "count_opt n = None \<longleftrightarrow> n = 0"
  by (simp_all add: count_opt_def)

section \<open>Which channels the active matches ask for\<close>

definition wants_tcp :: "data_plane \<Rightarrow> match_info \<Rightarrow> bool" where
  "wants_tcp d m \<longleftrightarrow> pubsub_pair (mi_local m) (mi_remote m) \<and> ep_kind (mi_local m) = PUBLISHER \<and> \<not> use_shm d m"

definition wants_writer :: "data_plane \<Rightarrow> match_info \<Rightarrow> bool" where
  "wants_writer d m \<longleftrightarrow> pubsub_pair (mi_local m) (mi_remote m) \<and> ep_kind (mi_local m) = PUBLISHER \<and> use_shm d m"

definition wants_reader :: "data_plane \<Rightarrow> match_info \<Rightarrow> bool" where
  "wants_reader d m \<longleftrightarrow> pubsub_pair (mi_local m) (mi_remote m) \<and> ep_kind (mi_local m) \<noteq> PUBLISHER \<and> use_shm d m"

abbreviation topic_of :: "match_info \<Rightarrow> string" where
  "topic_of m \<equiv> ep_topic (mi_local m)"

abbreviation reader_name :: "match_info \<Rightarrow> string" where
  "reader_name m \<equiv> seg_name (mi_pid m) (topic_of m)"

text \<open>The state matches the set of active matches: one statement per kind of channel.\<close>

definition tcp_tracks :: "data_plane \<Rightarrow> match_info set \<Rightarrow> bool" where
  "tcp_tracks d S \<longleftrightarrow>
     (\<forall>k r. dp_sinks d k = Some r \<longrightarrow> (\<exists>m \<in> S. wants_tcp d m \<and> match_key m = k)) \<and>
     (\<forall>m \<in> S. wants_tcp d m \<longrightarrow> (\<exists>r. dp_sinks d (match_key m) = Some r \<and> rs_topic r = topic_of m \<and>
        sm_find (dp_connections d) (mi_pid m) = Some (rs_conn r))) \<and>
     (\<forall>p. dp_refcount d p = count_opt (tally (\<lambda>m. wants_tcp d m \<and> mi_pid m = p) S)) \<and>
     (\<forall>p. sm_find (dp_connections d) p = None \<longleftrightarrow> dp_refcount d p = None)"

definition writer_tracks :: "data_plane \<Rightarrow> match_info set \<Rightarrow> bool" where
  "writer_tracks d S \<longleftrightarrow>
     (\<forall>t. map_option sp_ref (sm_find (dp_shm_pub d) t) = count_opt (tally (\<lambda>m. wants_writer d m \<and> topic_of m = t) S))"

definition reader_tracks :: "data_plane \<Rightarrow> match_info set \<Rightarrow> bool" where
  "reader_tracks d S \<longleftrightarrow>
     (\<forall>n. dp_shm_sub_ref d n = count_opt (tally (\<lambda>m. wants_reader d m \<and> reader_name m = n) S)) \<and>
     (\<exists>rm. dp_readers d = Some rm \<and> (\<forall>n. sm_find (rm_readers rm) n = None \<longleftrightarrow> dp_shm_sub_ref d n = None))"

text \<open>Every sink of the data plane has one owner, and the bus has exactly the owned sinks.\<close>

definition owner :: "data_plane \<Rightarrow> string + string \<Rightarrow> sink_id option" where
  "owner d x = (case x of Inl k \<Rightarrow> map_option rs_id (dp_sinks d k) | Inr t \<Rightarrow> map_option sp_id (sm_find (dp_shm_pub d) t))"

definition owned :: "data_plane \<Rightarrow> string \<Rightarrow> sink_id set" where
  "owned d t = rs_id ` {r \<in> ran (dp_sinks d). rs_topic r = t} \<union> set_option (map_option sp_id (sm_find (dp_shm_pub d) t))"

definition bus_tracks :: "data_plane \<Rightarrow> local_bus \<Rightarrow> bool" where
  "bus_tracks d bus \<longleftrightarrow> (\<forall>t. set (te_remote_sinks (entry_at bus t)) = owned d t) \<and>
     (\<forall>x y i. owner d x = Some i \<longrightarrow> owner d y = Some i \<longrightarrow> x = y) \<and>
     (\<forall>x i. owner d x = Some i \<longrightarrow> i < dp_next_sink d)"

definition tracks :: "plane \<Rightarrow> match_info set \<Rightarrow> bool" where
  "tracks w S \<longleftrightarrow> \<not> dp_stopped (pl_dp w) \<and> tcp_tracks (pl_dp w) S \<and> writer_tracks (pl_dp w) S \<and>
     reader_tracks (pl_dp w) S \<and> bus_tracks (pl_dp w) (pl_bus w)"

text \<open>Sets of matches as the discovery agent reports them.\<close>

definition match_set :: "match_info set \<Rightarrow> bool" where
  "match_set S \<longleftrightarrow> finite S \<and> inj_on match_key S \<and> (\<forall>m \<in> S. ep_topic (mi_local m) = ep_topic (mi_remote m))"

text \<open>Routing depends on the identity only.\<close>

definition same_identity :: "data_plane \<Rightarrow> data_plane \<Rightarrow> bool" where
  "same_identity d d' \<longleftrightarrow> dp_shm_enabled d' = dp_shm_enabled d \<and> dp_host d' = dp_host d \<and>
     dp_pid d' = dp_pid d \<and> dp_server d' = dp_server d"

lemma wants_same:
  assumes "same_identity d d'"
  shows "wants_tcp d' = wants_tcp d" "wants_writer d' = wants_writer d" "wants_reader d' = wants_reader d"
  using assms by (simp_all add: fun_eq_iff same_identity_def wants_tcp_def wants_writer_def wants_reader_def
      use_shm_def same_host_def)

lemma tcp_tracks_cong:
  assumes "same_identity d d'" "dp_sinks d' = dp_sinks d" "dp_connections d' = dp_connections d" "dp_refcount d' = dp_refcount d"
  shows "tcp_tracks d' S = tcp_tracks d S"
  using assms by (simp add: tcp_tracks_def wants_same [OF assms(1)])

lemma writer_tracks_cong:
  assumes "same_identity d d'" "dp_shm_pub d' = dp_shm_pub d"
  shows "writer_tracks d' S = writer_tracks d S"
  using assms by (simp add: writer_tracks_def wants_same [OF assms(1)])

lemma reader_tracks_cong:
  assumes "same_identity d d'" "dp_shm_sub_ref d' = dp_shm_sub_ref d" "dp_readers d' = dp_readers d"
  shows "reader_tracks d' S = reader_tracks d S"
  using assms by (simp add: reader_tracks_def wants_same [OF assms(1)])

lemma bus_tracks_cong:
  assumes "dp_sinks d' = dp_sinks d" "map_option sp_id \<circ> sm_find (dp_shm_pub d') = map_option sp_id \<circ> sm_find (dp_shm_pub d)"
    "dp_next_sink d' = dp_next_sink d"
  shows "bus_tracks d' bus = bus_tracks d bus"
proof -
  have p: "map_option sp_id (sm_find (dp_shm_pub d') t) = map_option sp_id (sm_find (dp_shm_pub d) t)" for t
    using assms(2) by (metis comp_apply)
  have "owner d' = owner d" by (rule ext) (simp add: owner_def assms(1) p split: sum.splits)
  moreover have "owned d' = owned d" by (rule ext) (simp only: owned_def assms(1) p)
  ultimately show ?thesis using assms(3) by (simp add: bus_tracks_def)
qed

text \<open>Matches that ask for no channel of a kind do not count.\<close>

lemma tracks_other:
  assumes "finite S"
  shows "\<not> wants_tcp d m \<Longrightarrow> m \<notin> S \<Longrightarrow> tcp_tracks d (insert m S) = tcp_tracks d S"
    "\<not> wants_writer d m \<Longrightarrow> m \<notin> S \<Longrightarrow> writer_tracks d (insert m S) = writer_tracks d S"
    "\<not> wants_reader d m \<Longrightarrow> m \<notin> S \<Longrightarrow> reader_tracks d (insert m S) = reader_tracks d S"
  using assms by (simp_all add: tcp_tracks_def writer_tracks_def reader_tracks_def tally_insert)

lemma wants_disjoint:
  "wants_tcp d m \<Longrightarrow> \<not> wants_writer d m \<and> \<not> wants_reader d m"
  "wants_writer d m \<Longrightarrow> \<not> wants_tcp d m \<and> \<not> wants_reader d m"
  "wants_reader d m \<Longrightarrow> \<not> wants_tcp d m \<and> \<not> wants_writer d m"
  by (auto simp: wants_tcp_def wants_writer_def wants_reader_def)

section \<open>Each operation keeps track\<close>

lemma remote_add: "te_remote_sinks (entry_at (add_remote_sink bus t s) t') =
    (if t' = t then te_remote_sinks (entry_at bus t) @ [s] else te_remote_sinks (entry_at bus t'))"
  by (simp add: add_remote_sink_def entry_at_def Let_def)

lemma remote_remove: "te_remote_sinks (entry_at (remove_remote_sink alive bus t s) t') =
    (if t' = t then filter (\<lambda>x. alive x \<and> x \<noteq> s) (te_remote_sinks (entry_at bus t)) else te_remote_sinks (entry_at bus t'))"
  by (auto simp: remove_remote_sink_def entry_at_def new_entry_def split: option.splits)

lemma owned_alive: "i \<in> owned d t \<Longrightarrow> dp_alive d i"
  by (fastforce simp: owned_def dp_alive_def ran_def)

lemma bus_tracks_add_tcp:
  assumes "bus_tracks d bus" "dp_sinks d k = None"
    and "d' = d\<lparr>dp_sinks := (dp_sinks d)(k \<mapsto> \<lparr>rs_id = dp_next_sink d, rs_topic = t, rs_conn = c\<rparr>),
        dp_refcount := rc, dp_next_sink := Suc (dp_next_sink d)\<rparr>"
  shows "bus_tracks d' (add_remote_sink bus t (dp_next_sink d))"
proof -
  have o: "owner d' x = (if x = Inl k then Some (dp_next_sink d) else owner d x)" for x
    using assms(3) by (cases x) (auto simp: owner_def)
  let ?r = "\<lparr>rs_id = dp_next_sink d, rs_topic = t, rs_conn = c\<rparr>"
  have "{r \<in> ran (dp_sinks d'). rs_topic r = t'} =
    (if t' = t then insert ?r {r \<in> ran (dp_sinks d). rs_topic r = t} else {r \<in> ran (dp_sinks d). rs_topic r = t'})" for t'
    using assms(2,3) by (auto simp: ran_map_upd)
  then have "owned d' t' = (if t' = t then insert (dp_next_sink d) (owned d t) else owned d t')" for t'
    using assms(3) by (simp add: owned_def)
  with assms(1) have "set (te_remote_sinks (entry_at (add_remote_sink bus t (dp_next_sink d)) t')) = owned d' t'" for t'
    by (simp add: bus_tracks_def remote_add)
  moreover have "i < Suc (dp_next_sink d)" if "owner d x = Some i" for x i
    using assms(1) that by (auto simp: bus_tracks_def less_Suc_eq)
  moreover have "owner d x \<noteq> Some (dp_next_sink d)" for x
    using assms(1) by (auto simp: bus_tracks_def)
  moreover have "\<forall>x y i. owner d x = Some i \<longrightarrow> owner d y = Some i \<longrightarrow> x = y"
    using assms(1) by (simp add: bus_tracks_def)
  ultimately show ?thesis unfolding bus_tracks_def o using assms(3) by (auto split: if_splits)
qed

lemma bus_tracks_add_writer:
  assumes "bus_tracks d bus" "sm_find (dp_shm_pub d) t = None"
    and "d' = d\<lparr>dp_shm_pub := sm_put t \<lparr>sp_id = dp_next_sink d, sp_seg = g, sp_ref = 1\<rparr> (dp_shm_pub d),
        dp_next_sink := Suc (dp_next_sink d)\<rparr>"
  shows "bus_tracks d' (add_remote_sink bus t (dp_next_sink d))"
proof -
  have o: "owner d' x = (if x = Inr t then Some (dp_next_sink d) else owner d x)" for x
    using assms(3) by (cases x) (auto simp: owner_def map_of_sm_put)
  have "owned d' t' = (if t' = t then insert (dp_next_sink d) (owned d t) else owned d t')" for t'
    using assms(2,3) by (auto simp: owned_def map_of_sm_put)
  with assms(1) have "set (te_remote_sinks (entry_at (add_remote_sink bus t (dp_next_sink d)) t')) = owned d' t'" for t'
    by (simp add: bus_tracks_def remote_add)
  moreover have "i < Suc (dp_next_sink d)" if "owner d x = Some i" for x i
    using assms(1) that by (auto simp: bus_tracks_def less_Suc_eq)
  moreover have "owner d x \<noteq> Some (dp_next_sink d)" for x
    using assms(1) by (auto simp: bus_tracks_def)
  moreover have "\<forall>x y i. owner d x = Some i \<longrightarrow> owner d y = Some i \<longrightarrow> x = y"
    using assms(1) by (simp add: bus_tracks_def)
  ultimately show ?thesis unfolding bus_tracks_def o using assms(3) by (auto split: if_splits)
qed

text \<open>Removing the owner \<open>x\<close> of a sink of topic \<open>t\<close>, and the sink from the bus.\<close>

lemma bus_tracks_remove:
  assumes "bus_tracks d bus" "owner d x = Some i" "i \<in> owned d t"
    and "\<forall>y. owner d' y = (if y = x then None else owner d y)" "dp_next_sink d' = dp_next_sink d"
    and "\<forall>t'. owned d' t' = (if t' = t then owned d t - {i} else owned d t')"
  shows "bus_tracks d' (remove_remote_sink (dp_alive d) bus t i)"
proof -
  have s: "set (te_remote_sinks (entry_at bus t')) = owned d t'" for t' using assms(1) by (simp add: bus_tracks_def)
  have "set (te_remote_sinks (entry_at (remove_remote_sink (dp_alive d) bus t i) t')) = owned d' t'" for t'
    using assms(6) s owned_alive [of _ d t] by (auto simp: remote_remove)
  with assms(1,4,5) show ?thesis by (auto simp: bus_tracks_def split: if_splits)
qed


lemma connection_for_dp:
  assumes "connection_for pid loc w = (c, w')"
  shows "pl_dp w' = (pl_dp w)\<lparr>dp_connections := dp_connections (pl_dp w'), dp_next_conn := dp_next_conn (pl_dp w')\<rparr>"
    "sm_find (dp_connections (pl_dp w')) = (sm_find (dp_connections (pl_dp w)))(pid \<mapsto> c)" "pl_bus w' = pl_bus w"
  using assms by (auto simp: connection_for_def Let_def map_of_sm_put fun_eq_iff split: option.splits)

lemma tcp_match_tracks:
  assumes "tracks w S" "match_set (insert m S)" "m \<notin> S" "wants_tcp (pl_dp w) m"
  shows "tracks (tcp_pub_match m w) (insert m S)"
proof -
  let ?d = "pl_dp w" and ?k = "match_key m"
  from assms(2) have fin: "finite S" and inj: "\<forall>x \<in> S. match_key x \<noteq> ?k"
    using assms(3) by (auto simp: match_set_def inj_on_def)
  from assms(1) have t: "tcp_tracks ?d S" "bus_tracks ?d (pl_bus w)" by (simp_all add: tracks_def)
  have new: "dp_sinks ?d ?k = None"
    using t(1) inj unfolding tcp_tracks_def by (metis not_None_eq)
  obtain c w1 where c: "connection_for (mi_pid m) (mi_locator m) w = (c, w1)" by (cases "connection_for (mi_pid m) (mi_locator m) w")
  note cf = connection_for_dp [OF c]
  obtain cs nc where d1: "pl_dp w1 = ?d\<lparr>dp_connections := cs, dp_next_conn := nc\<rparr>" using cf(1) by blast
  have cs: "sm_find cs = (sm_find (dp_connections ?d))(mi_pid m \<mapsto> c)" using cf(2) d1 by simp
  let ?n = "tally (\<lambda>x. wants_tcp ?d x \<and> mi_pid x = mi_pid m) S"
  have rc: "(case dp_refcount ?d (mi_pid m) of None \<Rightarrow> 0 | Some n \<Rightarrow> n) = int ?n"
    using t(1) by (simp add: tcp_tracks_def)
  define d' where "d' = (?d\<lparr>dp_connections := cs, dp_next_conn := nc\<rparr>)
    \<lparr>dp_sinks := (dp_sinks ?d)(?k \<mapsto> \<lparr>rs_id = dp_next_sink ?d, rs_topic = topic_of m, rs_conn = c\<rparr>),
     dp_refcount := (dp_refcount ?d)(mi_pid m \<mapsto> int ?n + 1), dp_next_sink := Suc (dp_next_sink ?d)\<rparr>"
  have w': "pl_dp (tcp_pub_match m w) = d'" "pl_bus (tcp_pub_match m w) = add_remote_sink (pl_bus w) (topic_of m) (dp_next_sink ?d)"
    using new c d1 cf(3) rc by (simp_all add: tcp_pub_match_def Let_def d'_def)
  have si: "same_identity ?d d'" by (simp add: same_identity_def d'_def)
  have f: "dp_shm_pub d' = dp_shm_pub ?d" "dp_shm_sub_ref d' = dp_shm_sub_ref ?d" "dp_readers d' = dp_readers ?d"
    "dp_stopped d' = dp_stopped ?d" by (simp_all add: d'_def)
  have "bus_tracks (?d\<lparr>dp_connections := cs, dp_next_conn := nc\<rparr>) (pl_bus w)"
    using t(2) by (subst bus_tracks_cong) simp_all
  then have "bus_tracks d' (add_remote_sink (pl_bus w) (topic_of m) (dp_next_sink ?d))"
    using bus_tracks_add_tcp [of "?d\<lparr>dp_connections := cs, dp_next_conn := nc\<rparr>" "pl_bus w" ?k d'] new
    by (simp add: d'_def)
  moreover have "tcp_tracks d' (insert m S)"
  proof -
    have "\<exists>r. dp_sinks d' (match_key x) = Some r \<and> rs_topic r = topic_of x \<and> sm_find cs (mi_pid x) = Some (rs_conn r)"
      if "x \<in> S" "wants_tcp ?d x" for x
    proof -
      from t(1) that obtain r where r: "dp_sinks ?d (match_key x) = Some r" "rs_topic r = topic_of x"
        "sm_find (dp_connections ?d) (mi_pid x) = Some (rs_conn r)" unfolding tcp_tracks_def by blast
      moreover have "c = rs_conn r" if "mi_pid x = mi_pid m"
        using c r(3) that by (auto simp: connection_for_def Let_def)
      ultimately show ?thesis using inj that cs by (auto simp: d'_def)
    qed
    moreover have "\<exists>x \<in> insert m S. wants_tcp ?d x \<and> match_key x = k" if "dp_sinks d' k = Some r" for k r
      using that t(1) assms(4) unfolding tcp_tracks_def by (auto simp: d'_def split: if_splits)
    ultimately show ?thesis
      using assms(3,4) fin t(1) cs unfolding tcp_tracks_def wants_same [OF si]
      by (auto simp: d'_def tally_insert)
  qed
  ultimately show ?thesis
    using assms(1) fin assms(3) wants_disjoint(1) [OF assms(4)]
      writer_tracks_cong [OF si f(1)] reader_tracks_cong [OF si f(2,3)]
    by (simp add: tracks_def w' f tracks_other)
qed


lemma ran_remove:
  assumes "m k = Some r" "\<And>k' q. m k' = Some q \<Longrightarrow> f q = f r \<Longrightarrow> k' = k"
  shows "ran (m(k := None)) = {q \<in> ran m. f q \<noteq> f r}"
proof -
  have a: "q \<in> ran (m(k := None)) \<longleftrightarrow> (\<exists>k'. k' \<noteq> k \<and> m k' = Some q)" for q by (auto simp: ran_def)
  have b: "(\<exists>k'. k' \<noteq> k \<and> m k' = Some q) \<longleftrightarrow> (\<exists>k'. m k' = Some q) \<and> f q \<noteq> f r" for q
    using assms by (metis option.inject)
  have c: "q \<in> ran m \<longleftrightarrow> (\<exists>k'. m k' = Some q)" for q by (simp add: ran_def)
  show ?thesis by (rule set_eqI) (simp only: a b c mem_Collect_eq)
qed

lemma match_set_remove:
  assumes "match_set S" "m \<in> S"
  shows "finite S" "\<forall>x \<in> S - {m}. match_key x \<noteq> match_key m" "match_set (S - {m})"
  using assms by (auto simp: match_set_def inj_on_def)

lemma tracks_other_remove:
  assumes "finite S" "m \<in> S"
  shows "\<not> wants_tcp d m \<Longrightarrow> tcp_tracks d (S - {m}) = tcp_tracks d S"
    "\<not> wants_writer d m \<Longrightarrow> writer_tracks d (S - {m}) = writer_tracks d S"
    "\<not> wants_reader d m \<Longrightarrow> reader_tracks d (S - {m}) = reader_tracks d S"
  using tracks_other [of "S - {m}" d m] assms by (simp_all add: insert_absorb)

lemma tcp_unmatch_tracks:
  assumes "tracks w S" "match_set S" "m \<in> S" "wants_tcp (pl_dp w) m"
  shows "tracks (tcp_pub_unmatch m w) (S - {m})"
proof -
  let ?d = "pl_dp w" and ?k = "match_key m" and ?p = "mi_pid m"
  note ms = match_set_remove [OF assms(2,3)]
  from assms(1) have t: "tcp_tracks ?d S" "bus_tracks ?d (pl_bus w)" by (simp_all add: tracks_def)
  obtain r where r: "dp_sinks ?d ?k = Some r" "rs_topic r = topic_of m"
    "sm_find (dp_connections ?d) ?p = Some (rs_conn r)"
    using t(1) assms(3,4) unfolding tcp_tracks_def by blast
  let ?n = "tally (\<lambda>x. wants_tcp ?d x \<and> mi_pid x = ?p) (S - {m})"
  have rc: "dp_refcount ?d ?p = Some (int ?n + 1)"
    using t(1) tally_remove [OF ms(1) assms(3), of "\<lambda>x. wants_tcp ?d x \<and> mi_pid x = ?p"] assms(4)
    by (simp add: tcp_tracks_def)
  define d' where "d' = ?d\<lparr>dp_sinks := (dp_sinks ?d)(?k := None),
      dp_refcount := (dp_refcount ?d)(?p := count_opt ?n),
      dp_connections := (if ?n = 0 then sm_erase ?p (dp_connections ?d) else dp_connections ?d)\<rparr>"
  have w': "pl_dp (tcp_pub_unmatch m w) = d'"
    "pl_bus (tcp_pub_unmatch m w) = remove_remote_sink (dp_alive ?d) (pl_bus w) (topic_of m) (rs_id r)"
    using r rc by (auto simp: tcp_pub_unmatch_def Let_def d'_def count_opt_def)
  have si: "same_identity ?d d'" by (simp add: same_identity_def d'_def)
  have f: "dp_shm_pub d' = dp_shm_pub ?d" "dp_shm_sub_ref d' = dp_shm_sub_ref ?d" "dp_readers d' = dp_readers ?d"
    "dp_stopped d' = dp_stopped ?d" "dp_next_sink d' = dp_next_sink ?d" by (simp_all add: d'_def)
  have o: "owner ?d (Inl ?k) = Some (rs_id r)" using r by (simp add: owner_def)
  have uniq: "\<forall>x. owner ?d x = Some (rs_id r) \<longrightarrow> x = Inl ?k"
    using t(2) o unfolding bus_tracks_def by blast
  have "bus_tracks d' (remove_remote_sink (dp_alive ?d) (pl_bus w) (topic_of m) (rs_id r))"
  proof (rule bus_tracks_remove [OF t(2) o])
    show "rs_id r \<in> owned ?d (topic_of m)" using r by (auto simp: owned_def ran_def)
    show "\<forall>y. owner d' y = (if y = Inl ?k then None else owner ?d y)"
      by (auto simp: owner_def d'_def split: sum.splits)
    have k: "k = ?k" if "dp_sinks ?d k = Some q" "rs_id q = rs_id r" for k q
      using uniq [rule_format, of "Inl k"] that by (simp add: owner_def)
    have "{q \<in> ran (dp_sinks d'). rs_topic q = t'} = {q \<in> ran (dp_sinks ?d). rs_topic q = t' \<and> rs_id q \<noteq> rs_id r}" for t'
      using ran_remove [of "dp_sinks ?d" ?k r rs_id, OF r(1)] k by (auto simp: d'_def)
    moreover have "sp_id q \<noteq> rs_id r" if "sm_find (dp_shm_pub ?d) t' = Some q" for t' q
      using uniq [rule_format, of "Inr t'"] that by (auto simp: owner_def)
    moreover have "rs_topic q = topic_of m" if "q \<in> ran (dp_sinks ?d)" "rs_id q = rs_id r" for q
      using k r that by (force simp: ran_def)
    ultimately show "\<forall>t'. owned d' t' = (if t' = topic_of m then owned ?d (topic_of m) - {rs_id r} else owned ?d t')"
      unfolding owned_def f(1) by (auto split: if_splits)
  qed (simp add: f)
  moreover have "tcp_tracks d' (S - {m})"
  proof -
    have "tally (\<lambda>x. wants_tcp ?d x \<and> mi_pid x = p) (S - {m}) = tally (\<lambda>x. wants_tcp ?d x \<and> mi_pid x = p) S"
      if "p \<noteq> ?p" for p using tally_remove [OF ms(1) assms(3), of "\<lambda>x. wants_tcp ?d x \<and> mi_pid x = p"] that by simp
    then have "\<forall>p. dp_refcount d' p = count_opt (tally (\<lambda>x. wants_tcp ?d x \<and> mi_pid x = p) (S - {m}))"
      using t(1) by (simp add: d'_def tcp_tracks_def)
    moreover have "\<forall>p. sm_find (dp_connections d') p = None \<longleftrightarrow> dp_refcount d' p = None"
    proof -
      have "\<forall>p. sm_find (dp_connections ?d) p = None \<longleftrightarrow> dp_refcount ?d p = None"
        using t(1) unfolding tcp_tracks_def by blast
      with rc show ?thesis by (auto simp: d'_def map_of_sm_erase)
    qed
    moreover have "\<exists>x \<in> S - {m}. wants_tcp ?d x \<and> match_key x = k" if "dp_sinks d' k = Some q" for k q
      using that t(1) unfolding tcp_tracks_def by (auto simp: d'_def split: if_splits)
    moreover have "\<exists>q. dp_sinks d' (match_key x) = Some q \<and> rs_topic q = topic_of x \<and>
        sm_find (dp_connections d') (mi_pid x) = Some (rs_conn q)" if "x \<in> S - {m}" "wants_tcp ?d x" for x
    proof -
      have "mi_pid x \<noteq> ?p" if "?n = 0"
        using that \<open>x \<in> S - {m}\<close> \<open>wants_tcp ?d x\<close> ms(1)
          tally_0 [of "S - {m}" "\<lambda>x. wants_tcp ?d x \<and> mi_pid x = ?p"] by simp
      moreover from t(1) that obtain q where "dp_sinks ?d (match_key x) = Some q" "rs_topic q = topic_of x"
        "sm_find (dp_connections ?d) (mi_pid x) = Some (rs_conn q)" unfolding tcp_tracks_def by blast
      moreover from that(1) ms(2) have "match_key x \<noteq> ?k" by blast
      ultimately show ?thesis by (simp add: d'_def map_of_sm_erase)
    qed
    ultimately show ?thesis unfolding tcp_tracks_def wants_same [OF si] by blast
  qed
  ultimately show ?thesis
    using assms(1) tracks_other_remove [OF ms(1) assms(3)] wants_disjoint(1) [OF assms(4)]
      writer_tracks_cong [OF si f(1)] reader_tracks_cong [OF si f(2,3)]
    by (simp add: tracks_def w' f)
qed

lemma create_all_ok: "\<exists>g t'. segment_create all_ok old name n sz t = (Some g, t')"
  by (simp add: segment_create_def all_ok_def split_beta Let_def)

lemma writer_match_tracks:
  assumes "tracks w S" "match_set (insert m S)" "m \<notin> S" "wants_writer (pl_dp w) m"
  shows "tracks (shm_pub_match all_ok old m w) (insert m S)"
proof -
  let ?d = "pl_dp w" and ?t = "topic_of m"
  let ?n = "tally (\<lambda>x. wants_writer ?d x \<and> topic_of x = ?t) S"
  from assms(2) have fin: "finite S" by (simp add: match_set_def)
  from assms(1) have t: "writer_tracks ?d S" "bus_tracks ?d (pl_bus w)" by (simp_all add: tracks_def)
  have others: "tcp_tracks d' (insert m S)" "reader_tracks d' (insert m S)"
    if "same_identity ?d d'" "dp_sinks d' = dp_sinks ?d" "dp_connections d' = dp_connections ?d" "dp_refcount d' = dp_refcount ?d"
      "dp_shm_sub_ref d' = dp_shm_sub_ref ?d" "dp_readers d' = dp_readers ?d" for d'
    using assms(1,3) fin that wants_disjoint(2) [OF assms(4)] tracks_other [OF fin, of ?d m]
      tcp_tracks_cong [OF that(1-4)] reader_tracks_cong [OF that(1,5,6)] by (simp_all add: tracks_def)
  have wt: "writer_tracks d' (insert m S)"
    if "same_identity ?d d'" "\<forall>t. map_option sp_ref (sm_find (dp_shm_pub d') t) =
      (if t = ?t then Some (int ?n + 1) else map_option sp_ref (sm_find (dp_shm_pub ?d) t))" for d'
    using that t(1) assms(3,4) fin unfolding writer_tracks_def wants_same [OF that(1)] by (simp add: tally_insert)
  have ref: "map_option sp_ref (sm_find (dp_shm_pub ?d) ?t) = count_opt ?n" using t(1) by (simp add: writer_tracks_def)
  show ?thesis
  proof (cases "sm_find (dp_shm_pub ?d) ?t")
    case None
    obtain g tb where g: "segment_create all_ok old (seg_name (dp_pid ?d) ?t) kShmSlotCount kShmSlotCapacity (pl_shm w) = (Some g, tb)"
      using create_all_ok by blast
    define d' where "d' = ?d\<lparr>dp_shm_pub := sm_put ?t \<lparr>sp_id = dp_next_sink ?d, sp_seg = g, sp_ref = 1\<rparr> (dp_shm_pub ?d),
        dp_next_sink := Suc (dp_next_sink ?d)\<rparr>"
    have w': "pl_dp (shm_pub_match all_ok old m w) = d'"
      "pl_bus (shm_pub_match all_ok old m w) = add_remote_sink (pl_bus w) ?t (dp_next_sink ?d)"
      using None g by (simp_all add: shm_pub_match_def Let_def d'_def)
    have "bus_tracks d' (add_remote_sink (pl_bus w) ?t (dp_next_sink ?d))"
      by (rule bus_tracks_add_writer [OF t(2) None d'_def])
    moreover have "?n = 0" using ref None by (simp add: count_opt_def split: if_splits)
    then have "writer_tracks d' (insert m S)" by (intro wt) (auto simp: d'_def same_identity_def map_of_sm_put)
    moreover have "tcp_tracks d' (insert m S)" "reader_tracks d' (insert m S)"
      by (intro others; simp add: d'_def same_identity_def)+
    moreover have "\<not> dp_stopped d'" using assms(1) by (simp add: tracks_def d'_def)
    ultimately show ?thesis by (simp add: tracks_def w')
  next
    case (Some p)
    define d' where "d' = ?d\<lparr>dp_shm_pub := sm_put ?t (p\<lparr>sp_ref := sp_ref p + 1\<rparr>) (dp_shm_pub ?d)\<rparr>"
    have w': "pl_dp (shm_pub_match all_ok old m w) = d'" "pl_bus (shm_pub_match all_ok old m w) = pl_bus w"
      using Some by (simp_all add: shm_pub_match_def Let_def d'_def)
    have "sp_ref p = int ?n" using ref Some by (simp add: count_opt_def split: if_splits)
    then have "writer_tracks d' (insert m S)" by (intro wt) (auto simp: d'_def same_identity_def map_of_sm_put)
    moreover have "bus_tracks d' (pl_bus w)"
      using t(2) Some by (subst bus_tracks_cong) (auto simp: d'_def map_of_sm_put fun_eq_iff)
    moreover have "tcp_tracks d' (insert m S)" "reader_tracks d' (insert m S)"
      by (intro others; simp add: d'_def same_identity_def)+
    moreover have "\<not> dp_stopped d'" using assms(1) by (simp add: tracks_def d'_def)
    ultimately show ?thesis by (simp add: tracks_def w')
  qed
qed


lemma writer_unmatch_tracks:
  assumes "tracks w S" "match_set S" "m \<in> S" "wants_writer (pl_dp w) m"
  shows "tracks (shm_pub_unmatch m w) (S - {m})"
proof -
  let ?d = "pl_dp w" and ?t = "topic_of m"
  let ?n = "tally (\<lambda>x. wants_writer ?d x \<and> topic_of x = ?t) (S - {m})"
  note ms = match_set_remove [OF assms(2,3)]
  from assms(1) have t: "writer_tracks ?d S" "bus_tracks ?d (pl_bus w)" by (simp_all add: tracks_def)
  have others: "tcp_tracks d' (S - {m})" "reader_tracks d' (S - {m})"
    if "same_identity ?d d'" "dp_sinks d' = dp_sinks ?d" "dp_connections d' = dp_connections ?d" "dp_refcount d' = dp_refcount ?d"
      "dp_shm_sub_ref d' = dp_shm_sub_ref ?d" "dp_readers d' = dp_readers ?d" for d'
    using assms(1) wants_disjoint(2) [OF assms(4)] tracks_other_remove [OF ms(1) assms(3), of ?d]
      tcp_tracks_cong [OF that(1-4)] reader_tracks_cong [OF that(1,5,6)] by (simp_all add: tracks_def)
  have wt: "writer_tracks d' (S - {m})"
    if "same_identity ?d d'" "\<forall>t. map_option sp_ref (sm_find (dp_shm_pub d') t) =
      (if t = ?t then count_opt ?n else map_option sp_ref (sm_find (dp_shm_pub ?d) t))" for d'
  proof -
    have "tally (\<lambda>x. wants_writer ?d x \<and> topic_of x = t) (S - {m}) = tally (\<lambda>x. wants_writer ?d x \<and> topic_of x = t) S"
      if "t \<noteq> ?t" for t using tally_remove [OF ms(1) assms(3), of "\<lambda>x. wants_writer ?d x \<and> topic_of x = t"] that by simp
    with that t(1) show ?thesis unfolding writer_tracks_def wants_same [OF that(1)] by simp
  qed
  have "map_option sp_ref (sm_find (dp_shm_pub ?d) ?t) = Some (int ?n + 1)"
    using t(1) assms(4) tally_remove [OF ms(1) assms(3), of "\<lambda>x. wants_writer ?d x \<and> topic_of x = ?t"]
    by (simp add: writer_tracks_def)
  then obtain p where p: "sm_find (dp_shm_pub ?d) ?t = Some p" "sp_ref p = int ?n + 1" by auto
  show ?thesis
  proof (cases "?n = 0")
    case False
    define d' where "d' = ?d\<lparr>dp_shm_pub := sm_put ?t (p\<lparr>sp_ref := int ?n\<rparr>) (dp_shm_pub ?d)\<rparr>"
    have w': "pl_dp (shm_pub_unmatch m w) = d'" "pl_bus (shm_pub_unmatch m w) = pl_bus w"
      using p False by (simp_all add: shm_pub_unmatch_def Let_def d'_def)
    have "writer_tracks d' (S - {m})"
      using False by (intro wt) (auto simp: d'_def same_identity_def map_of_sm_put count_opt_def)
    moreover have "bus_tracks d' (pl_bus w)"
      using t(2) p by (subst bus_tracks_cong) (auto simp: d'_def map_of_sm_put fun_eq_iff)
    moreover have "tcp_tracks d' (S - {m})" "reader_tracks d' (S - {m})"
      by (intro others; simp add: d'_def same_identity_def)+
    moreover have "\<not> dp_stopped d'" using assms(1) by (simp add: tracks_def d'_def)
    ultimately show ?thesis by (simp add: tracks_def w')
  next
    case True
    define d' where "d' = ?d\<lparr>dp_shm_pub := sm_erase ?t (dp_shm_pub ?d)\<rparr>"
    have w': "pl_dp (shm_pub_unmatch m w) = d'"
      "pl_bus (shm_pub_unmatch m w) = remove_remote_sink (dp_alive ?d) (pl_bus w) ?t (sp_id p)"
      using p True by (simp_all add: shm_pub_unmatch_def Let_def d'_def)
    have o: "owner ?d (Inr ?t) = Some (sp_id p)" using p by (simp add: owner_def)
    have uniq: "\<forall>x. owner ?d x = Some (sp_id p) \<longrightarrow> x = Inr ?t" using t(2) o unfolding bus_tracks_def by blast
    have "bus_tracks d' (remove_remote_sink (dp_alive ?d) (pl_bus w) ?t (sp_id p))"
    proof (rule bus_tracks_remove [OF t(2) o])
      show "sp_id p \<in> owned ?d ?t" using p by (simp add: owned_def)
      show "\<forall>y. owner d' y = (if y = Inr ?t then None else owner ?d y)"
        by (auto simp: owner_def d'_def map_of_sm_erase split: sum.splits)
      have "rs_id r \<noteq> sp_id p" if "r \<in> ran (dp_sinks ?d)" for r
      proof -
        from that obtain k where k: "dp_sinks ?d k = Some r" by (auto simp: ran_def)
        show ?thesis
        proof
          assume "rs_id r = sp_id p"
          with k have "owner ?d (Inl k) = Some (sp_id p)" by (simp add: owner_def)
          with uniq show False by blast
        qed
      qed
      moreover have "sp_id q \<noteq> sp_id p" if "sm_find (dp_shm_pub ?d) t' = Some q" "t' \<noteq> ?t" for t' q
      proof
        assume "sp_id q = sp_id p"
        with that(1) have "owner ?d (Inr t') = Some (sp_id p)" by (simp add: owner_def)
        with uniq that(2) show False by blast
      qed
      ultimately show "\<forall>t'. owned d' t' = (if t' = ?t then owned ?d ?t - {sp_id p} else owned ?d t')"
        using p(1) by (auto simp: owned_def d'_def map_of_sm_erase)
    qed (simp add: d'_def)
    moreover have "writer_tracks d' (S - {m})"
      using True by (intro wt) (auto simp: d'_def same_identity_def map_of_sm_erase)
    moreover have "tcp_tracks d' (S - {m})" "reader_tracks d' (S - {m})"
      by (intro others; simp add: d'_def same_identity_def)+
    moreover have "\<not> dp_stopped d'" using assms(1) by (simp add: tracks_def d'_def)
    ultimately show ?thesis by (simp add: tracks_def w')
  qed
qed


lemma find_add_reader: "sm_find (rm_readers (add_reader n t g rm)) k = None \<longleftrightarrow> k \<noteq> n \<and> sm_find (rm_readers rm) k = None"
  by (auto simp: add_reader_def map_of_sm_put)

lemma find_remove_reader: "sm_find (rm_readers (remove_reader n rm)) k = None \<longleftrightarrow> k = n \<or> sm_find (rm_readers rm) k = None"
  by (auto simp: remove_reader_def map_of_sm_erase)

lemma reader_match_tracks:
  assumes "tracks w S" "match_set (insert m S)" "m \<notin> S" "wants_reader (pl_dp w) m"
  shows "\<exists>w'. shm_sub_match m w = Some w' \<and> tracks w' (insert m S)"
proof -
  let ?d = "pl_dp w" and ?k = "reader_name m"
  let ?n = "tally (\<lambda>x. wants_reader ?d x \<and> reader_name x = ?k) S"
  from assms(2) have fin: "finite S" by (simp add: match_set_def)
  from assms(1) have t: "reader_tracks ?d S" "bus_tracks ?d (pl_bus w)" by (simp_all add: tracks_def)
  then obtain rm where rm: "dp_readers ?d = Some rm" "\<forall>n. sm_find (rm_readers rm) n = None \<longleftrightarrow> dp_shm_sub_ref ?d n = None"
    unfolding reader_tracks_def by blast
  have ref: "dp_shm_sub_ref ?d ?k = count_opt ?n" using t(1) by (simp add: reader_tracks_def)
  define d' where "d' = ?d\<lparr>dp_readers := Some (if ?n = 0 then add_reader ?k (topic_of m) ?k rm else rm),
      dp_shm_sub_ref := (dp_shm_sub_ref ?d)(?k \<mapsto> int ?n + 1)\<rparr>"
  have w': "shm_sub_match m w = Some (w\<lparr>pl_dp := d'\<rparr>)"
    using ref rm(1) by (auto simp: shm_sub_match_def Let_def d'_def count_opt_def)
  have si: "same_identity ?d d'" by (simp add: same_identity_def d'_def)
  have "\<forall>n. dp_shm_sub_ref d' n = count_opt (tally (\<lambda>x. wants_reader ?d x \<and> reader_name x = n) (insert m S))"
    using t(1) fin assms(3,4) by (simp add: d'_def reader_tracks_def tally_insert)
  moreover have "\<forall>n. sm_find (rm_readers (if ?n = 0 then add_reader ?k (topic_of m) ?k rm else rm)) n = None \<longleftrightarrow>
    dp_shm_sub_ref d' n = None"
    using rm(2) ref by (auto simp: d'_def find_add_reader)
  ultimately have "reader_tracks d' (insert m S)"
    unfolding reader_tracks_def wants_same [OF si] by (simp add: d'_def)
  moreover have "bus_tracks d' (pl_bus w)" using t(2) by (subst bus_tracks_cong) (simp_all add: d'_def)
  moreover have "tcp_tracks d' (insert m S)"
    using assms(1,3) tcp_tracks_cong [OF si, of "insert m S"] tracks_other(1) [OF fin] wants_disjoint(3) [OF assms(4)]
    by (simp add: tracks_def d'_def)
  moreover have "writer_tracks d' (insert m S)"
    using assms(1,3) writer_tracks_cong [OF si, of "insert m S"] tracks_other(2) [OF fin] wants_disjoint(3) [OF assms(4)]
    by (simp add: tracks_def d'_def)
  moreover have "\<not> dp_stopped d'" using assms(1) by (simp add: tracks_def d'_def)
  ultimately show ?thesis by (simp add: w' tracks_def)
qed

lemma reader_unmatch_tracks:
  assumes "tracks w S" "match_set S" "m \<in> S" "wants_reader (pl_dp w) m"
  shows "\<exists>w'. shm_sub_unmatch m w = Some w' \<and> tracks w' (S - {m})"
proof -
  let ?d = "pl_dp w" and ?k = "reader_name m"
  let ?n = "tally (\<lambda>x. wants_reader ?d x \<and> reader_name x = ?k) (S - {m})"
  note ms = match_set_remove [OF assms(2,3)]
  from assms(1) have t: "reader_tracks ?d S" "bus_tracks ?d (pl_bus w)" by (simp_all add: tracks_def)
  then obtain rm where rm: "dp_readers ?d = Some rm" "\<forall>n. sm_find (rm_readers rm) n = None \<longleftrightarrow> dp_shm_sub_ref ?d n = None"
    unfolding reader_tracks_def by blast
  have ref: "dp_shm_sub_ref ?d ?k = Some (int ?n + 1)"
    using t(1) assms(4) tally_remove [OF ms(1) assms(3), of "\<lambda>x. wants_reader ?d x \<and> reader_name x = ?k"]
    by (simp add: reader_tracks_def)
  define d' where "d' = ?d\<lparr>dp_readers := Some (if ?n = 0 then remove_reader ?k rm else rm),
      dp_shm_sub_ref := (dp_shm_sub_ref ?d)(?k := count_opt ?n)\<rparr>"
  have w': "shm_sub_unmatch m w = Some (w\<lparr>pl_dp := d'\<rparr>)"
    using ref rm(1) by (auto simp: shm_sub_unmatch_def Let_def d'_def count_opt_def)
  have si: "same_identity ?d d'" by (simp add: same_identity_def d'_def)
  have "tally (\<lambda>x. wants_reader ?d x \<and> reader_name x = n) (S - {m}) = tally (\<lambda>x. wants_reader ?d x \<and> reader_name x = n) S"
    if "n \<noteq> ?k" for n using tally_remove [OF ms(1) assms(3), of "\<lambda>x. wants_reader ?d x \<and> reader_name x = n"] that by simp
  then have "\<forall>n. dp_shm_sub_ref d' n = count_opt (tally (\<lambda>x. wants_reader ?d x \<and> reader_name x = n) (S - {m}))"
    using t(1) by (simp add: d'_def reader_tracks_def)
  moreover have "\<forall>n. sm_find (rm_readers (if ?n = 0 then remove_reader ?k rm else rm)) n = None \<longleftrightarrow> dp_shm_sub_ref d' n = None"
    using rm(2) ref by (auto simp: d'_def find_remove_reader)
  ultimately have "reader_tracks d' (S - {m})"
    unfolding reader_tracks_def wants_same [OF si] by (simp add: d'_def)
  moreover have "bus_tracks d' (pl_bus w)" using t(2) by (subst bus_tracks_cong) (simp_all add: d'_def)
  moreover have "tcp_tracks d' (S - {m})"
    using assms(1) tcp_tracks_cong [OF si, of "S - {m}"] tracks_other_remove(1) [OF ms(1) assms(3)] wants_disjoint(3) [OF assms(4)]
    by (simp add: tracks_def d'_def)
  moreover have "writer_tracks d' (S - {m})"
    using assms(1) writer_tracks_cong [OF si, of "S - {m}"] tracks_other_remove(2) [OF ms(1) assms(3)] wants_disjoint(3) [OF assms(4)]
    by (simp add: tracks_def d'_def)
  moreover have "\<not> dp_stopped d'" using assms(1) by (simp add: tracks_def d'_def)
  ultimately show ?thesis by (simp add: w' tracks_def)
qed

section \<open>Following the callbacks\<close>

lemma handle_match_tracks:
  assumes "tracks w S" "match_set (insert m S)" "m \<notin> S"
  shows "\<exists>w'. handle_match all_ok old m w = Some w' \<and> tracks w' (insert m S)"
proof -
  let ?d = "pl_dp w"
  have ns: "\<not> dp_stopped ?d" using assms(1) by (simp add: tracks_def)
  have fin: "finite S" using assms(2) by (simp add: match_set_def)
  consider "wants_tcp ?d m" | "wants_writer ?d m" | "wants_reader ?d m"
    | "\<not> wants_tcp ?d m" "\<not> wants_writer ?d m" "\<not> wants_reader ?d m" by blast
  then show ?thesis
  proof cases
    case 1
    with ns tcp_match_tracks [OF assms 1] show ?thesis by (simp add: handle_match_def wants_tcp_def)
  next
    case 2
    with ns writer_match_tracks [OF assms 2] show ?thesis by (simp add: handle_match_def wants_writer_def)
  next
    case 3
    with ns reader_match_tracks [OF assms 3] show ?thesis by (simp add: handle_match_def wants_reader_def)
  next
    case 4
    then have "handle_match all_ok old m w = Some w"
      by (auto simp: handle_match_def wants_tcp_def wants_writer_def wants_reader_def Let_def)
    with 4 assms fin tracks_other [OF fin, of ?d m] show ?thesis by (simp add: tracks_def)
  qed
qed

lemma handle_unmatch_tracks:
  assumes "tracks w S" "match_set S" "m \<in> S"
  shows "\<exists>w'. handle_unmatch m w = Some w' \<and> tracks w' (S - {m})"
proof -
  let ?d = "pl_dp w"
  have ns: "\<not> dp_stopped ?d" using assms(1) by (simp add: tracks_def)
  have fin: "finite S" using assms(2) by (simp add: match_set_def)
  consider "wants_tcp ?d m" | "wants_writer ?d m" | "wants_reader ?d m"
    | "\<not> wants_tcp ?d m" "\<not> wants_writer ?d m" "\<not> wants_reader ?d m" by blast
  then show ?thesis
  proof cases
    case 1
    with ns tcp_unmatch_tracks [OF assms 1] show ?thesis by (simp add: handle_unmatch_def wants_tcp_def)
  next
    case 2
    with ns writer_unmatch_tracks [OF assms 2] show ?thesis by (simp add: handle_unmatch_def wants_writer_def)
  next
    case 3
    with ns reader_unmatch_tracks [OF assms 3] show ?thesis by (simp add: handle_unmatch_def wants_reader_def)
  next
    case 4
    then have "handle_unmatch m w = Some w"
      by (auto simp: handle_unmatch_def wants_tcp_def wants_writer_def wants_reader_def Let_def)
    with 4 assms tracks_other_remove [OF fin assms(3), of ?d] show ?thesis by (simp add: tracks_def)
  qed
qed

text \<open>The callbacks of a run, in order; \<open>None\<close> as soon as one crashes.\<close>

fun plane_events :: "shm_outcome \<Rightarrow> (nat \<Rightarrow> nat \<Rightarrow> char) \<Rightarrow> match_event list \<Rightarrow> plane \<Rightarrow> plane option" where
  "plane_events oc old [] w = Some w"
| "plane_events oc old (OnMatch m # evs) w = Option.bind (handle_match oc old m w) (plane_events oc old evs)"
| "plane_events oc old (OnUnmatch m # evs) w = Option.bind (handle_unmatch m w) (plane_events oc old evs)"

definition keyed :: "(string \<Rightarrow> match_info option) \<Rightarrow> bool" where
  "keyed K \<longleftrightarrow> finite (dom K) \<and> (\<forall>k m. K k = Some m \<longrightarrow> k = match_key m \<and> ep_topic (mi_local m) = ep_topic (mi_remote m))"

lemma keyed_match_set: "keyed K \<Longrightarrow> match_set (ran K)"
  by (auto simp: keyed_def match_set_def ran_def inj_on_def) (metis (mono_tags, lifting) finite_ran ran_def)

lemma plane_events_track:
  assumes "replay evs K = Some K'" "keyed K" "tracks w (ran K)"
    and "\<forall>m. OnMatch m \<in> set evs \<longrightarrow> ep_topic (mi_local m) = ep_topic (mi_remote m)"
  shows "\<exists>w'. plane_events all_ok old evs w = Some w' \<and> tracks w' (ran K')"
  using assms
proof (induction evs arbitrary: K w)
  case (Cons ev evs)
  show ?case
  proof (cases ev)
    case (OnMatch m)
    let ?K = "K(match_key m \<mapsto> m)"
    have new: "K (match_key m) = None" and r: "replay evs ?K = Some K'"
      using Cons.prems(1) OnMatch by (auto simp del: fun_upd_apply split: if_splits)
    have k: "keyed ?K" using Cons.prems(2,4) OnMatch by (auto simp: keyed_def)
    have ran: "ran ?K = insert m (ran K)" using new by (simp add: ran_map_upd)
    have "m \<notin> ran K" using new Cons.prems(2) by (auto simp: keyed_def ran_def)
    with handle_match_tracks [OF Cons.prems(3)] keyed_match_set [OF k] obtain w1 where
      w1: "handle_match all_ok old m w = Some w1" "tracks w1 (ran ?K)" by (auto simp: ran)
    have "\<forall>m. OnMatch m \<in> set evs \<longrightarrow> ep_topic (mi_local m) = ep_topic (mi_remote m)" using Cons.prems(4) by simp
    from Cons.IH [OF r k w1(2) this] w1(1) OnMatch show ?thesis by simp
  next
    case (OnUnmatch m)
    let ?K = "K(match_key m := None)"
    have old: "K (match_key m) = Some m" and r: "replay evs ?K = Some K'"
      using Cons.prems(1) OnUnmatch by (auto simp del: fun_upd_apply split: if_splits)
    have k: "keyed ?K" using Cons.prems(2) by (auto simp: keyed_def)
    have ran: "ran ?K = ran K - {m}" 
      using ran_remove [of K "match_key m" m id, OF old] Cons.prems(2) by (auto simp: keyed_def)
    have "m \<in> ran K" using old by (rule ranI)
    with handle_unmatch_tracks [OF Cons.prems(3) keyed_match_set [OF Cons.prems(2)]] obtain w1 where
      w1: "handle_unmatch m w = Some w1" "tracks w1 (ran ?K)" by (auto simp: ran)
    have "\<forall>m. OnMatch m \<in> set evs \<longrightarrow> ep_topic (mi_local m) = ep_topic (mi_remote m)" using Cons.prems(4) by simp
    from Cons.IH [OF r k w1(2) this] w1(1) OnUnmatch show ?thesis by simp
  qed
qed simp


lemma publisher_never_crashes:
  assumes "ep_kind (mi_local m) = PUBLISHER"
  shows "\<exists>w'. handle_match oc old m w = Some w'" "\<exists>w'. handle_unmatch m w = Some w'"
  using assms by (auto simp: handle_match_def handle_unmatch_def Let_def)

text \<open>A data plane that has started and seen no match.\<close>

definition fresh_plane :: "plane \<Rightarrow> bool" where
  "fresh_plane w \<longleftrightarrow> (\<exists>ip port pid host shm.
     pl_dp w = set_local_identity pid host shm (snd (dp_start (Some port) (new_data_plane ip)))) \<and>
     (\<forall>t. te_remote_sinks (entry_at (pl_bus w) t) = [])"

lemma fresh_tracks:
  assumes "fresh_plane w"
  shows "tracks w {}"
  using assms
  by (auto simp: fresh_plane_def tracks_def tcp_tracks_def writer_tracks_def reader_tracks_def bus_tracks_def
      set_local_identity_def dp_start_def new_data_plane_def new_manager_def owner_def owned_def tally_def split: sum.splits)

lemma release_segments_names:
  assumes "st_names t name = None \<or> (\<exists>topic p. (topic, p) \<in> set ps \<and> sg_owner (sp_seg p) \<and> sg_name (sp_seg p) = name \<and> name \<noteq> [])"
  shows "st_names (release_segments ps t) name = None"
  using assms
proof (induction ps arbitrary: t)
  case (Cons x ps)
  obtain topic p where x: "x = (topic, p)" by (cases x)
  have "release_segments (x # ps) t = release_segments ps (segment_destroy (sp_seg p) t)"
    by (simp add: release_segments_def x)
  moreover have "st_names (release_segments ps (segment_destroy (sp_seg p) t)) name = None"
    using Cons.prems x by (intro Cons.IH) (auto simp: segment_destroy_def shm_unlink_def)
  ultimately show ?case by simp
qed (simp add: release_segments_def)

section \<open>Properties\<close>

text \<open>
  C37: \<open>stop\<close> releases everything: every connection is stopped, no name of a segment the data plane wrote remains, no
  sink, connection or reader is left, and matches and unmatches that arrive later change nothing.
\<close>

theorem dp_stop_releases:
  "(\<forall>i c. (i, c) \<in> set (dp_connections (pl_dp w)) \<longrightarrow> ConnStop c \<in> set (pl_calls (dp_stop w))) \<and>
   (\<forall>t p. (t, p) \<in> set (dp_shm_pub (pl_dp w)) \<and> sg_owner (sp_seg p) \<and> sg_name (sp_seg p) \<noteq> [] \<longrightarrow>
      st_names (pl_shm (dp_stop w)) (sg_name (sp_seg p)) = None) \<and>
   dp_connections (pl_dp (dp_stop w)) = [] \<and> dp_readers (pl_dp (dp_stop w)) = None \<and>
   (\<forall>s. \<not> dp_alive (pl_dp (dp_stop w)) s) \<and>
   handle_match oc old m (dp_stop w) = Some (dp_stop w) \<and> handle_unmatch m (dp_stop w) = Some (dp_stop w)"
proof -
  have "st_names (pl_shm (dp_stop w)) (sg_name (sp_seg p)) = None"
    if "(t, p) \<in> set (dp_shm_pub (pl_dp w))" "sg_owner (sp_seg p)" "sg_name (sp_seg p) \<noteq> []" for t p
    using release_segments_names [of "pl_shm w" "sg_name (sp_seg p)" "dp_shm_pub (pl_dp w)"] that
    by (auto simp: dp_stop_def Let_def)
  moreover have "ConnStop c \<in> set (pl_calls (dp_stop w))" if "(i, c) \<in> set (dp_connections (pl_dp w))" for i c
    using that by (force simp: dp_stop_def Let_def)
  moreover have "dp_connections (pl_dp (dp_stop w)) = []" "dp_readers (pl_dp (dp_stop w)) = None"
    "\<forall>s. \<not> dp_alive (pl_dp (dp_stop w)) s"
    "handle_match oc old m (dp_stop w) = Some (dp_stop w)" "handle_unmatch m (dp_stop w) = Some (dp_stop w)"
    by (simp_all add: dp_stop_def dp_alive_def handle_match_def handle_unmatch_def Let_def)
  ultimately show ?thesis by blast
qed

definition plane_x :: plane where
  "plane_x = \<lparr>pl_dp = set_local_identity 1 ''h'' True (snd (dp_start (Some 4000) (new_data_plane ''127.0.0.1''))),
     pl_bus = (\<lambda>_. None), pl_shm = \<lparr>st_names = (\<lambda>_. None), st_objects = (\<lambda>_. \<lparr>so_size = 0, so_ring = None\<rparr>), st_next = 0\<rparr>,
     pl_calls = []\<rparr>"

lemma plane_x_fresh: "fresh_plane plane_x"
  unfolding fresh_plane_def plane_x_def
  by (intro conjI exI [of _ "''127.0.0.1''"] exI [of _ 4000] exI [of _ 1] exI [of _ "''h''"] exI [of _ True])
    (simp_all add: entry_at_def new_entry_def)

lemmas plane_defs = plane_x_def set_local_identity_def dp_start_def new_data_plane_def new_manager_def match_x_def pub_x_def
  sub_x_def here_def use_shm_def same_host_def pubsub_pair_def Let_def

theorem dp_stop_releases_witness:
  "\<exists>w. handle_match all_ok (\<lambda>_ _. CHR 0x00) (match_x\<lparr>mi_host := ''other''\<rparr>) plane_x = Some w \<and>
     dp_connections (pl_dp w) = [(7, 0)] \<and> ConnStop 0 \<in> set (pl_calls (dp_stop w)) \<and>
     handle_match all_ok (\<lambda>_ _. CHR 0x00) match_x (dp_stop w) = Some (dp_stop w)"
proof -
  obtain w where w: "handle_match all_ok (\<lambda>_ _. CHR 0x00) (match_x\<lparr>mi_host := ''other''\<rparr>) plane_x = Some w"
    "dp_connections (pl_dp w) = [(7, 0)]"
    by (simp add: handle_match_def tcp_pub_match_def connection_for_def plane_defs)
  then show ?thesis using dp_stop_releases [of w all_ok "\<lambda>_ _. CHR 0x00" match_x] by auto
qed

text \<open>
  If the data server does not start, the data plane has no reader manager; the first same-host publisher that
  matches a local best-effort subscriber then makes \<open>handle_match\<close> call through the null pointer.
\<close>

theorem unstarted_plane_crashes:
  assumes "dp_start None (new_data_plane ip) = (ok, d0)" "pl_dp w = set_local_identity pid host True d0" "host \<noteq> []"
    and "ep_kind (mi_local m) = SUBSCRIBER" "ep_kind (mi_remote m) = PUBLISHER" "ep_reliability (mi_local m) = 0" "mi_host m = host"
  shows "\<not> ok \<and> handle_match oc old m w = None"
  using assms
  by (auto simp: dp_start_def new_data_plane_def set_local_identity_def handle_match_def pubsub_pair_def use_shm_def
      same_host_def shm_sub_match_def Let_def)

theorem unstarted_plane_crashes_witness:
  "handle_match all_ok (\<lambda>_ _. CHR 0x00) (match_x\<lparr>mi_local := sub_x, mi_remote := pub_x\<rparr>)
     (plane_x\<lparr>pl_dp := set_local_identity 1 ''h'' True (snd (dp_start None (new_data_plane ''127.0.0.1'')))\<rparr>) = None"
  using unstarted_plane_crashes [of "''127.0.0.1''" False _ "plane_x\<lparr>pl_dp := set_local_identity 1 ''h'' True (snd (dp_start None (new_data_plane ''127.0.0.1'')))\<rparr>"
      1 "''h''" "match_x\<lparr>mi_local := sub_x, mi_remote := pub_x\<rparr>" all_ok "\<lambda>_ _. CHR 0x00"]
  by (simp add: dp_start_def match_x_def pub_x_def sub_x_def)

text \<open>
  Topics whose names differ only in \<open>/\<close>, \<open>.\<close>, space and \<open>_\<close> get the same segment name: creating the second
  topic's segment wipes the first topic's ring, and both publishers then write to the same memory.
\<close>

theorem colliding_topics_share_segment:
  assumes "seg_name p x = seg_name p y"
    and "segment_create oc old (seg_name p x) n sz t = (Some g, t1)"
    and "segment_create oc' old' (seg_name p y) n sz (sink_all g ms t1) = (Some g', t2)"
  shows "sg_object g' = sg_object g \<and> ring_of t2 g = Some (ring_init old' n sz)"
proof -
  have names: "st_names (sink_all g ms u) = st_names u" for u
    by (induction ms arbitrary: u) (simp_all add: shm_sink_enqueue_def split_beta split: option.splits)
  have "st_names (sink_all g ms t1) (seg_name p y) = Some (sg_object g)"
    using create_success(3) [OF assms(2)] assms(1) names by simp
  with assms(3) have "sg_object g' = sg_object g"
    by (auto simp: segment_create_def shm_open_create_def Let_def split: if_splits)
  with create_success(4) [OF assms(3)] show ?thesis by (simp add: ring_of_def)
qed

theorem colliding_topics_share_segment_witness:
  "seg_name 7 ''/a/b'' = seg_name 7 ''/a_b'' \<and>
   (\<exists>g t1 g' t2. segment_create all_ok (\<lambda>_ _. CHR 0x00) (seg_name 7 ''/a/b'') 32 4 (pl_shm plane_x) = (Some g, t1) \<and>
     segment_create all_ok (\<lambda>_ _. CHR 0x00) (seg_name 7 ''/a_b'') 32 4 (sink_all g [''m''] t1) = (Some g', t2) \<and>
     sg_object g' = sg_object g \<and> ring_of t2 g = Some (ring_init (\<lambda>_ _. CHR 0x00) 32 4))"
proof -
  have e: "seg_name 7 ''/a/b'' = seg_name 7 ''/a_b''" by (simp add: seg_name_def)
  obtain g t1 where g: "segment_create all_ok (\<lambda>_ _. CHR 0x00) (seg_name 7 ''/a/b'') 32 4 (pl_shm plane_x) = (Some g, t1)"
    using create_all_ok by blast
  obtain g' t2 where g': "segment_create all_ok (\<lambda>_ _. CHR 0x00) (seg_name 7 ''/a_b'') 32 4 (sink_all g [''m''] t1) = (Some g', t2)"
    using create_all_ok by blast
  from colliding_topics_share_segment [OF e g g'] e g g' show ?thesis by blast
qed

text \<open>
  When creating a segment fails, the match is not counted: if a second match of the topic then succeeds, the
  end of the first one takes down the channel of the second, which is still active.
\<close>

theorem failed_create_breaks_count:
  assumes "\<not> dp_stopped (pl_dp w)" "wants_writer (pl_dp w) m1" "wants_writer (pl_dp w) m2" "topic_of m1 = topic_of m2"
    and "sm_find (dp_shm_pub (pl_dp w)) (topic_of m1) = None" "\<not> oc_open oc"
    and "handle_match oc old m1 w = Some w1" "handle_match all_ok old m2 w1 = Some w2" "handle_unmatch m1 w2 = Some w3"
  shows "sm_find (dp_shm_pub (pl_dp w2)) (topic_of m2) \<noteq> None \<and> sm_find (dp_shm_pub (pl_dp w3)) (topic_of m2) = None"
proof -
  let ?d = "pl_dp w"
  have w1: "w1 = w\<lparr>pl_shm := pl_shm w\<rparr>"
    using assms(1,2,5,6,7) by (auto simp: handle_match_def wants_writer_def shm_pub_match_def segment_create_def Let_def)
  then have d1: "pl_dp w1 = ?d" by simp
  obtain g t where g: "segment_create all_ok old (seg_name (dp_pid ?d) (topic_of m2)) kShmSlotCount kShmSlotCapacity (pl_shm w1) = (Some g, t)"
    using create_all_ok by blast
  have d2: "pl_dp w2 = ?d\<lparr>dp_shm_pub := sm_put (topic_of m2) \<lparr>sp_id = dp_next_sink ?d, sp_seg = g, sp_ref = 1\<rparr> (dp_shm_pub ?d),
      dp_next_sink := Suc (dp_next_sink ?d)\<rparr>"
    using assms(1,3,4,5,8) g d1 by (auto simp: handle_match_def wants_writer_def shm_pub_match_def Let_def)
  then have "use_shm (pl_dp w2) m1 = use_shm ?d m1" by (simp add: use_shm_def same_host_def)
  with assms(1,2,4,9) d2 have "dp_shm_pub (pl_dp w3) = sm_erase (topic_of m2) (dp_shm_pub (pl_dp w2))"
    by (auto simp: handle_unmatch_def wants_writer_def shm_pub_unmatch_def map_of_sm_put Let_def)
  then show ?thesis using d2 by (simp add: map_of_sm_put map_of_sm_erase)
qed

theorem failed_create_breaks_count_witness:
  "\<exists>w1 w2 w3. handle_match (all_ok\<lparr>oc_open := False\<rparr>) (\<lambda>_ _. CHR 0x00) match_x plane_x = Some w1 \<and>
     handle_match all_ok (\<lambda>_ _. CHR 0x00) (match_x\<lparr>mi_pid := 8\<rparr>) w1 = Some w2 \<and> handle_unmatch match_x w2 = Some w3 \<and>
     sm_find (dp_shm_pub (pl_dp w2)) ''x'' \<noteq> None \<and> sm_find (dp_shm_pub (pl_dp w3)) ''x'' = None"
proof -
  let ?m2 = "match_x\<lparr>mi_pid := 8\<rparr>"
  have m: "\<not> dp_stopped (pl_dp plane_x)" "wants_writer (pl_dp plane_x) match_x" "wants_writer (pl_dp plane_x) ?m2"
    "topic_of match_x = topic_of ?m2" "sm_find (dp_shm_pub (pl_dp plane_x)) (topic_of match_x) = None" "topic_of ?m2 = ''x''"
    "ep_kind (mi_local match_x) = PUBLISHER" "ep_kind (mi_local ?m2) = PUBLISHER"
    by (simp_all add: wants_writer_def plane_defs)
  obtain w1 where w1: "handle_match (all_ok\<lparr>oc_open := False\<rparr>) (\<lambda>_ _. CHR 0x00) match_x plane_x = Some w1"
    using publisher_never_crashes m(7) by blast
  obtain w2 where w2: "handle_match all_ok (\<lambda>_ _. CHR 0x00) ?m2 w1 = Some w2"
    using publisher_never_crashes m(8) by blast
  obtain w3 where w3: "handle_unmatch match_x w2 = Some w3"
    using publisher_never_crashes m(7) by blast
  from failed_create_breaks_count [OF m(1-5) _ w1 w2 w3] w1 w2 w3 m(6) show ?thesis by (auto simp: all_ok_def)
qed

text \<open>
  The envelope of a forwarded message carries it to the same topic: what a remote sink hands to its
  connection for some bytes makes the receiving side deliver exactly these bytes to the live local
  subscribers of the sink's topic.
\<close>

theorem envelope_round_trip:
  assumes "\<And>t b out. ser (t, b) = Some out \<Longrightarrow> parse out = Some (t, b)"
    and "remote_sink_enqueue ser r bs = Some (c, out)"
  shows "c = rs_conn r \<and> on_inbound parse alive out bus =
    (map (\<lambda>s. (s, bs)) (fst (deliver_inbound alive bus (rs_topic r))), snd (deliver_inbound alive bus (rs_topic r)))"
  using assms by (auto simp: remote_sink_enqueue_def on_inbound_def split_beta)

definition toy_ser :: "string \<times> bytes \<Rightarrow> bytes option" where
  "toy_ser x = (if length (fst x) < 256 then Some (char_of (length (fst x)) # fst x @ snd x) else None)"

definition toy_parse :: "bytes \<Rightarrow> (string \<times> bytes) option" where
  "toy_parse out = (case out of [] \<Rightarrow> None | n # xs \<Rightarrow> Some (take (of_char n) xs, drop (of_char n) xs))"

theorem envelope_round_trip_witness:
  "on_inbound toy_parse (\<lambda>_. True) (the (toy_ser (''t'', ''hi''))) (subscribe (\<lambda>_. None) ''t'' ''T'' 3) =
    ([(3, ''hi'')], subscribe (\<lambda>_. None) ''t'' ''T'' 3)"
proof -
  have rt: "toy_parse out = Some (t, b)" if "toy_ser (t, b) = Some out" for t b out
    using that by (auto simp: toy_ser_def toy_parse_def split: if_splits)
  have e: "remote_sink_enqueue toy_ser \<lparr>rs_id = 0, rs_topic = ''t'', rs_conn = 5\<rparr> ''hi'' = Some (5, the (toy_ser (''t'', ''hi'')))"
    by (simp add: remote_sink_enqueue_def toy_ser_def)
  from envelope_round_trip [where ser = toy_ser and parse = toy_parse and alive = "\<lambda>_. True"
      and bus = "subscribe (\<lambda>_. None) ''t'' ''T'' 3", OF rt e]
  show ?thesis by (simp add: bus_defs)
qed

end
