(* ===== verification/Rpc.thy ===== *)
theory Rpc
  imports Pub_Sub Std_Map
begin

text \<open>
  Remote procedure calls: topic names (core/include/core/rpc_topics.h), \<open>Client\<close>
  (core/include/core/client.h) and \<open>Service\<close> (core/include/core/service.h).

  The messages' \<open>SerializeToString\<close> and \<open>ParseFromString\<close> are generated by protobuf: they are the fields of
  the parameter \<open>codec\<close>. The user's handler is a parameter too; what it can do is return, throw a
  \<open>std::exception\<close> with a text, or throw something else. A \<open>Pending\<close> object lives behind a
  \<open>shared_ptr\<close> that the caller keeps after \<open>erase_pending\<close>, so pending objects are kept in a store and the
  client's map holds their addresses.
\<close>

section \<open>Topic names\<close>

definition replace_char :: "char \<Rightarrow> char" where
  "replace_char ch = (if isalnum ch then ch else CHR ''_'')"

definition rpc_sanitize_segment :: "string \<Rightarrow> string" where
  "rpc_sanitize_segment name =
     (let out = map replace_char name;
          out = dropWhile (\<lambda>c. c = CHR ''_'') out;
          out = rev (dropWhile (\<lambda>c. c = CHR ''_'') (rev out))
      in if out = [] then ''default'' else out)"

definition rpc_topic_segment :: "string \<Rightarrow> string" where
  "rpc_topic_segment service_name = rpc_sanitize_segment service_name"

definition rpc_client_segment :: "string \<Rightarrow> string" where
  "rpc_client_segment client_id = rpc_sanitize_segment client_id"

definition rpc_request_topic :: "string \<Rightarrow> string" where
  "rpc_request_topic service_name = ''/_mm/rpc/'' @ rpc_topic_segment service_name @ ''/request''"

definition rpc_reply_topic :: "string \<Rightarrow> string \<Rightarrow> string" where
  "rpc_reply_topic service_name client_id =
     ''/_mm/rpc/'' @ rpc_topic_segment service_name @ ''/reply/'' @ rpc_client_segment client_id"

section \<open>Messages and protobuf\<close>

record rpc_request =
  rq_id :: u64
  rq_reply_topic :: string
  rq_payload :: bytes

record rpc_reply =
  rp_id :: u64
  rp_payload :: bytes
  rp_ok :: bool
  rp_error :: string

definition new_reply :: rpc_reply where
  "new_reply = \<lparr>rp_id = 0, rp_payload = [], rp_ok = False, rp_error = []\<rparr>"

record ('q, 'r) rpc_codec =
  ser_req :: "'q \<Rightarrow> bytes option"
  parse_req :: "bytes \<Rightarrow> 'q option"
  ser_resp :: "'r \<Rightarrow> bytes option"
  parse_resp :: "bytes \<Rightarrow> 'r option"
  ser_wire_req :: "rpc_request \<Rightarrow> bytes option"
  parse_wire_req :: "bytes \<Rightarrow> rpc_request option"
  ser_wire_reply :: "rpc_reply \<Rightarrow> bytes option"
  parse_wire_reply :: "bytes \<Rightarrow> rpc_reply option"

definition request_type :: string where
  "request_type = ''mm.RpcRequest''"

definition reply_type :: string where
  "reply_type = ''mm.RpcReply''"

section \<open>Client\<close>

record 'r pending =
  pd_done :: bool
  pd_response :: "'r option"

record 'r client =
  cl_service_name :: string
  cl_client_id :: string
  cl_request_topic :: string
  cl_reply_topic :: string
  cl_request_pub :: publisher
  cl_reply_sub :: sink_id
  cl_next_request_id :: u64
  cl_pending :: "(u64, nat) std_map"
  cl_store :: "'r pending list"

text \<open>The constructor: it creates the publisher of the requests and subscribes to the replies.\<close>

definition make_client :: "string \<Rightarrow> string \<Rightarrow> qos \<Rightarrow> sink_id \<Rightarrow> local_bus \<Rightarrow>
    'r client \<times> rpc_reply subscriber \<times> local_bus" where
  "make_client service_name client_id q sub_id bus =
     (let request_topic = rpc_request_topic service_name;
          reply_topic = rpc_reply_topic service_name client_id;
          (pub, bus) = create_publisher bus request_topic request_type q
      in (\<lparr>cl_service_name = service_name, cl_client_id = client_id, cl_request_topic = request_topic,
           cl_reply_topic = reply_topic, cl_request_pub = pub, cl_reply_sub = sub_id,
           cl_next_request_id = 1, cl_pending = [], cl_store = []\<rparr>,
          new_subscriber reply_topic q,
          subscribe bus reply_topic reply_type sub_id))"

definition erase_pending :: "u64 \<Rightarrow> 'r client \<Rightarrow> 'r client" where
  "erase_pending request_id c = c\<lparr>cl_pending := sm_erase request_id (cl_pending c)\<rparr>"

text \<open>
  \<open>call\<close> up to the point where it waits: serialise, take a request id, register a pending object, publish the
  request. \<open>None\<close> is the early return of \<open>nullopt\<close>; otherwise the request id and the address of
  the pending object, which \<open>call\<close> keeps while it waits.
\<close>

definition call_begin :: "('q, 'r) rpc_codec \<Rightarrow> (sink_id \<Rightarrow> bool) \<Rightarrow> 'q \<Rightarrow> 'r client \<Rightarrow> local_bus \<Rightarrow>
    (u64 \<times> nat) option \<times> (sink_id \<times> bytes) list \<times> 'r client \<times> local_bus" where
  "call_begin codec alive req c bus =
     (case ser_req codec req of
        None \<Rightarrow> (None, [], c, bus)
      | Some payload \<Rightarrow>
          (let request_id = cl_next_request_id c;
               addr = length (cl_store c);
               c = c\<lparr>cl_next_request_id := request_id + 1,
                     cl_store := cl_store c @ [\<lparr>pd_done = False, pd_response = None\<rparr>],
                     cl_pending := sm_put request_id addr (cl_pending c)\<rparr>;
               wire_req = \<lparr>rq_id = request_id, rq_reply_topic = cl_reply_topic c, rq_payload = payload\<rparr>;
               (ok, ds, bus) = publish (ser_wire_req codec) alive (cl_request_pub c) wire_req bus
           in if \<not> ok then (None, ds, erase_pending request_id c, bus)
              else (Some (request_id, addr), ds, c, bus)))"

text \<open>
  The rest of \<open>call\<close>, when \<open>wait_for\<close> is over: its result is \<open>done\<close> at that moment, whether it was notified or
  the time has run out.
\<close>

definition call_return :: "u64 \<times> nat \<Rightarrow> 'r client \<Rightarrow> 'r option \<times> 'r client" where
  "call_return h c =
     (let pending = cl_store c ! snd h;
          ready = pd_done pending;
          c = erase_pending (fst h) c
      in (if \<not> ready then None else pd_response pending, c))"

text \<open>The whole of \<open>call\<close>; \<open>meanwhile\<close> is what the other threads do to the client while the caller waits.\<close>

definition call :: "('q, 'r) rpc_codec \<Rightarrow> (sink_id \<Rightarrow> bool) \<Rightarrow>
    ((sink_id \<times> bytes) list \<Rightarrow> 'r client \<times> local_bus \<Rightarrow> 'r client \<times> local_bus) \<Rightarrow> 'q \<Rightarrow> 'r client \<Rightarrow> local_bus \<Rightarrow>
    'r option \<times> 'r client \<times> local_bus" where
  "call codec alive meanwhile req c bus =
     (case call_begin codec alive req c bus of
        (None, ds, c, bus) \<Rightarrow> (None, c, bus)
      | (Some h, ds, c, bus) \<Rightarrow>
          (let (c, bus) = meanwhile ds (c, bus);
               (res, c) = call_return h c
           in (res, c, bus)))"

definition handle_reply :: "('q, 'r) rpc_codec \<Rightarrow> rpc_reply \<Rightarrow> 'r client \<Rightarrow> 'r client" where
  "handle_reply codec wire_reply c =
     (case sm_find (cl_pending c) (rp_id wire_reply) of
        None \<Rightarrow> c
      | Some addr \<Rightarrow>
          (let parsed = (if rp_ok wire_reply then parse_resp codec (rp_payload wire_reply) else None)
           in c\<lparr>cl_store := (cl_store c)[addr := \<lparr>pd_done = True, pd_response = parsed\<rparr>]\<rparr>))"

section \<open>Service\<close>

datatype 'r handler_result = Response 'r | Threw string | ThrewUnknown

record service =
  sv_service_name :: string
  sv_request_topic :: string
  sv_qos :: qos
  sv_registrar :: bool
  sv_request_sub :: sink_id
  sv_response_pubs :: "(string, publisher) std_map"

definition make_service :: "string \<Rightarrow> qos \<Rightarrow> bool \<Rightarrow> sink_id \<Rightarrow> local_bus \<Rightarrow>
    service \<times> rpc_request subscriber \<times> local_bus" where
  "make_service service_name q registrar sub_id bus =
     (let request_topic = rpc_request_topic service_name
      in (\<lparr>sv_service_name = service_name, sv_request_topic = request_topic, sv_qos = q,
           sv_registrar = registrar, sv_request_sub = sub_id, sv_response_pubs = []\<rparr>,
          new_subscriber request_topic q,
          subscribe bus request_topic request_type sub_id))"

text \<open>The publisher of a reply topic; the list holds the calls of \<open>registrar_\<close>.\<close>

definition publisher_for :: "string \<Rightarrow> service \<Rightarrow> local_bus \<Rightarrow>
    publisher \<times> (string \<times> string) list \<times> service \<times> local_bus" where
  "publisher_for reply_topic sv bus =
     (case sm_find (sv_response_pubs sv) reply_topic of
        Some pub \<Rightarrow> (pub, [], sv, bus)
      | None \<Rightarrow>
          (let (pub, bus) = create_publisher bus reply_topic reply_type (sv_qos sv)
           in (pub, (if sv_registrar sv then [(reply_topic, reply_type)] else []),
               sv\<lparr>sv_response_pubs := sm_put reply_topic pub (sv_response_pubs sv)\<rparr>, bus)))"

text \<open>\<open>publisher_for(...)->publish(...)\<close>: deliveries, registrations, service and bus.\<close>

definition publish_reply :: "('q, 'r) rpc_codec \<Rightarrow> (sink_id \<Rightarrow> bool) \<Rightarrow> string \<Rightarrow> rpc_reply \<Rightarrow> service \<Rightarrow> local_bus \<Rightarrow>
    (sink_id \<times> bytes) list \<times> (string \<times> string) list \<times> service \<times> local_bus" where
  "publish_reply codec alive reply_topic reply sv bus =
     (let (pub, regs, sv, bus) = publisher_for reply_topic sv bus;
          (ok, ds, bus) = publish (ser_wire_reply codec) alive pub reply bus
      in (ds, regs, sv, bus))"

definition publish_error :: "('q, 'r) rpc_codec \<Rightarrow> (sink_id \<Rightarrow> bool) \<Rightarrow> rpc_request \<Rightarrow> string \<Rightarrow> service \<Rightarrow> local_bus \<Rightarrow>
    (sink_id \<times> bytes) list \<times> (string \<times> string) list \<times> service \<times> local_bus" where
  "publish_error codec alive req error sv bus =
     publish_reply codec alive (rq_reply_topic req)
       (new_reply\<lparr>rp_id := rq_id req, rp_ok := False, rp_error := error\<rparr>) sv bus"

definition handle_request :: "('q, 'r) rpc_codec \<Rightarrow> (sink_id \<Rightarrow> bool) \<Rightarrow> ('q \<Rightarrow> 'r handler_result) \<Rightarrow> rpc_request \<Rightarrow>
    service \<Rightarrow> local_bus \<Rightarrow> (sink_id \<times> bytes) list \<times> (string \<times> string) list \<times> service \<times> local_bus" where
  "handle_request codec alive handler wire_req sv bus =
     (case parse_req codec (rq_payload wire_req) of
        None \<Rightarrow> publish_error codec alive wire_req ''request parse failed'' sv bus
      | Some req \<Rightarrow>
          (let wire_reply = new_reply\<lparr>rp_id := rq_id wire_req\<rparr>
           in (case handler req of
                 Response resp \<Rightarrow>
                   (case ser_resp codec resp of
                      None \<Rightarrow> publish_error codec alive wire_req ''response serialize failed'' sv bus
                    | Some payload \<Rightarrow>
                        publish_reply codec alive (rq_reply_topic wire_req)
                          (wire_reply\<lparr>rp_ok := True, rp_payload := payload\<rparr>) sv bus)
               | Threw what \<Rightarrow>
                   publish_reply codec alive (rq_reply_topic wire_req)
                     (wire_reply\<lparr>rp_ok := False, rp_error := what\<rparr>) sv bus
               | ThrewUnknown \<Rightarrow>
                   publish_reply codec alive (rq_reply_topic wire_req)
                     (wire_reply\<lparr>rp_ok := False, rp_error := ''handler threw unknown exception''\<rparr>) sv bus)))"

section \<open>The reply to a request\<close>

definition reply_for :: "('q, 'r) rpc_codec \<Rightarrow> ('q \<Rightarrow> 'r handler_result) \<Rightarrow> rpc_request \<Rightarrow> rpc_reply" where
  "reply_for codec handler wr =
     (case Option.bind (parse_req codec (rq_payload wr)) (\<lambda>q. Some (handler q)) of
        None \<Rightarrow> new_reply\<lparr>rp_id := rq_id wr, rp_error := ''request parse failed''\<rparr>
      | Some (Response r) \<Rightarrow>
          (case ser_resp codec r of
             None \<Rightarrow> new_reply\<lparr>rp_id := rq_id wr, rp_error := ''response serialize failed''\<rparr>
           | Some bs \<Rightarrow> new_reply\<lparr>rp_id := rq_id wr, rp_ok := True, rp_payload := bs\<rparr>)
      | Some (Threw what) \<Rightarrow> new_reply\<lparr>rp_id := rq_id wr, rp_error := what\<rparr>
      | Some ThrewUnknown \<Rightarrow> new_reply\<lparr>rp_id := rq_id wr, rp_error := ''handler threw unknown exception''\<rparr>)"

text \<open>Every branch of \<open>handle_request\<close> publishes exactly one reply.\<close>

lemma handle_request_reply:
  "handle_request codec alive handler wr sv bus =
     publish_reply codec alive (rq_reply_topic wr) (reply_for codec handler wr) sv bus"
  by (simp add: handle_request_def publish_error_def reply_for_def new_reply_def
      split: option.splits handler_result.splits)

lemma reply_for_id [simp]: "rp_id (reply_for codec handler wr) = rq_id wr"
  by (simp add: reply_for_def new_reply_def split: option.splits handler_result.splits)

text \<open>What a caller gets for a request, once the reply is there.\<close>

definition rpc_result :: "('q, 'r) rpc_codec \<Rightarrow> ('q \<Rightarrow> 'r handler_result) \<Rightarrow> 'q \<Rightarrow> 'r option" where
  "rpc_result codec handler q =
     (case handler q of
        Response r \<Rightarrow> if ser_resp codec r = None then None else Some r
      | _ \<Rightarrow> None)"

text \<open>Protobuf: parsing what was serialised gives the message back, and the wire messages can be serialised.\<close>

definition protobuf_ok :: "('q, 'r) rpc_codec \<Rightarrow> bool" where
  "protobuf_ok codec \<longleftrightarrow>
     (\<forall>m bs. ser_req codec m = Some bs \<longrightarrow> parse_req codec bs = Some m) \<and>
     (\<forall>m bs. ser_resp codec m = Some bs \<longrightarrow> parse_resp codec bs = Some m) \<and>
     (\<forall>m bs. ser_wire_req codec m = Some bs \<longrightarrow> parse_wire_req codec bs = Some m) \<and>
     (\<forall>m bs. ser_wire_reply codec m = Some bs \<longrightarrow> parse_wire_reply codec bs = Some m)"

definition parsed_response :: "('q, 'r) rpc_codec \<Rightarrow> rpc_reply \<Rightarrow> 'r option" where
  "parsed_response codec rep = (if rp_ok rep then parse_resp codec (rp_payload rep) else None)"

lemma parsed_reply_for:
  assumes "protobuf_ok codec" "ser_req codec q = Some bs" "rq_payload wr = bs"
  shows "parsed_response codec (reply_for codec handler wr) = rpc_result codec handler q"
proof -
  have "parse_req codec (rq_payload wr) = Some q"
    using assms by (simp add: protobuf_ok_def)
  then show ?thesis
    using assms(1)
    by (auto simp: reply_for_def rpc_result_def new_reply_def parsed_response_def protobuf_ok_def
        split: handler_result.splits option.splits)
qed

section \<open>A client and a service in one process\<close>

record ('q, 'r) rpc_world =
  rw_bus :: local_bus
  rw_client :: "'r client"
  rw_service :: service
  rw_request_sub :: "rpc_request subscriber"
  rw_reply_sub :: "rpc_reply subscriber"
  rw_calls :: "((u64 \<times> nat) \<times> 'q) list"
  rw_results :: "nat \<Rightarrow> 'r option option"
  rw_handled :: nat

definition service_sink :: sink_id where "service_sink = 0"
definition client_sink :: sink_id where "client_sink = 1"

lemma sinks_differ [simp]: "service_sink \<noteq> client_sink" "client_sink \<noteq> service_sink"
  by (simp_all add: service_sink_def client_sink_def)

definition rpc_setup :: "string \<Rightarrow> string \<Rightarrow> qos \<Rightarrow> ('q, 'r) rpc_world" where
  "rpc_setup name cid q =
     (let (sv, rsub, bus) = make_service name q False service_sink (\<lambda>_. None);
          (c, psub, bus) = make_client name cid q client_sink bus
      in \<lparr>rw_bus = bus, rw_client = c, rw_service = sv, rw_request_sub = rsub, rw_reply_sub = psub,
          rw_calls = [], rw_results = (\<lambda>_. None), rw_handled = 0\<rparr>)"

definition rpc_deliver :: "(sink_id \<times> bytes) list \<Rightarrow> ('q, 'r) rpc_world \<Rightarrow> ('q, 'r) rpc_world" where
  "rpc_deliver ds w =
     w\<lparr>rw_request_sub := foldl (\<lambda>s (t, bs). if t = service_sink then sub_enqueue bs s else s) (rw_request_sub w) ds,
       rw_reply_sub := foldl (\<lambda>s (t, bs). if t = client_sink then sub_enqueue bs s else s) (rw_reply_sub w) ds\<rparr>"

text \<open>One turn of a subscriber's worker, with the message its callback is called with.\<close>

definition sub_next :: "(bytes \<Rightarrow> 'm option) \<Rightarrow> 'm subscriber \<Rightarrow> 'm option \<times> 'm subscriber" where
  "sub_next parse s =
     (let s' = snd (sub_turn parse s)
      in (if length (sub_calls s) < length (sub_calls s') then Some (last (sub_calls s')) else None, s'))"

datatype 'q rpc_op = Call 'q | Serve | Reply | Return nat

text \<open>
  Threads: any number of callers, the worker of the service's subscriber (\<open>Serve\<close>) and the worker
  of the client's subscriber (\<open>Reply\<close>). \<open>Return\<close> ends the wait of one caller, at whatever moment its
  time has run out or it is notified.
\<close>

fun rpc_step :: "('q, 'r) rpc_codec \<Rightarrow> ('q \<Rightarrow> 'r handler_result) \<Rightarrow> 'q rpc_op \<Rightarrow> ('q, 'r) rpc_world \<Rightarrow> ('q, 'r) rpc_world" where
  "rpc_step codec handler (Call q) w =
     (case call_begin codec (\<lambda>_. True) q (rw_client w) (rw_bus w) of
        (h, ds, c, bus) \<Rightarrow>
          rpc_deliver ds (w\<lparr>rw_client := c, rw_bus := bus,
            rw_calls := rw_calls w @ (case h of None \<Rightarrow> [] | Some h \<Rightarrow> [(h, q)])\<rparr>))"
| "rpc_step codec handler Serve w =
     (case sub_next (parse_wire_req codec) (rw_request_sub w) of
        (None, s) \<Rightarrow> w\<lparr>rw_request_sub := s\<rparr>
      | (Some req, s) \<Rightarrow>
          (case handle_request codec (\<lambda>_. True) handler req (rw_service w) (rw_bus w) of
             (ds, regs, sv, bus) \<Rightarrow> rpc_deliver ds (w\<lparr>rw_request_sub := s, rw_service := sv, rw_bus := bus\<rparr>)))"
| "rpc_step codec handler Reply w =
     (case sub_next (parse_wire_reply codec) (rw_reply_sub w) of
        (None, s) \<Rightarrow> w\<lparr>rw_reply_sub := s\<rparr>
      | (Some rep, s) \<Rightarrow>
          w\<lparr>rw_reply_sub := s, rw_client := handle_reply codec rep (rw_client w), rw_handled := Suc (rw_handled w)\<rparr>)"
| "rpc_step codec handler (Return j) w =
     (if j < length (rw_calls w) \<and> rw_results w j = None then
        (case call_return (fst (rw_calls w ! j)) (rw_client w) of
           (res, c) \<Rightarrow> w\<lparr>rw_client := c, rw_results := (rw_results w)(j \<mapsto> res)\<rparr>)
      else w)"

definition rpc_run :: "('q, 'r) rpc_codec \<Rightarrow> ('q \<Rightarrow> 'r handler_result) \<Rightarrow> 'q rpc_op list \<Rightarrow> ('q, 'r) rpc_world \<Rightarrow> ('q, 'r) rpc_world" where
  "rpc_run codec handler ops w = foldl (\<lambda>w op. rpc_step codec handler op w) w ops"

section \<open>Facts about topic names\<close>

lemma isalnum_replace: "c = CHR ''_'' \<or> isalnum c" if "c \<in> set (map replace_char name)" for c
  using that by (auto simp: replace_char_def split: if_splits)

lemma sanitize_chars: "c \<in> set (rpc_sanitize_segment name) \<Longrightarrow> c = CHR ''_'' \<or> isalnum c"
proof (cases "rpc_sanitize_segment name = ''default''")
  case True
  assume "c \<in> set (rpc_sanitize_segment name)"
  with True have "c \<in> set ''default''" by simp
  then show ?thesis by (auto simp: isalnum_def)
next
  case False
  assume "c \<in> set (rpc_sanitize_segment name)"
  with False have "c \<in> set (map replace_char name)"
    by (auto simp: rpc_sanitize_segment_def Let_def split: if_splits dest!: set_dropWhileD)
  then show ?thesis by (rule isalnum_replace)
qed

lemma segment_no_slash: "CHR ''/'' \<notin> set (rpc_sanitize_segment name)"
  by (auto simp: isalnum_def isdigit_def dest!: sanitize_chars)

lemma split_at_slash:
  "CHR ''/'' \<notin> set a \<Longrightarrow> CHR ''/'' \<notin> set b \<Longrightarrow> a @ CHR ''/'' # x = b @ CHR ''/'' # y \<longleftrightarrow> a = b \<and> x = y"
  by (induction a arbitrary: b) (case_tac b; auto)+

lemma request_topic_not_reply_topic [simp]: "rpc_request_topic n \<noteq> rpc_reply_topic m c"
  using split_at_slash [OF segment_no_slash segment_no_slash, of n "''request''" m "''reply/'' @ rpc_client_segment c"]
  by (simp add: rpc_request_topic_def rpc_reply_topic_def rpc_topic_segment_def)

lemmas reply_topic_not_request_topic [simp] = request_topic_not_reply_topic [symmetric]

section \<open>The invariant of the calls\<close>

definition wire_total :: "('q, 'r) rpc_codec \<Rightarrow> bool" where
  "wire_total codec \<longleftrightarrow> (\<forall>m. ser_wire_req codec m \<noteq> None) \<and> (\<forall>m. ser_wire_reply codec m \<noteq> None)"

definition wire_of :: "('q, 'r) rpc_codec \<Rightarrow> string \<Rightarrow> ((u64 \<times> nat) \<times> 'q) list \<Rightarrow> nat \<Rightarrow> rpc_request" where
  "wire_of codec rt calls j =
     \<lparr>rq_id = of_nat (Suc j), rq_reply_topic = rt, rq_payload = the (ser_req codec (snd (calls ! j)))\<rparr>"

definition sub_holds :: "'m subscriber \<Rightarrow> bytes list \<Rightarrow> bool" where
  "sub_holds s bss \<longleftrightarrow> bq_queue (sub_queue s) = bss \<and> \<not> bq_closed (sub_queue s) \<and> bq_capacity (sub_queue s) = 0"

definition rpc_bus :: "string \<Rightarrow> string \<Rightarrow> local_bus" where
  "rpc_bus name cid = [rpc_request_topic name \<mapsto> \<lparr>te_type = request_type, te_sinks = [service_sink], te_remote_sinks = []\<rparr>,
     rpc_reply_topic name cid \<mapsto> \<lparr>te_type = reply_type, te_sinks = [client_sink], te_remote_sinks = []\<rparr>]"

definition client_ok :: "('q, 'r) rpc_codec \<Rightarrow> ('q \<Rightarrow> 'r handler_result) \<Rightarrow> string \<Rightarrow> string \<Rightarrow> ('q, 'r) rpc_world \<Rightarrow> bool" where
  "client_ok codec handler name cid w \<longleftrightarrow>
     (let c = rw_client w; n = length (rw_calls w) in
      pub_topic (cl_request_pub c) = rpc_request_topic name \<and> pub_type (cl_request_pub c) = request_type \<and>
      cl_reply_topic c = rpc_reply_topic name cid \<and>
      cl_next_request_id c = of_nat (Suc n) \<and> length (cl_store c) = n \<and>
      (\<forall>j < n. fst (rw_calls w ! j) = (of_nat (Suc j), j) \<and> ser_req codec (snd (rw_calls w ! j)) \<noteq> None) \<and>
      (\<forall>j \<ge> n. rw_results w j = None) \<and>
      (\<forall>k a. sm_find (cl_pending c) k = Some a \<longleftrightarrow> a < n \<and> k = of_nat (Suc a) \<and> rw_results w a = None) \<and>
      (\<forall>j < n. rw_results w j = None \<longrightarrow> cl_store c ! j =
         (if j < rw_handled w then \<lparr>pd_done = True, pd_response = rpc_result codec handler (snd (rw_calls w ! j))\<rparr>
          else \<lparr>pd_done = False, pd_response = None\<rparr>)))"

definition queues_ok :: "('q, 'r) rpc_codec \<Rightarrow> ('q \<Rightarrow> 'r handler_result) \<Rightarrow> string \<Rightarrow> nat \<Rightarrow> ('q, 'r) rpc_world \<Rightarrow> bool" where
  "queues_ok codec handler rt b w \<longleftrightarrow>
     (let wire = wire_of codec rt (rw_calls w) in
      rw_handled w \<le> b \<and> b \<le> length (rw_calls w) \<and>
      sub_holds (rw_request_sub w) (map (\<lambda>j. the (ser_wire_req codec (wire j))) [b..<length (rw_calls w)]) \<and>
      sub_holds (rw_reply_sub w) (map (\<lambda>j. the (ser_wire_reply codec (reply_for codec handler (wire j)))) [rw_handled w..<b]))"

definition service_pubs_ok :: "service \<Rightarrow> bool" where
  "service_pubs_ok sv \<longleftrightarrow> (\<forall>t p. sm_find (sv_response_pubs sv) t = Some p \<longrightarrow> pub_topic p = t \<and> pub_type p = reply_type)"

definition rpc_inv :: "('q, 'r) rpc_codec \<Rightarrow> ('q \<Rightarrow> 'r handler_result) \<Rightarrow> string \<Rightarrow> string \<Rightarrow> nat \<Rightarrow> ('q, 'r) rpc_world \<Rightarrow> bool" where
  "rpc_inv codec handler name cid b w \<longleftrightarrow>
     rw_bus w = rpc_bus name cid \<and> service_pubs_ok (rw_service w) \<and>
     client_ok codec handler name cid w \<and> queues_ok codec handler (rpc_reply_topic name cid) b w"

lemma publish_on_rpc_bus:
  assumes "rpc_bus name cid (pub_topic p) = Some e" "pub_type p = te_type e" "ser m = Some bs"
  shows "publish ser (\<lambda>_. True) p m (rpc_bus name cid) = (True, map (\<lambda>t. (t, bs)) (te_sinks e @ te_remote_sinks e), rpc_bus name cid)"
  using assms by (auto simp: publish_def bus_publish_def check_type_def Let_def fun_upd_idem_iff)

lemma rpc_setup_inv:
  assumes "queue_bound q = 0"
  shows "rpc_inv codec handler name cid 0 (rpc_setup name cid q)"
proof -
  have "rw_bus (rpc_setup name cid q :: ('a, 'b) rpc_world) = rpc_bus name cid"
    using request_topic_not_reply_topic [of name name cid]
    by (auto simp: rpc_setup_def make_service_def make_client_def create_publisher_def register_publisher_def Let_def
        subscribe_def check_type_def entry_at_def new_entry_def rpc_bus_def fun_eq_iff request_type_def reply_type_def)
  moreover have "service_pubs_ok (rw_service (rpc_setup name cid q :: ('a, 'b) rpc_world))"
    by (simp add: rpc_setup_def make_service_def make_client_def service_pubs_ok_def create_publisher_def Let_def)
  moreover have "client_ok codec handler name cid (rpc_setup name cid q)"
    by (simp add: client_ok_def rpc_setup_def make_service_def make_client_def create_publisher_def Let_def)
  moreover have "queues_ok codec handler (rpc_reply_topic name cid) 0 (rpc_setup name cid q)"
    using assms by (simp add: queues_ok_def sub_holds_def rpc_setup_def make_service_def make_client_def create_publisher_def
        new_subscriber_def new_queue_def Let_def)
  ultimately show ?thesis by (simp add: rpc_inv_def)
qed

section \<open>Every step keeps the invariant\<close>

lemma sub_enqueue_holds: "sub_holds s bss \<Longrightarrow> sub_holds (sub_enqueue bs s) (bss @ [bs])"
  by (simp add: sub_holds_def sub_enqueue_open)

lemma sub_next_holds:
  "sub_holds s (bs # bss) \<Longrightarrow> parse bs = Some m \<Longrightarrow> \<exists>s'. sub_next parse s = (Some m, s') \<and> sub_holds s' bss"
  by (simp add: sub_holds_def sub_next_def sub_turn_def pop_def)

lemma sub_next_empty: "sub_holds s [] \<Longrightarrow> sub_next parse s = (None, s)"
  by (simp add: sub_holds_def sub_next_def sub_turn_def pop_def)

lemma wire_of_append [simp]: "j < length calls \<Longrightarrow> wire_of codec rt (calls @ xs) j = wire_of codec rt calls j"
  by (simp add: wire_of_def nth_append)

lemma rpc_call_inv:
  assumes inv: "rpc_inv codec handler name cid b w" and tot: "wire_total codec"
    and small: "Suc (length (rw_calls w)) < 2 ^ 64"
  shows "rpc_inv codec handler name cid b (rpc_step codec handler (Call q) w)"
    and "length (rw_calls (rpc_step codec handler (Call q) w)) \<le> Suc (length (rw_calls w))"
proof -
  let ?n = "length (rw_calls w)" and ?rt = "rpc_reply_topic name cid"
  have *: "rpc_inv codec handler name cid b (rpc_step codec handler (Call q) w) \<and>
    length (rw_calls (rpc_step codec handler (Call q) w)) \<le> Suc ?n"
  proof (cases "ser_req codec q")
    case None
    then have "rpc_step codec handler (Call q) w = w"
      by (simp add: call_begin_def rpc_deliver_def)
    with inv show ?thesis by simp
  next
    case (Some payload)
    define wr where "wr = \<lparr>rq_id = of_nat (Suc ?n) :: u64, rq_reply_topic = ?rt, rq_payload = payload\<rparr>"
    obtain bs where bs: "ser_wire_req codec wr = Some bs"
      using tot by (auto simp: wire_total_def)
    define c where "c = rw_client w"
    define c' where "c' = c\<lparr>cl_next_request_id := of_nat (Suc (Suc ?n)),
      cl_store := cl_store c @ [\<lparr>pd_done = False, pd_response = None\<rparr>],
      cl_pending := sm_put (of_nat (Suc ?n)) ?n (cl_pending c)\<rparr>"
    have cl: "client_ok codec handler name cid w" and qs: "queues_ok codec handler ?rt b w"
      and bus: "rw_bus w = rpc_bus name cid" and sv: "service_pubs_ok (rw_service w)"
      using inv by (auto simp: rpc_inv_def)
    have pub: "publish (ser_wire_req codec) (\<lambda>_. True) (cl_request_pub c) wr (rpc_bus name cid) =
      (True, [(service_sink, bs)], rpc_bus name cid)"
      using publish_on_rpc_bus [of name cid "cl_request_pub c" _ "ser_wire_req codec" wr bs] bs cl
      by (simp add: client_ok_def c_def Let_def rpc_bus_def)
    have cf: "cl_next_request_id c = of_nat (Suc ?n)" "length (cl_store c) = ?n" "cl_reply_topic c = ?rt"
      using cl by (simp_all add: client_ok_def c_def Let_def)
    have cb: "call_begin codec (\<lambda>_. True) q c (rpc_bus name cid) =
      (Some (of_nat (Suc ?n), ?n), [(service_sink, bs)], c', rpc_bus name cid)"
      using pub unfolding call_begin_def Some
      by (simp add: cf c'_def wr_def [symmetric] Let_def ac_simps) (simp add: wr_def ac_simps)
    define w' where "w' = rpc_step codec handler (Call q) w"
    have w': "w' = w\<lparr>rw_client := c', rw_calls := rw_calls w @ [((of_nat (Suc ?n), ?n), q)],
      rw_request_sub := sub_enqueue bs (rw_request_sub w)\<rparr>"
      using cb bus by (simp add: w'_def c_def rpc_deliver_def)
    have "client_ok codec handler name cid w'"
    proof -
      have p: "sm_find (cl_pending c') k = Some a \<longleftrightarrow> a < Suc ?n \<and> k = of_nat (Suc a) \<and> rw_results w a = None" for k a
      proof -
        have "sm_find (cl_pending c) k = Some a \<longleftrightarrow> a < ?n \<and> k = of_nat (Suc a) \<and> rw_results w a = None"
          and r: "rw_results w ?n = None"
          using cl by (simp_all add: client_ok_def c_def Let_def)
        moreover have "(of_nat (Suc a) :: u64) \<noteq> of_nat (Suc ?n)" if "a < ?n"
          using that small u64_of_nat_inject [of "Suc a" "Suc ?n"] by simp
        ultimately show ?thesis
          by (cases "k = of_nat (Suc ?n)") (auto simp: c'_def map_of_sm_put less_Suc_eq simp del: of_nat_Suc)
      qed
      have "rw_handled w \<le> ?n" using qs by (auto simp: queues_ok_def Let_def)
      then show ?thesis
        using cl p Some unfolding client_ok_def w' Let_def
        by (simp add: c_def [symmetric] nth_append less_Suc_eq del: of_nat_Suc) (simp add: c'_def less_Suc_eq nth_append)
    qed
    moreover have "queues_ok codec handler ?rt b w'"
    proof -
      have "wire_of codec ?rt (rw_calls w @ [((of_nat (Suc ?n), ?n), q)]) ?n = wr"
        by (simp add: wire_of_def wr_def Some)
      moreover have m: "map (\<lambda>j. the (f (wire_of codec ?rt (rw_calls w @ [((of_nat (Suc ?n), ?n), q)]) j))) [m..<k] =
          map (\<lambda>j. the (f (wire_of codec ?rt (rw_calls w) j))) [m..<k]" if "k \<le> ?n" for f :: "rpc_request \<Rightarrow> bytes option" and m k
        using that by simp
      ultimately show ?thesis
        using qs bs sub_enqueue_holds [of "rw_request_sub w" _ bs]
        by (simp add: queues_ok_def w' Let_def m [of ?n "ser_wire_req codec"]
            m [of b "\<lambda>j. ser_wire_reply codec (reply_for codec handler j)"] del: of_nat_Suc)
    qed
    ultimately show ?thesis
      unfolding w'_def [symmetric] using bus sv by (simp add: rpc_inv_def) (simp add: w')
  qed
  then show "rpc_inv codec handler name cid b (rpc_step codec handler (Call q) w)"
    and "length (rw_calls (rpc_step codec handler (Call q) w)) \<le> Suc ?n" by auto
qed

lemma publish_reply_on_rpc_bus:
  assumes "service_pubs_ok sv" "ser_wire_reply codec rep = Some bs"
  shows "\<exists>regs sv'. publish_reply codec (\<lambda>_. True) (rpc_reply_topic name cid) rep sv (rpc_bus name cid) =
    ([(client_sink, bs)], regs, sv', rpc_bus name cid) \<and> service_pubs_ok sv'"
proof (cases "sm_find (sv_response_pubs sv) (rpc_reply_topic name cid)")
  case None
  let ?rt = "rpc_reply_topic name cid"
  have "register_publisher (rpc_bus name cid) ?rt reply_type = rpc_bus name cid"
    by (auto simp: register_publisher_def entry_at_def rpc_bus_def check_type_def)
  then show ?thesis
    using None assms publish_on_rpc_bus [of name cid "\<lparr>pub_topic = ?rt, pub_type = reply_type, pub_qos = sv_qos sv\<rparr>" _ "ser_wire_reply codec" rep bs]
    by (simp add: publish_reply_def publisher_for_def create_publisher_def service_pubs_ok_def map_of_sm_put rpc_bus_def Let_def)
next
  case (Some p)
  with assms(1) have "pub_topic p = rpc_reply_topic name cid" "pub_type p = reply_type"
    by (simp_all add: service_pubs_ok_def)
  then show ?thesis
    using Some assms publish_on_rpc_bus [of name cid p _ "ser_wire_reply codec" rep bs]
    by (simp add: publish_reply_def publisher_for_def rpc_bus_def)
qed

lemma rpc_serve_inv:
  assumes inv: "rpc_inv codec handler name cid b w" and pb: "protobuf_ok codec" and tot: "wire_total codec"
  shows "rpc_inv codec handler name cid (min (Suc b) (length (rw_calls w))) (rpc_step codec handler Serve w) \<and>
    rw_calls (rpc_step codec handler Serve w) = rw_calls w \<and> rw_results (rpc_step codec handler Serve w) = rw_results w \<and>
    rw_handled (rpc_step codec handler Serve w) = rw_handled w"
proof -
  let ?n = "length (rw_calls w)" and ?rt = "rpc_reply_topic name cid"
  let ?wire = "wire_of codec ?rt (rw_calls w)"
  have cl: "client_ok codec handler name cid w" and qs: "queues_ok codec handler ?rt b w"
    and bus: "rw_bus w = rpc_bus name cid" and sv: "service_pubs_ok (rw_service w)"
    using inv by (auto simp: rpc_inv_def)
  have hb: "rw_handled w \<le> b" "b \<le> ?n"
    and q: "sub_holds (rw_request_sub w) (map (\<lambda>j. the (ser_wire_req codec (?wire j))) [b..<?n])"
    and p: "sub_holds (rw_reply_sub w) (map (\<lambda>j. the (ser_wire_reply codec (reply_for codec handler (?wire j)))) [rw_handled w..<b])"
    using qs by (auto simp: queues_ok_def Let_def)
  show ?thesis
  proof (cases "b = ?n")
    case True
    then have "rpc_step codec handler Serve w = w"
      using q by (simp add: sub_next_empty)
    with inv True show ?thesis by (simp add: min_def)
  next
    case False
    with hb have b: "b < ?n" by simp
    obtain bs where bs: "ser_wire_req codec (?wire b) = Some bs"
      using tot by (auto simp: wire_total_def)
    obtain rs where rs: "ser_wire_reply codec (reply_for codec handler (?wire b)) = Some rs"
      using tot by (auto simp: wire_total_def)
    have "parse_wire_req codec bs = Some (?wire b)"
      using pb bs by (simp add: protobuf_ok_def)
    then obtain s' where s': "sub_next (parse_wire_req codec) (rw_request_sub w) = (Some (?wire b), s')"
      "sub_holds s' (map (\<lambda>j. the (ser_wire_req codec (?wire j))) [Suc b..<?n])"
      using q b bs sub_next_holds [of "rw_request_sub w" bs _ "parse_wire_req codec"] by (auto simp: upt_conv_Cons)
    obtain regs sv' where r: "handle_request codec (\<lambda>_. True) handler (?wire b) (rw_service w) (rpc_bus name cid) =
        ([(client_sink, rs)], regs, sv', rpc_bus name cid)" "service_pubs_ok sv'"
      using publish_reply_on_rpc_bus [OF sv rs, of name cid] by (auto simp: handle_request_reply wire_of_def)
    define w' where "w' = rpc_step codec handler Serve w"
    have w': "w' = w\<lparr>rw_request_sub := s', rw_service := sv', rw_reply_sub := sub_enqueue rs (rw_reply_sub w)\<rparr>"
      using s' r bus by (simp add: w'_def rpc_deliver_def)
    have "client_ok codec handler name cid w'"
      using cl by (simp add: client_ok_def w' Let_def)
    moreover have "queues_ok codec handler ?rt (Suc b) w'"
      using hb b s'(2) sub_enqueue_holds [OF p, of rs] rs by (simp add: queues_ok_def w' Let_def)
    ultimately have "rpc_inv codec handler name cid (Suc b) w'"
      using bus r(2) by (simp add: rpc_inv_def w')
    then show ?thesis
      unfolding w'_def [symmetric] using b by (simp add: min_def) (simp add: w')
  qed
qed

lemma rpc_reply_inv:
  assumes inv: "rpc_inv codec handler name cid b w" and pb: "protobuf_ok codec" and tot: "wire_total codec"
    and small: "Suc (length (rw_calls w)) < 2 ^ 64"
  shows "rpc_inv codec handler name cid b (rpc_step codec handler Reply w) \<and>
    rw_calls (rpc_step codec handler Reply w) = rw_calls w \<and> rw_results (rpc_step codec handler Reply w) = rw_results w \<and>
    rw_handled (rpc_step codec handler Reply w) = min (Suc (rw_handled w)) b"
proof -
  let ?n = "length (rw_calls w)" and ?rt = "rpc_reply_topic name cid" and ?h = "rw_handled w"
  let ?wire = "wire_of codec ?rt (rw_calls w)"
  have cl: "client_ok codec handler name cid w" and qs: "queues_ok codec handler ?rt b w"
    and bus: "rw_bus w = rpc_bus name cid" and sv: "service_pubs_ok (rw_service w)"
    using inv by (auto simp: rpc_inv_def)
  have hb: "?h \<le> b" "b \<le> ?n"
    and q: "sub_holds (rw_request_sub w) (map (\<lambda>j. the (ser_wire_req codec (?wire j))) [b..<?n])"
    and p: "sub_holds (rw_reply_sub w) (map (\<lambda>j. the (ser_wire_reply codec (reply_for codec handler (?wire j)))) [?h..<b])"
    using qs by (auto simp: queues_ok_def Let_def)
  show ?thesis
  proof (cases "?h = b")
    case True
    then have "rpc_step codec handler Reply w = w"
      using p by (simp add: sub_next_empty)
    with inv True show ?thesis by (simp add: min_def)
  next
    case False
    with hb have h: "?h < b" by simp
    define rep where "rep = reply_for codec handler (?wire ?h)"
    obtain rs where rs: "ser_wire_reply codec rep = Some rs"
      using tot by (auto simp: wire_total_def)
    have "parse_wire_reply codec rs = Some rep"
      using pb rs by (simp add: protobuf_ok_def)
    then obtain s' where s': "sub_next (parse_wire_reply codec) (rw_reply_sub w) = (Some rep, s')"
      "sub_holds s' (map (\<lambda>j. the (ser_wire_reply codec (reply_for codec handler (?wire j)))) [Suc ?h..<b])"
      using p h rs sub_next_holds [of "rw_reply_sub w" rs _ "parse_wire_reply codec"] by (auto simp: upt_conv_Cons rep_def)
    define w' where "w' = rpc_step codec handler Reply w"
    have w': "w' = w\<lparr>rw_reply_sub := s', rw_client := handle_reply codec rep (rw_client w), rw_handled := Suc ?h\<rparr>"
      using s' by (simp add: w'_def)
    have "client_ok codec handler name cid w'"
    proof -
      obtain payload where pl: "ser_req codec (snd (rw_calls w ! ?h)) = Some payload"
        using cl less_le_trans [OF h hb(2)] unfolding client_ok_def Let_def by blast
      have resp: "parsed_response codec rep = rpc_result codec handler (snd (rw_calls w ! ?h))"
        unfolding rep_def by (rule parsed_reply_for [OF pb pl]) (simp add: wire_of_def pl)
      have id: "rp_id rep = of_nat (Suc ?h)" by (simp add: rep_def wire_of_def)
      have pend: "sm_find (cl_pending (rw_client w)) (rp_id rep) = (if rw_results w ?h = None then Some ?h else None)"
      proof -
        have f: "sm_find (cl_pending (rw_client w)) (rp_id rep) = Some a \<longleftrightarrow>
          a < ?n \<and> (of_nat (Suc ?h) :: u64) = of_nat (Suc a) \<and> rw_results w a = None" for a
          using cl by (simp add: client_ok_def Let_def id)
        moreover have "(of_nat (Suc ?h) :: u64) = of_nat (Suc a) \<longleftrightarrow> a = ?h" if "a < ?n" for a
          using that small h hb u64_of_nat_inject [of "Suc ?h" "Suc a"] by auto
        ultimately have "sm_find (cl_pending (rw_client w)) (rp_id rep) = Some a \<longleftrightarrow> a = ?h \<and> rw_results w ?h = None" for a
          using h hb by (metis less_le_trans)
        then show ?thesis
          by (cases "sm_find (cl_pending (rw_client w)) (rp_id rep)") auto
      qed
      show ?thesis
      proof (cases "rw_results w ?h")
        case None
        then have "handle_reply codec rep (rw_client w) = (rw_client w)\<lparr>cl_store := (cl_store (rw_client w))[?h :=
            \<lparr>pd_done = True, pd_response = rpc_result codec handler (snd (rw_calls w ! ?h))\<rparr>]\<rparr>"
          using pend resp by (simp add: handle_reply_def parsed_response_def Let_def)
        then show ?thesis
          using cl h hb unfolding w' client_ok_def Let_def
          by (simp add: nth_list_update less_Suc_eq del: of_nat_Suc)
      next
        case (Some r)
        then have "handle_reply codec rep (rw_client w) = rw_client w"
          using pend by (simp add: handle_reply_def)
        then show ?thesis
          using cl Some unfolding w' client_ok_def Let_def
          by (auto simp: less_Suc_eq simp del: of_nat_Suc)
      qed
    qed
    moreover have "queues_ok codec handler ?rt b w'"
      using hb h s'(2) q by (simp add: queues_ok_def w' Let_def)
    ultimately have "rpc_inv codec handler name cid b w'"
      using bus sv by (simp add: rpc_inv_def w')
    then show ?thesis
      unfolding w'_def [symmetric] using h by (simp add: min_def) (simp add: w')
  qed
qed

lemma rpc_return_inv:
  assumes inv: "rpc_inv codec handler name cid b w" and small: "Suc (length (rw_calls w)) < 2 ^ 64"
    and w': "rpc_step codec handler (Return j) w = w'"
  shows "rpc_inv codec handler name cid b w' \<and> rw_calls w' = rw_calls w \<and> rw_handled w' = rw_handled w \<and>
    rw_results w' = (if j < length (rw_calls w) \<and> rw_results w j = None
      then (rw_results w)(j \<mapsto> if j < rw_handled w then rpc_result codec handler (snd (rw_calls w ! j)) else None)
      else rw_results w)"
proof (cases "j < length (rw_calls w) \<and> rw_results w j = None")
  case False
  with inv w' show ?thesis by auto
next
  case True
  define c where "c = rw_client w"
  let ?res = "if j < rw_handled w then rpc_result codec handler (snd (rw_calls w ! j)) else None"
  have cl: "client_ok codec handler name cid w" and qs: "queues_ok codec handler (rpc_reply_topic name cid) b w"
    and bus: "rw_bus w = rpc_bus name cid" and sv: "service_pubs_ok (rw_service w)"
    using inv by (auto simp: rpc_inv_def)
  have h: "fst (rw_calls w ! j) = (of_nat (Suc j), j)" and st: "cl_store c ! j =
      (if j < rw_handled w then \<lparr>pd_done = True, pd_response = rpc_result codec handler (snd (rw_calls w ! j))\<rparr>
       else \<lparr>pd_done = False, pd_response = None\<rparr>)"
    using cl True by (simp_all add: client_ok_def c_def Let_def del: of_nat_Suc)
  have ret: "call_return (of_nat (Suc j), j) c = (?res, erase_pending (of_nat (Suc j)) c)"
    using st by (simp add: call_return_def Let_def)
  have w'': "w' = w\<lparr>rw_client := erase_pending (of_nat (Suc j)) c, rw_results := (rw_results w)(j \<mapsto> ?res)\<rparr>"
    using ret True w' h by (simp add: c_def del: of_nat_Suc)
  have "client_ok codec handler name cid w'"
  proof -
    have "sm_find (sm_erase (of_nat (Suc j)) (cl_pending c)) k = Some a \<longleftrightarrow>
        a < length (rw_calls w) \<and> k = of_nat (Suc a) \<and> a \<noteq> j \<and> rw_results w a = None" for k a
    proof -
      have "sm_find (cl_pending c) k = Some a \<longleftrightarrow> a < length (rw_calls w) \<and> k = of_nat (Suc a) \<and> rw_results w a = None"
        using cl by (simp add: client_ok_def c_def Let_def)
      moreover have "(of_nat (Suc a) :: u64) = of_nat (Suc j) \<longleftrightarrow> a = j" if "a < length (rw_calls w)"
        using that small True u64_of_nat_inject [of "Suc a" "Suc j"] by auto
      ultimately show ?thesis
        by (auto simp: map_of_sm_erase simp del: of_nat_Suc)
    qed
    then show ?thesis
      using cl True unfolding client_ok_def w'' Let_def erase_pending_def
      by (auto simp: c_def [symmetric] simp del: of_nat_Suc)
  qed
  moreover have "queues_ok codec handler (rpc_reply_topic name cid) b w'"
    using qs by (simp add: queues_ok_def w'' Let_def)
  ultimately show ?thesis
    using True bus sv by (simp add: rpc_inv_def w'')
qed

section \<open>Runs\<close>

lemma rpc_run_Nil [simp]: "rpc_run codec handler [] w = w"
  and rpc_run_append: "rpc_run codec handler (xs @ ys) w = rpc_run codec handler ys (rpc_run codec handler xs w)"
  and rpc_run_Cons: "rpc_run codec handler (x # xs) w = rpc_run codec handler xs (rpc_step codec handler x w)"
  by (simp_all add: rpc_run_def)

lemma rpc_run_inv:
  assumes "protobuf_ok codec" "wire_total codec" "queue_bound q = 0" "Suc (length ops) < 2 ^ 64"
  shows "\<exists>b. rpc_inv codec handler name cid b (rpc_run codec handler ops (rpc_setup name cid q)) \<and>
    length (rw_calls (rpc_run codec handler ops (rpc_setup name cid q))) \<le> length ops"
  using assms(4)
proof (induction ops rule: rev_induct)
  case Nil
  have "rw_calls (rpc_setup name cid q :: ('a, 'b) rpc_world) = []"
    by (simp add: rpc_setup_def split_beta)
  with rpc_setup_inv [OF assms(3)] show ?case by (metis le0 list.size(3) rpc_run_Nil)
next
  case (snoc op ops)
  define w where "w = rpc_run codec handler ops (rpc_setup name cid q)"
  obtain b where b: "rpc_inv codec handler name cid b w" "length (rw_calls w) \<le> length ops"
    using snoc by (auto simp: w_def)
  have small: "Suc (length (rw_calls w)) < 2 ^ 64" using b(2) snoc.prems by simp
  have "\<exists>b. rpc_inv codec handler name cid b (rpc_step codec handler op w) \<and>
    length (rw_calls (rpc_step codec handler op w)) \<le> Suc (length ops)"
  proof (cases op)
    case (Call x)
    then show ?thesis
      using rpc_call_inv [OF b(1) assms(2) small, of x] b(2) by (meson le_trans Suc_le_mono)
  next
    case Serve
    then show ?thesis
      using rpc_serve_inv [OF b(1) assms(1,2)] b(2) by (metis le_SucI)
  next
    case Reply
    then show ?thesis
      using rpc_reply_inv [OF b(1) assms(1,2) small] b(2) by (metis le_SucI)
  next
    case (Return j)
    then show ?thesis
      using rpc_return_inv [OF b(1) small refl, of j] b(2) by (metis le_SucI)
  qed
  then show ?case by (simp add: rpc_run_append rpc_run_Cons w_def)
qed

lemma rpc_serves:
  assumes "protobuf_ok codec" "wire_total codec" "rpc_inv codec handler name cid b w"
    and "w' = rpc_run codec handler (replicate k Serve) w"
  shows "rpc_inv codec handler name cid (min (b + k) (length (rw_calls w))) w' \<and> rw_calls w' = rw_calls w \<and>
    rw_results w' = rw_results w \<and> rw_handled w' = rw_handled w"
  using assms(3,4)
proof (induction k arbitrary: b w)
  case 0
  then have "b \<le> length (rw_calls w)" by (auto simp: rpc_inv_def queues_ok_def Let_def)
  with 0 show ?case by (simp add: min_def)
next
  case (Suc k)
  let ?v = "rpc_step codec handler Serve w"
  have v: "rpc_inv codec handler name cid (min (Suc b) (length (rw_calls w))) ?v" "rw_calls ?v = rw_calls w"
    "rw_results ?v = rw_results w" "rw_handled ?v = rw_handled w"
    using rpc_serve_inv [OF Suc.prems(1) assms(1,2)] by blast+
  have "w' = rpc_run codec handler (replicate k Serve) ?v" using Suc.prems(2) by (simp add: rpc_run_Cons)
  from Suc.IH [OF v(1) this] show ?case using v(2-4) by (simp add: min_def split: if_splits)
qed

lemma rpc_replies:
  assumes "protobuf_ok codec" "wire_total codec" "Suc (length (rw_calls w)) < 2 ^ 64" "rpc_inv codec handler name cid b w"
    and "w' = rpc_run codec handler (replicate k Reply) w"
  shows "rpc_inv codec handler name cid b w' \<and> rw_calls w' = rw_calls w \<and>
    rw_results w' = rw_results w \<and> rw_handled w' = min (rw_handled w + k) b"
  using assms(3,4,5)
proof (induction k arbitrary: w)
  case 0
  then have "rw_handled w \<le> b" by (auto simp: rpc_inv_def queues_ok_def Let_def)
  with 0 show ?case by (simp add: min_def)
next
  case (Suc k)
  let ?v = "rpc_step codec handler Reply w"
  have v: "rpc_inv codec handler name cid b ?v" "rw_calls ?v = rw_calls w"
    "rw_results ?v = rw_results w" "rw_handled ?v = min (Suc (rw_handled w)) b"
    using rpc_reply_inv [OF Suc.prems(2) assms(1,2) Suc.prems(1)] by blast+
  have "w' = rpc_run codec handler (replicate k Reply) ?v" using Suc.prems(3) by (simp add: rpc_run_Cons)
  from Suc.IH [OF _ v(1) this] Suc.prems(1) show ?case using v(2-4) by (simp add: min_def split: if_splits)
qed

section \<open>A concrete codec\<close>

text \<open>Length-prefixed fields, to instantiate the codec parameter in the examples below.\<close>

definition put_field :: "string \<Rightarrow> string" where
  "put_field s = to_string (length s) @ '':'' @ s"

definition get_field :: "string \<Rightarrow> (string \<times> string) option" where
  "get_field s =
     (let d = takeWhile isdigit s in
      case drop (length d) s of
        [] \<Rightarrow> None
      | _ # r \<Rightarrow> if dec_value d \<le> length r then Some (take (dec_value d) r, drop (dec_value d) r) else None)"

definition field_codec :: "(string, string) rpc_codec" where
  "field_codec =
     \<lparr>ser_req = Some, parse_req = Some, ser_resp = Some, parse_resp = Some,
      ser_wire_req = (\<lambda>m. Some (put_field (to_string (unat (rq_id m))) @ put_field (rq_reply_topic m) @ rq_payload m)),
      parse_wire_req = (\<lambda>bs. case get_field bs of None \<Rightarrow> None | Some (i, r) \<Rightarrow>
        (case get_field r of None \<Rightarrow> None | Some (t, p) \<Rightarrow>
          Some \<lparr>rq_id = of_nat (dec_value i), rq_reply_topic = t, rq_payload = p\<rparr>)),
      ser_wire_reply = (\<lambda>m. Some (put_field (to_string (unat (rp_id m))) @ put_field (rp_payload m) @
        (if rp_ok m then ''1'' else ''0'') @ rp_error m)),
      parse_wire_reply = (\<lambda>bs. case get_field bs of None \<Rightarrow> None | Some (i, r) \<Rightarrow>
        (case get_field r of None \<Rightarrow> None | Some (p, r) \<Rightarrow>
          (case r of [] \<Rightarrow> None | k # e \<Rightarrow>
            Some \<lparr>rp_id = of_nat (dec_value i), rp_payload = p, rp_ok = (k = CHR ''1''), rp_error = e\<rparr>)))\<rparr>"

lemma get_put_field [simp]: "get_field (put_field s @ r) = Some (s, r)"
proof -
  have "takeWhile isdigit (to_string (length s) @ '':'' @ s @ r) = to_string (length s)"
    using to_string_digits [of _ "length s"] by (subst takeWhile_append2) (auto simp: isdigit_def)
  then show ?thesis
    by (simp add: put_field_def get_field_def Let_def)
qed

lemma field_codec_ok: "protobuf_ok field_codec" "wire_total field_codec"
proof -
  show "protobuf_ok field_codec"
    unfolding protobuf_ok_def by (simp add: field_codec_def)
  show "wire_total field_codec"
    by (simp add: wire_total_def field_codec_def)
qed

section \<open>Properties\<close>


text \<open>Two callers, the second of which gives up before its reply is handled.\<close>

definition shout :: "string \<Rightarrow> string handler_result" where
  "shout q = (if q = ''boom'' then Threw ''no'' else Response (q @ ''!''))"

definition two_calls :: "string rpc_op list" where
  "two_calls = [Call ''hi'', Call ''you'', Serve, Return 1, Reply, Serve]"

definition keep_all :: qos where
  "keep_all = default_qos\<lparr>qos_history := KEEP_ALL\<rparr>"




text \<open>
  Names that differ only in punctuation share their topics: a client of one of two such services is answered
  by both.
\<close>
lemma rpc_names_collide:
  "rpc_request_topic ''arm.move'' = rpc_request_topic ''arm_move'' \<and>
   rpc_request_topic ''/arm/move/'' = rpc_request_topic ''arm_move'' \<and>
   rpc_request_topic ''***'' = rpc_request_topic ''default''"
  by code_simp

end
