(* ===== verification/Node.thy ===== *)
theory Node
  imports Data_Plane Rpc
begin

text \<open>
  The node (core/include/core/node.h, core/src/node.cpp): it owns the bus, the data plane and the discovery
  agent, connects the agent's callbacks to the data plane, and its factory methods create endpoints on the
  bus and register them with the agent.

  Identities of local subscribers are drawn from the same counter as the data plane's sinks. Type names come from
  protobuf descriptors and are arguments. A node that has crashed is the value \<open>None\<close>.
\<close>

section \<open>State\<close>

record node_options =
  no_enable_shm :: bool
  no_group :: string
  no_port :: u16

definition default_options :: node_options where
  "default_options = \<lparr>no_enable_shm = True, no_group = ''239.255.0.1'', no_port = 7400\<rparr>"

definition options_with_shm :: "bool \<Rightarrow> node_options" where
  "options_with_shm enable_shm = default_options\<lparr>no_enable_shm := enable_shm\<rparr>"

datatype 'r entity =
    PublisherEntity publisher
  | SubscriberEntity sink_id
  | ServiceEntity service
  | ClientEntity "'r client"

record 'r node =
  nd_name :: string
  nd_plane :: plane
  nd_agent :: agent
  nd_entities :: "'r entity list"

section \<open>Construction and destruction\<close>

text \<open>
  The environment of the constructor: the port the data server got (if it started), the random participant id, the host id,
  the kernel's shared memory, and whether the multicast socket could be opened. The discovery group and port only
  select that socket.
\<close>

record node_env =
  ne_listening :: "u16 option"
  ne_pid :: u64
  ne_host :: string
  ne_shm :: shm_table
  ne_multicast :: "string \<Rightarrow> u16 \<Rightarrow> bool"

definition make_node :: "string \<Rightarrow> node_options \<Rightarrow> node_env \<Rightarrow> 'r node" where
  "make_node name options env =
     (let d = snd (dp_start (ne_listening env) (new_data_plane ''127.0.0.1''));
          loc = \<lparr>loc_ip = dp_ip d, loc_port = ucast (server_port d)\<rparr>;
          a = new_agent name loc (ne_pid env);
          d = set_local_identity (ag_pid a) (ne_host env) (no_enable_shm options) d;
          a = on_unmatch (on_match a);
          a = snd (agent_start (ne_multicast env (no_group options) (no_port options)) a)
      in \<lparr>nd_name = name,
          nd_plane = \<lparr>pl_dp = d, pl_bus = (\<lambda>_. None), pl_shm = ne_shm env, pl_calls = []\<rparr>,
          nd_agent = a, nd_entities = []\<rparr>)"

definition make_node_shm :: "string \<Rightarrow> bool \<Rightarrow> node_env \<Rightarrow> 'r node" where
  "make_node_shm name enable_shm env = make_node name (options_with_shm enable_shm) env"

text \<open>Members are destroyed in reverse order: entities, agent, data plane.\<close>

definition destroy_node :: "'r node \<Rightarrow> 'r node" where
  "destroy_node n = n\<lparr>nd_entities := [], nd_agent := agent_stop (nd_agent n), nd_plane := dp_stop (nd_plane n)\<rparr>"

section \<open>Factory methods\<close>

definition set_bus :: "local_bus \<Rightarrow> 'r node \<Rightarrow> 'r node" where
  "set_bus bus n = n\<lparr>nd_plane := (nd_plane n)\<lparr>pl_bus := bus\<rparr>\<rparr>"

definition fresh_sink :: "'r node \<Rightarrow> sink_id \<times> 'r node" where
  "fresh_sink n =
     (let d = pl_dp (nd_plane n); s = dp_next_sink d
      in (s, n\<lparr>nd_plane := (nd_plane n)\<lparr>pl_dp := d\<lparr>dp_next_sink := Suc s\<rparr>\<rparr>\<rparr>))"

definition register :: "endpoint_kind \<Rightarrow> string \<Rightarrow> string \<Rightarrow> qos \<Rightarrow> string \<Rightarrow> 'r node \<Rightarrow> 'r node" where
  "register kind topic type_name q response n =
     n\<lparr>nd_agent := add_endpoint kind topic type_name (of_int (reliability_int (qos_reliability q))) response (nd_agent n)\<rparr>"

definition add_entity :: "'r entity \<Rightarrow> 'r node \<Rightarrow> 'r node" where
  "add_entity e n = n\<lparr>nd_entities := nd_entities n @ [e]\<rparr>"

definition node_create_publisher :: "string \<Rightarrow> string \<Rightarrow> qos \<Rightarrow> 'r node \<Rightarrow> publisher \<times> 'r node" where
  "node_create_publisher topic type_name q n =
     (let (pub, bus) = create_publisher (pl_bus (nd_plane n)) topic type_name q
      in (pub, register PUBLISHER topic type_name q [] (add_entity (PublisherEntity pub) (set_bus bus n))))"

definition node_create_subscriber :: "string \<Rightarrow> string \<Rightarrow> qos \<Rightarrow> 'r node \<Rightarrow> (sink_id \<times> 'm subscriber) \<times> 'r node" where
  "node_create_subscriber topic type_name q n =
     (let (s, n) = fresh_sink n;
          n = set_bus (subscribe (pl_bus (nd_plane n)) topic type_name s) n
      in ((s, new_subscriber topic q), register SUBSCRIBER topic type_name q [] (add_entity (SubscriberEntity s) n)))"

definition node_create_service :: "string \<Rightarrow> string \<Rightarrow> string \<Rightarrow> qos \<Rightarrow> 'r node \<Rightarrow>
    (service \<times> rpc_request subscriber) \<times> 'r node" where
  "node_create_service service_name req_type resp_type q n =
     (let (s, n) = fresh_sink n;
          (sv, sub, bus) = make_service service_name q True s (pl_bus (nd_plane n));
          n = add_entity (ServiceEntity sv) (set_bus bus n);
          n = register SUBSCRIBER (sv_request_topic sv) request_type q [] n
      in ((sv, sub), register SERVICE service_name req_type q resp_type n))"

definition client_id_of :: "'r node \<Rightarrow> string" where
  "client_id_of n =
     nd_name n @ ''-'' @ to_string (unat (ag_pid (nd_agent n))) @ ''-'' @ to_string (length (nd_entities n))"

definition node_create_client :: "string \<Rightarrow> string \<Rightarrow> string \<Rightarrow> qos \<Rightarrow> 'r node \<Rightarrow>
    ('r client \<times> rpc_reply subscriber) \<times> 'r node" where
  "node_create_client service_name req_type resp_type q n =
     (let (s, n) = fresh_sink n;
          (c, sub, bus) = make_client service_name (client_id_of n) q s (pl_bus (nd_plane n));
          n = add_entity (ClientEntity c) (set_bus bus n);
          n = register PUBLISHER (cl_request_topic c) request_type q [] n;
          n = register SUBSCRIBER (cl_reply_topic c) reply_type q [] n
      in ((c, sub), register CLIENT service_name req_type q resp_type n))"

text \<open>The registrar of \<open>create_service\<close>, called by \<open>publisher_for\<close> when a reply topic is new.\<close>

definition node_registrar :: "qos \<Rightarrow> string \<times> string \<Rightarrow> 'r node \<Rightarrow> 'r node" where
  "node_registrar q r n = register PUBLISHER (fst r) (snd r) q [] n"

section \<open>What happens to a node\<close>

text \<open>
  \<open>live\<close> says which local subscribers still exist; the data plane's sinks live as long as it owns them. The
  callbacks of the agent run in the discovery thread, which exists only if discovery has started.
\<close>

datatype node_op =
    CreatePublisher string string qos
  | CreateSubscriber string string qos
  | CreateService string string string qos
  | CreateClient string string string qos
  | ServiceReplyTopic nat string
  | NodePublish "sink_id \<Rightarrow> bool" string string
  | NodeInbound "sink_id \<Rightarrow> bool" string
  | Discovery agent_op

definition node_alive :: "(sink_id \<Rightarrow> bool) \<Rightarrow> plane \<Rightarrow> sink_id \<Rightarrow> bool" where
  "node_alive live w s \<longleftrightarrow> live s \<or> dp_alive (pl_dp w) s"

fun node_step :: "(nat \<Rightarrow> nat \<Rightarrow> char) \<Rightarrow> node_op \<Rightarrow> 'r node \<Rightarrow> 'r node option" where
  "node_step old (CreatePublisher t ty q) n = Some (snd (node_create_publisher t ty q n))"
| "node_step old (CreateSubscriber t ty q) n =
     Some (snd (node_create_subscriber t ty q n :: (sink_id \<times> bytes subscriber) \<times> 'r node))"
| "node_step old (CreateService sn qt rt q) n = Some (snd (node_create_service sn qt rt q n))"
| "node_step old (CreateClient sn qt rt q) n = Some (snd (node_create_client sn qt rt q n))"
| "node_step old (ServiceReplyTopic i t) n =
     (if i < length (nd_entities n) then
        (case nd_entities n ! i of
           ServiceEntity sv \<Rightarrow>
             (case publisher_for t sv (pl_bus (nd_plane n)) of
                (pub, regs, sv', bus) \<Rightarrow>
                  Some (foldl (\<lambda>n r. node_registrar (sv_qos sv) r n)
                    (set_bus bus (n\<lparr>nd_entities := (nd_entities n)[i := ServiceEntity sv']\<rparr>)) regs))
         | _ \<Rightarrow> Some n)
      else Some n)"
| "node_step old (NodePublish live t ty) n =
     Some (set_bus (snd (bus_publish (node_alive live (nd_plane n)) (pl_bus (nd_plane n)) t ty)) n)"
| "node_step old (NodeInbound live t) n =
     Some (set_bus (snd (deliver_inbound (node_alive live (nd_plane n)) (pl_bus (nd_plane n)) t)) n)"
| "node_step old (Discovery op) n =
     (if \<not> ag_running (nd_agent n) then Some n
      else
        (case agent_step op (nd_agent n) of
           (evs, a) \<Rightarrow>
             (case plane_events all_ok old evs (nd_plane n) of
                None \<Rightarrow> None
              | Some w \<Rightarrow> Some (n\<lparr>nd_agent := a, nd_plane := w\<rparr>))))"

fun node_run :: "(nat \<Rightarrow> nat \<Rightarrow> char) \<Rightarrow> node_op list \<Rightarrow> 'r node \<Rightarrow> 'r node option" where
  "node_run old [] n = Some n"
| "node_run old (op # ops) n = Option.bind (node_step old op n) (node_run old ops)"

section \<open>The callbacks and the topics of matches\<close>

lemma note_matches_events:
  "OnMatch m \<in> set (fst (note_matches host ms a)) \<Longrightarrow> \<exists>m0 \<in> set ms. m = m0\<lparr>mi_host := host\<rparr>"
  by (induction host ms a rule: note_matches.induct) (auto simp: Let_def split: if_splits prod.splits)

lemma try_match_topics:
  assumes "OnMatch m \<in> set (fst (try_match i r a))"
  shows "ep_topic (mi_local m) = ep_topic (mi_remote m)"
  using note_matches_events [OF assms [unfolded try_match_def]]
  by (auto simp: set_match_endpoints match_pair_Some)

lemma match_remotes_topics:
  "OnMatch m \<in> set (fst (match_remotes rs a)) \<Longrightarrow> ep_topic (mi_local m) = ep_topic (mi_remote m)"
proof (induction rs a rule: match_remotes.induct)
  case (2 i r rs a)
  from "2.prems" consider "OnMatch m \<in> set (fst (try_match i r a))"
    | "OnMatch m \<in> set (fst (match_remotes rs (snd (try_match i r a))))"
    by (auto simp: split_beta)
  then show ?case
    using try_match_topics "2.IH" [OF refl prod.collapse] by cases blast+
qed simp

lemma reap_no_match: "OnMatch m \<notin> set (fst (unmatch_dead is a))"
  by (induction "is" a rule: unmatch_dead.induct) (auto simp: Let_def split_beta)

lemma agent_step_topics:
  "OnMatch m \<in> set (fst (agent_step op a)) \<Longrightarrow> ep_topic (mi_local m) = ep_topic (mi_remote m)"
  by (cases op)
    (auto simp: handle_announcement_def Let_def rematch_if_dirty_def rematch_all_def reap_dead_def reap_no_match
      dest: try_match_topics match_remotes_topics split: if_splits)

lemma agent_inv_keyed:
  assumes "agent_inv a"
  shows "keyed (active_map a)"
proof -
  have "match_known a k m" if "active_map a k = Some m" for k m
    using assms that map_of_SomeD [of "ag_active a" k m] by (auto simp: agent_inv_def agent_ok_def active_map_def)
  then show ?thesis
    by (auto simp: keyed_def match_known_def match_pair_Some active_map_def finite_dom_map_of)
qed

section \<open>The invariant of a node\<close>

definition node_inv :: "'r node \<Rightarrow> bool" where
  "node_inv n \<longleftrightarrow> agent_inv (nd_agent n) \<and> tracks (nd_plane n) (ran (active_map (nd_agent n)))"

lemma tracks_set_bus:
  assumes "tracks w S" "\<And>t. set (te_remote_sinks (entry_at bus t)) = set (te_remote_sinks (entry_at (pl_bus w) t))"
  shows "tracks (w\<lparr>pl_bus := bus\<rparr>) S"
  using assms by (simp add: tracks_def bus_tracks_def)

lemma tracks_next_sink:
  assumes "tracks w S"
  shows "tracks (w\<lparr>pl_dp := (pl_dp w)\<lparr>dp_next_sink := Suc (dp_next_sink (pl_dp w))\<rparr>\<rparr>) S"
proof -
  let ?d = "pl_dp w" and ?d' = "(pl_dp w)\<lparr>dp_next_sink := Suc (dp_next_sink (pl_dp w))\<rparr>"
  have i: "same_identity ?d ?d'" by (simp add: same_identity_def)
  have "owner ?d' = owner ?d" "owned ?d' = owned ?d"
    by (simp_all add: fun_eq_iff owner_def owned_def split: sum.splits)
  then have "bus_tracks ?d' (pl_bus w)"
    using assms by (auto simp: tracks_def bus_tracks_def intro: less_SucI)
  then show ?thesis
    using assms tcp_tracks_cong [OF i] writer_tracks_cong [OF i] reader_tracks_cong [OF i]
    by (simp add: tracks_def)
qed

lemma remote_keep [simp]:
  "te_remote_sinks (entry_at (register_publisher bus t ty) t') = te_remote_sinks (entry_at bus t')"
  "te_remote_sinks (entry_at (subscribe bus t ty s) t') = te_remote_sinks (entry_at bus t')"
  "te_remote_sinks (entry_at (snd (deliver_inbound alive bus t)) t') = te_remote_sinks (entry_at bus t')"
  by (auto simp: register_publisher_def subscribe_def deliver_inbound_def entry_at_def check_type_def Let_def
      split: option.splits)

lemma remote_publish:
  "te_remote_sinks (entry_at (snd (bus_publish alive bus t ty)) t') =
     (if t' = t \<and> (te_type (entry_at bus t) = ty \<or> te_type (entry_at bus t) = [])
      then filter alive (te_remote_sinks (entry_at bus t')) else te_remote_sinks (entry_at bus t'))"
  by (auto simp: bus_publish_def entry_at_def check_type_def new_entry_def Let_def split: option.splits)

lemma tracks_publish:
  assumes "tracks w S"
  shows "tracks (w\<lparr>pl_bus := snd (bus_publish (node_alive live w) (pl_bus w) t ty)\<rparr>) S"
proof (rule tracks_set_bus [OF assms])
  have "node_alive live w s" if "s \<in> set (te_remote_sinks (entry_at (pl_bus w) t))" for s t
    using assms that owned_alive [of s "pl_dp w" t] by (auto simp: tracks_def bus_tracks_def node_alive_def)
  then show "set (te_remote_sinks (entry_at (snd (bus_publish (node_alive live w) (pl_bus w) t ty)) t')) =
      set (te_remote_sinks (entry_at (pl_bus w) t'))" for t'
    by (auto simp: remote_publish)
qed

lemma add_endpoint_inv:
  assumes "agent_inv a"
  shows "agent_inv (add_endpoint k t ty rel resp a)" "active_map (add_endpoint k t ty rel resp a) = active_map a"
  using agent_step_inv [of "AddEndpoint k t ty rel resp" a, OF _ assms] by (auto simp: add_endpoint_def active_map_def)

lemma register_inv: "node_inv n \<Longrightarrow> node_inv (register k t ty q resp n)"
  by (simp add: node_inv_def register_def add_endpoint_inv)

lemma add_entity_inv: "node_inv n \<Longrightarrow> node_inv (add_entity e n)"
  by (simp add: node_inv_def add_entity_def)

lemma set_bus_inv:
  "node_inv n \<Longrightarrow> (\<And>t. set (te_remote_sinks (entry_at bus t)) = set (te_remote_sinks (entry_at (pl_bus (nd_plane n)) t))) \<Longrightarrow>
    node_inv (set_bus bus n)"
  by (simp add: node_inv_def set_bus_def tracks_set_bus)

lemmas node_inv_intros = register_inv add_entity_inv set_bus_inv

lemma fresh_sink_inv: "fresh_sink n = (s, n') \<Longrightarrow> node_inv n \<Longrightarrow>
    node_inv n' \<and> pl_bus (nd_plane n') = pl_bus (nd_plane n) \<and> nd_entities n' = nd_entities n"
  using tracks_next_sink [of "nd_plane n"] by (auto simp: node_inv_def fresh_sink_def Let_def)

lemma registrar_inv: "node_inv n \<Longrightarrow> node_inv (foldl (\<lambda>n r. node_registrar q r n) n rs)"
  by (induction rs arbitrary: n) (auto simp: node_registrar_def intro: register_inv)

lemma make_service_bus [simp]:
  "te_remote_sinks (entry_at (snd (snd (make_service sn q reg s bus))) t) = te_remote_sinks (entry_at bus t)"
  by (simp add: make_service_def Let_def)

lemma make_client_bus [simp]:
  "te_remote_sinks (entry_at (snd (snd (make_client sn cid q s bus))) t) = te_remote_sinks (entry_at bus t)"
  by (simp add: make_client_def create_publisher_def Let_def)

lemma publisher_for_bus: "publisher_for rt sv bus = (pub, regs, sv', bus') \<Longrightarrow>
    te_remote_sinks (entry_at bus' t) = te_remote_sinks (entry_at bus t)"
  by (auto simp: publisher_for_def create_publisher_def split: option.splits)

lemma create_inv:
  assumes "node_inv n"
  shows "node_inv (snd (node_create_publisher t ty q n))"
    and "node_inv (snd (node_create_subscriber t ty q n))"
    and "node_inv (snd (node_create_service t ty ty' q n))"
    and "node_inv (snd (node_create_client t ty ty' q n))"
proof -
  show "node_inv (snd (node_create_publisher t ty q n))"
    using assms by (auto simp: node_create_publisher_def create_publisher_def intro!: node_inv_intros)
  obtain s n1 where f: "fresh_sink n = (s, n1)" by (cases "fresh_sink n")
  note n1 = fresh_sink_inv [OF f assms]
  show "node_inv (snd (node_create_subscriber t ty q n))"
    using n1 by (auto simp: node_create_subscriber_def f Let_def intro!: node_inv_intros)
  show "node_inv (snd (node_create_service t ty ty' q n))"
    using n1 by (auto simp: node_create_service_def f Let_def split_beta intro!: node_inv_intros)
  show "node_inv (snd (node_create_client t ty ty' q n))"
    using n1 by (auto simp: node_create_client_def f Let_def split_beta intro!: node_inv_intros)
qed

lemma discovery_inv:
  assumes "node_inv n"
  shows "\<exists>n'. node_step old (Discovery op) n = Some n' \<and> node_inv n'"
proof -
  obtain evs a where s: "agent_step op (nd_agent n) = (evs, a)" by (cases "agent_step op (nd_agent n)")
  have a: "agent_inv a" "replay evs (active_map (nd_agent n)) = Some (active_map a)"
    using agent_step_inv [OF s] assms by (simp_all add: node_inv_def)
  have "\<forall>m. OnMatch m \<in> set evs \<longrightarrow> ep_topic (mi_local m) = ep_topic (mi_remote m)"
    using agent_step_topics [of _ op "nd_agent n"] s by simp
  from plane_events_track [OF a(2) agent_inv_keyed _ this, of "nd_plane n" old] assms
  obtain w where "plane_events all_ok old evs (nd_plane n) = Some w" "tracks w (ran (active_map a))"
    by (auto simp: node_inv_def)
  with s a(1) assms show ?thesis by (auto simp: node_inv_def)
qed

lemma node_step_inv:
  assumes "node_inv n"
  shows "\<exists>n'. node_step old op n = Some n' \<and> node_inv n'"
proof (cases op)
  case (ServiceReplyTopic i t)
  have e: "node_inv (n\<lparr>nd_entities := es\<rparr>)" for es using assms by (simp add: node_inv_def)
  show ?thesis
    using ServiceReplyTopic assms e publisher_for_bus [of t _ "pl_bus (nd_plane n)"]
    by (auto split: entity.splits prod.splits intro!: registrar_inv node_inv_intros)
next
  case (NodePublish live t ty)
  then show ?thesis
    using assms tracks_publish by (auto simp: node_inv_def set_bus_def)
next
  case (NodeInbound live t)
  then show ?thesis using assms by (auto intro!: node_inv_intros)
next
  case (Discovery op)
  then show ?thesis using discovery_inv [OF assms] by blast
qed (use create_inv [OF assms] in auto)

lemma node_run_inv:
  assumes "node_inv n"
  shows "\<exists>n'. node_run old ops n = Some n' \<and> node_inv n'"
  using assms
proof (induction ops arbitrary: n)
  case (Cons op ops)
  obtain n1 where "node_step old op n = Some n1" "node_inv n1" using node_step_inv [OF Cons.prems] by blast
  with Cons.IH [of n1] show ?case by simp
qed simp

lemma make_node_inv:
  assumes "ne_listening env = Some port"
  shows "node_inv (make_node name options env :: 'r node)"
proof -
  let ?n = "make_node name options env :: 'r node"
  have "\<exists>ip port pid host shm. pl_dp (nd_plane ?n) =
      set_local_identity pid host shm (snd (dp_start (Some port) (new_data_plane ip)))"
    unfolding make_node_def Let_def assms by (simp, blast)
  moreover have "te_remote_sinks (entry_at (pl_bus (nd_plane ?n)) t) = []" for t
    by (simp add: make_node_def Let_def entry_at_def new_entry_def)
  ultimately have "fresh_plane (nd_plane ?n)"
    by (simp add: fresh_plane_def)
  then have "tracks (nd_plane ?n) {}" by (rule fresh_tracks)
  moreover have "agent_inv (nd_agent ?n)" "ran (active_map (nd_agent ?n)) = {}"
    by (auto simp: make_node_def Let_def agent_inv_def on_match_def on_unmatch_def new_agent_def agent_ok_def agent_start_def
        agent_complete_def active_keys_def active_map_def)
  ultimately show ?thesis by (simp add: node_inv_def)
qed

section \<open>What the invariant says of the bus\<close>

lemma tracked_tcp:
  assumes "tracks w S" "m \<in> S" "wants_tcp (pl_dp w) m"
  shows "\<exists>r. dp_sinks (pl_dp w) (match_key m) = Some r \<and> rs_topic r = topic_of m \<and>
    rs_id r \<in> set (te_remote_sinks (entry_at (pl_bus w) (topic_of m))) \<and>
    sm_find (dp_connections (pl_dp w)) (mi_pid m) = Some (rs_conn r)"
proof -
  obtain r where r: "dp_sinks (pl_dp w) (match_key m) = Some r" "rs_topic r = topic_of m"
    "sm_find (dp_connections (pl_dp w)) (mi_pid m) = Some (rs_conn r)"
    using assms by (auto simp: tracks_def tcp_tracks_def)
  then have "rs_id r \<in> owned (pl_dp w) (topic_of m)"
    by (auto simp: owned_def ran_def)
  with assms(1) r show ?thesis by (auto simp: tracks_def bus_tracks_def)
qed

lemma tracked_writer:
  assumes "tracks w S" "finite S" "m \<in> S" "wants_writer (pl_dp w) m"
  shows "\<exists>p. sm_find (dp_shm_pub (pl_dp w)) (topic_of m) = Some p \<and>
    sp_id p \<in> set (te_remote_sinks (entry_at (pl_bus w) (topic_of m)))"
proof -
  have "tally (\<lambda>x. wants_writer (pl_dp w) x \<and> topic_of x = topic_of m) S \<noteq> 0"
    using assms by (auto simp: tally_0)
  then obtain p where p: "sm_find (dp_shm_pub (pl_dp w)) (topic_of m) = Some p"
    using assms(1) by (cases "sm_find (dp_shm_pub (pl_dp w)) (topic_of m)")
      (auto simp: tracks_def writer_tracks_def count_opt_def dest!: spec [where x = "topic_of m"])
  then have "sp_id p \<in> owned (pl_dp w) (topic_of m)" by (simp add: owned_def)
  with assms(1) p show ?thesis by (auto simp: tracks_def bus_tracks_def)
qed

lemma tracked_sink:
  assumes "tracks w S" "finite S" "s \<in> set (te_remote_sinks (entry_at (pl_bus w) t))"
  shows "\<exists>m \<in> S. topic_of m = t \<and> (wants_tcp (pl_dp w) m \<or> wants_writer (pl_dp w) m)"
proof -
  have "s \<in> owned (pl_dp w) t" using assms by (auto simp: tracks_def bus_tracks_def)
  then consider (tcp) k r where "dp_sinks (pl_dp w) k = Some r" "rs_topic r = t"
    | (shm) p where "sm_find (dp_shm_pub (pl_dp w)) t = Some p"
    by (auto simp: owned_def ran_def)
  then show ?thesis
  proof cases
    case (tcp k r)
    then obtain m where m: "m \<in> S" "wants_tcp (pl_dp w) m" "match_key m = k"
      using assms(1) unfolding tracks_def tcp_tracks_def by blast
    with tracked_tcp [OF assms(1) m(1,2)] tcp show ?thesis by auto
  next
    case (shm p)
    then have "count_opt (tally (\<lambda>m. wants_writer (pl_dp w) m \<and> topic_of m = t) S) = Some (sp_ref p)"
      using assms(1) by (auto simp: tracks_def writer_tracks_def dest!: spec [where x = t])
    then have "tally (\<lambda>m. wants_writer (pl_dp w) m \<and> topic_of m = t) S \<noteq> 0" by (auto simp: count_opt_def split: if_splits)
    with assms(2) show ?thesis by (auto simp: tally_0)
  qed
qed

lemma tracked_empty:
  assumes "tracks w {}"
  shows "dp_connections (pl_dp w) = []" "dp_shm_pub (pl_dp w) = []" "\<exists>rm. dp_readers (pl_dp w) = Some rm \<and> rm_readers rm = []"
proof -
  have none: "tally P {} = 0" for P :: "match_info \<Rightarrow> bool" by (simp add: tally_def)
  show "dp_connections (pl_dp w) = []"
    using assms by (simp add: tracks_def tcp_tracks_def none) (metis map_of_eq_empty_iff ext)
  show "dp_shm_pub (pl_dp w) = []"
    using assms by (simp add: tracks_def writer_tracks_def none) (metis map_of_eq_empty_iff ext)
  show "\<exists>rm. dp_readers (pl_dp w) = Some rm \<and> rm_readers rm = []"
    using assms by (simp add: tracks_def reader_tracks_def none) (metis map_of_eq_empty_iff ext)
qed

lemma active_finite: "agent_inv a \<Longrightarrow> finite (ran (active_map a))"
  using agent_inv_keyed keyed_match_set by (auto simp: match_set_def)

section \<open>Properties\<close>


text \<open>A node on host \<open>h0\<close> that publishes on a topic, and the announcement of a subscriber on host \<open>h\<close>.\<close>

definition env_x :: node_env where
  "env_x = \<lparr>ne_listening = Some 4000, ne_pid = 1, ne_host = ''h0'',
     ne_shm = pl_shm plane_x, ne_multicast = (\<lambda>g p. True)\<rparr>"

definition node_ops_x :: "node_op list" where
  "node_ops_x = [CreatePublisher (ep_topic pub_x) (ep_type pub_x) default_qos, Discovery (Announced 10 ann_x), Discovery Rematch]"

definition node_x :: "unit node option" where
  "node_x = node_run (\<lambda>i j. CHR ''x'') node_ops_x (make_node ''m'' default_options env_x)"

lemma node_x_match:
  "\<exists>n. node_x = Some n \<and> match_x \<in> ran (active_map (nd_agent n)) \<and> wants_tcp (pl_dp (nd_plane n)) match_x \<and>
     te_type (entry_at (pl_bus (nd_plane n)) ''x'') = ''T'' \<and> topic_of match_x = ''x''"
proof -
  have "\<exists>n. node_x = Some n \<and> active_map (nd_agent n) (match_key match_x) = Some match_x \<and> wants_tcp (pl_dp (nd_plane n)) match_x \<and>
     te_type (entry_at (pl_bus (nd_plane n)) ''x'') = ''T''"
    by (simp add: node_x_def node_ops_x_def make_node_def env_x_def default_options_def node_create_publisher_def register_def
        add_entity_def set_bus_def create_publisher_def register_publisher_def check_type_def entry_at_def new_entry_def
        agent_start_def default_qos_def x_defs plane_defs handle_match_def tcp_pub_match_def connection_for_def add_remote_sink_def
        active_map_def wants_tcp_def)
  then show ?thesis by (auto simp: match_x_def pub_x_def intro: ranI)
qed


text \<open>
  Publishing reaches subscribers in other processes. In every history of a node, publishing on a topic with an active match
  that goes over TCP hands the message to a remote sink of that match, which sends one envelope on the
  connection of the matched participant; and whatever the state of a bus that receives this envelope, each of its live
  subscribers of the topic gets exactly the published bytes.
\<close>
theorem remote_publish_reaches_subscriber:
  assumes "ne_listening env = Some port" "node_run old ops (make_node name options env) = Some n"
    and "m \<in> ran (active_map (nd_agent n))" "wants_tcp (pl_dp (nd_plane n)) m"
    and "pub_topic p = topic_of m" "te_type (entry_at (pl_bus (nd_plane n)) (topic_of m)) = pub_type p"
    and "ser x = Some bs" "env_ser (topic_of m, bs) = Some out"
    and "\<And>t b out. env_ser (t, b) = Some out \<Longrightarrow> env_parse out = Some (t, b)"
    and "s \<in> set (te_sinks (entry_at bus (topic_of m)))" "alive s"
  shows "\<exists>r. dp_sinks (pl_dp (nd_plane n)) (match_key m) = Some r \<and>
    (rs_id r, bs) \<in> set (fst (snd (publish ser (node_alive live (nd_plane n)) p x (pl_bus (nd_plane n))))) \<and>
    remote_sink_enqueue env_ser r bs = Some (rs_conn r, out) \<and>
    sm_find (dp_connections (pl_dp (nd_plane n))) (mi_pid m) = Some (rs_conn r) \<and>
    (s, bs) \<in> set (fst (on_inbound env_parse alive out bus))"
proof -
  have "node_inv n" using node_run_inv [OF make_node_inv [OF assms(1)]] assms(2) by (metis option.inject)
  then have tr: "tracks (nd_plane n) (ran (active_map (nd_agent n)))" by (simp add: node_inv_def)
  obtain r where r: "dp_sinks (pl_dp (nd_plane n)) (match_key m) = Some r" "rs_topic r = topic_of m"
    "rs_id r \<in> set (te_remote_sinks (entry_at (pl_bus (nd_plane n)) (topic_of m)))"
    "sm_find (dp_connections (pl_dp (nd_plane n))) (mi_pid m) = Some (rs_conn r)"
    using tracked_tcp [OF tr assms(3,4)] by blast
  obtain e where e: "pl_bus (nd_plane n) (topic_of m) = Some e" "te_type e = pub_type p" "rs_id r \<in> set (te_remote_sinks e)"
    using r(3) assms(6) by (auto simp: entry_at_def new_entry_def split: option.splits)
  have "node_alive live (nd_plane n) (rs_id r)"
    using r(1) by (auto simp: node_alive_def dp_alive_def)
  with e assms(5,7) have "(rs_id r, bs) \<in> set (fst (snd (publish ser (node_alive live (nd_plane n)) p x (pl_bus (nd_plane n)))))"
    by (auto simp: publish_def split_beta bus_publish_targets(1))
  moreover have "remote_sink_enqueue env_ser r bs = Some (rs_conn r, out)"
    using r(2) assms(8) by (simp add: remote_sink_enqueue_def)
  moreover have "(s, bs) \<in> set (fst (on_inbound env_parse alive out bus))"
    using assms(8-11) by (auto simp: on_inbound_def deliver_inbound_def entry_at_def new_entry_def split_beta split: option.splits)
  ultimately show ?thesis using r by blast
qed

theorem remote_publish_reaches_subscriber_witness:
  "\<exists>n out. node_x = Some n \<and> toy_ser (''x'', ''hi'') = Some out \<and>
    (3, ''hi'') \<in> set (fst (on_inbound toy_parse (\<lambda>_. True) out (subscribe (\<lambda>_. None) ''x'' ''T'' 3)))"
proof -
  obtain n where n: "node_x = Some n" "match_x \<in> ran (active_map (nd_agent n))" "wants_tcp (pl_dp (nd_plane n)) match_x"
    "te_type (entry_at (pl_bus (nd_plane n)) ''x'') = ''T''" "topic_of match_x = ''x''"
    using node_x_match by blast
  have rt: "toy_parse out = Some (t, b)" if "toy_ser (t, b) = Some out" for t b out
    using that by (auto simp: toy_ser_def toy_parse_def split: if_splits)
  obtain out where out: "toy_ser (''x'', ''hi'') = Some out" by (simp add: toy_ser_def)
  have l: "ne_listening env_x = Some 4000" by (simp add: env_x_def)
  have s: "3 \<in> set (te_sinks (entry_at (subscribe (\<lambda>_. None) ''x'' ''T'' 3) ''x''))"
    by (simp add: subscribe_def entry_at_def check_type_def new_entry_def)
  from remote_publish_reaches_subscriber [OF l n(1) [unfolded node_x_def] n(2,3), where p = "\<lparr>pub_topic = ''x'', pub_type = ''T'', pub_qos = default_qos\<rparr>"
      and ser = Some and x = "''hi''" and env_ser = toy_ser and env_parse = toy_parse and s = 3 and alive = "\<lambda>_. True"
      and bus = "subscribe (\<lambda>_. None) ''x'' ''T'' 3"] n(4,5) out rt s
  have "(3, ''hi'') \<in> set (fst (on_inbound toy_parse (\<lambda>_. True) out (subscribe (\<lambda>_. None) ''x'' ''T'' 3)))"
    by auto
  with n(1) out show ?thesis by blast
qed

text \<open>
  C29: The first reply to a client in another process is lost. In every history of a node, when a service handles a
  request whose reply topic the node has not announced as one it publishes on and has no local subscriber for,
  \<open>publisher_for\<close> creates and registers the publisher and the reply is published at once, before discovery can have
  connected it: it is handed to no sink at all, whatever the handler does.
\<close>
theorem first_remote_reply_lost:
  assumes "ne_listening env = Some port" "node_run old ops (make_node name options env) = Some n"
    and "\<forall>e \<in> set (ag_endpoints (nd_agent n)). ep_kind e = PUBLISHER \<longrightarrow> ep_topic e \<noteq> rq_reply_topic wr"
    and "te_sinks (entry_at (pl_bus (nd_plane n)) (rq_reply_topic wr)) = []"
    and "sm_find (sv_response_pubs sv) (rq_reply_topic wr) = None" "sv_registrar sv"
  shows "\<exists>sv' bus'. handle_request codec (node_alive live (nd_plane n)) handler wr sv (pl_bus (nd_plane n)) =
    ([], [(rq_reply_topic wr, reply_type)], sv', bus')"
proof -
  let ?t = "rq_reply_topic wr" and ?bus = "pl_bus (nd_plane n)"
  have inv: "node_inv n" using node_run_inv [OF make_node_inv [OF assms(1)]] assms(2) by (metis option.inject)
  then have a: "agent_inv (nd_agent n)" and tr: "tracks (nd_plane n) (ran (active_map (nd_agent n)))"
    by (simp_all add: node_inv_def)
  have "te_remote_sinks (entry_at ?bus ?t) = []"
  proof (rule ccontr)
    assume "te_remote_sinks (entry_at ?bus ?t) \<noteq> []"
    then obtain s where "s \<in> set (te_remote_sinks (entry_at ?bus ?t))" by (meson last_in_set)
    from tracked_sink [OF tr active_finite [OF a] this] obtain m where m: "m \<in> ran (active_map (nd_agent n))" "topic_of m = ?t"
      "wants_tcp (pl_dp (nd_plane n)) m \<or> wants_writer (pl_dp (nd_plane n)) m" by blast
    from m(1) obtain k where "(k, m) \<in> set (ag_active (nd_agent n))"
      by (auto simp: ran_def active_map_def dest: map_of_SomeD)
    with a have "mi_local m \<in> set (ag_endpoints (nd_agent n))"
      by (auto simp: agent_inv_def agent_ok_def match_known_def)
    with assms(3) m(2,3) show False by (auto simp: wants_tcp_def wants_writer_def)
  qed
  then have "fst (bus_publish alive (register_publisher ?bus ?t reply_type) ?t reply_type) = []" for alive
    using assms(4) by (auto simp: bus_publish_def register_publisher_def check_type_def Let_def)
  then show ?thesis
    using assms(5,6)
    by (auto simp: handle_request_reply publish_reply_def publisher_for_def create_publisher_def publish_def split_beta
        split: option.splits)
qed

text \<open>A node with a service, and a request from another process.\<close>

definition service_ops :: "node_op list" where
  "service_ops = [CreateService ''echo'' ''Q'' ''R'' default_qos]"

definition remote_request :: rpc_request where
  "remote_request = \<lparr>rq_id = 1, rq_reply_topic = ''/_mm/rpc/echo/reply/c'', rq_payload = ''hi''\<rparr>"

definition echo_service :: service where
  "echo_service = fst (make_service ''echo'' default_qos True 0 (\<lambda>_. None))"

theorem first_remote_reply_lost_witness:
  "\<exists>n. node_run (\<lambda>i j. CHR ''x'') service_ops (make_node ''m'' default_options env_x :: unit node) = Some n \<and>
    nd_entities n = [ServiceEntity echo_service] \<and>
    fst (handle_request field_codec (node_alive (\<lambda>_. True) (nd_plane n)) shout remote_request echo_service (pl_bus (nd_plane n))) = []"
proof -
  define n where "n = snd (node_create_service ''echo'' ''Q'' ''R'' default_qos (make_node ''m'' default_options env_x :: unit node))"
  have n: "node_run (\<lambda>i j. CHR ''x'') service_ops (make_node ''m'' default_options env_x) = Some n"
    by (simp add: service_ops_def n_def)
  have e: "nd_entities n = [ServiceEntity echo_service]"
    "\<forall>e \<in> set (ag_endpoints (nd_agent n)). ep_kind e = PUBLISHER \<longrightarrow> ep_topic e \<noteq> rq_reply_topic remote_request"
    "te_sinks (entry_at (pl_bus (nd_plane n)) (rq_reply_topic remote_request)) = []"
    "sm_find (sv_response_pubs echo_service) (rq_reply_topic remote_request) = None" "sv_registrar echo_service"
    unfolding n_def by code_simp+
  have l: "ne_listening env_x = Some 4000" by (simp add: env_x_def)
  from first_remote_reply_lost [OF l n e(2-5), of field_codec "\<lambda>_. True" shout] e(1) n show ?thesis by fastforce
qed

section \<open>Names of clients\<close>

lemma digit_alnum: "isdigit c \<Longrightarrow> isalnum c"
  by (simp add: isalnum_def)

lemma alnum_not_underscore: "isalnum c \<Longrightarrow> c \<noteq> CHR ''_''"
  by (auto simp: isalnum_def isdigit_def)

lemma sanitize_suffix:
  assumes "c \<in> set p" "isalnum c" "d \<noteq> []" "\<forall>x \<in> set d. isdigit x"
  shows "rpc_sanitize_segment (p @ ''-'' @ d) = dropWhile (\<lambda>c. c = CHR ''_'') (map replace_char p) @ ''_'' @ d"
proof -
  let ?us = "\<lambda>c. c = CHR ''_''"
  have d: "map replace_char d = d"
    using assms(4) by (intro map_idI) (auto simp: replace_char_def digit_alnum)
  have "c \<in> set (map replace_char p)" using assms(1,2) by (force simp: replace_char_def)
  then have front: "dropWhile ?us (map replace_char p @ ''_'' @ d) = dropWhile ?us (map replace_char p) @ ''_'' @ d"
    using alnum_not_underscore [OF assms(2)] by (rule dropWhile_append1)
  have "\<not> ?us (last d)"
    using assms(3,4) alnum_not_underscore digit_alnum last_in_set by blast
  then have rear: "rev (dropWhile ?us (rev (xs @ d))) = xs @ d" for xs
    using assms(3) by (cases d rule: rev_cases) auto
  have m: "map replace_char (p @ ''-'' @ d) = map replace_char p @ ''_'' @ d"
    by (simp add: d) (simp add: replace_char_def isalnum_def isdigit_def)
  have r: "rev (dropWhile ?us (rev (xs @ ''_'' @ d))) = xs @ ''_'' @ d" for xs
    using rear [of "xs @ ''_''"] by (simp only: append_assoc)
  show ?thesis
    unfolding rpc_sanitize_segment_def Let_def m front r by simp
qed

lemma client_segments_distinct:
  assumes "rpc_reply_topic s (nm @ ''-'' @ to_string p @ ''-'' @ to_string i) =
    rpc_reply_topic s' (nm @ ''-'' @ to_string p @ ''-'' @ to_string j)"
  shows "i = j"
proof -
  let ?q = "nm @ ''-'' @ to_string p"
  define c where "c = hd (to_string p)"
  have "c \<in> set (to_string p)" unfolding c_def by (rule hd_in_set) simp
  then have c: "c \<in> set ?q" "isalnum c" by (auto intro: digit_alnum to_string_digits)
  have "rpc_sanitize_segment (?q @ ''-'' @ to_string k) =
      dropWhile (\<lambda>c. c = CHR ''_'') (map replace_char ?q) @ ''_'' @ to_string k" for k
    by (rule sanitize_suffix [OF c]) (use to_string_digits in auto)
  moreover have "rpc_client_segment (?q @ ''-'' @ to_string i) = rpc_client_segment (?q @ ''-'' @ to_string j)"
    using assms split_at_slash [OF segment_no_slash segment_no_slash, of s _ s'] 
    by (simp add: rpc_reply_topic_def rpc_topic_segment_def)
  ultimately show ?thesis by (simp add: rpc_client_segment_def)
qed

definition clients_named :: "string \<Rightarrow> u64 \<Rightarrow> 'r node \<Rightarrow> bool" where
  "clients_named nm pid n \<longleftrightarrow> nd_name n = nm \<and> ag_pid (nd_agent n) = pid \<and>
     (\<forall>i < length (nd_entities n). \<forall>c. nd_entities n ! i = ClientEntity c \<longrightarrow>
        (\<exists>s. cl_reply_topic c = rpc_reply_topic s (nm @ ''-'' @ to_string (unat pid) @ ''-'' @ to_string i)))"

lemma note_matches_pid [simp]: "ag_pid (snd (note_matches h ms a)) = ag_pid a"
  by (induction h ms a rule: note_matches.induct) (auto simp: Let_def split_beta)

lemma try_match_pid [simp]: "ag_pid (snd (try_match i r a)) = ag_pid a"
  by (simp add: try_match_def)

lemma match_remotes_pid [simp]: "ag_pid (snd (match_remotes rs a)) = ag_pid a"
proof (induction rs a rule: match_remotes.induct)
  case (2 i r rs a)
  then show ?case using "2.IH" [OF refl prod.collapse] by (simp add: split_beta)
qed simp

lemma unmatch_dead_pid [simp]: "ag_pid (snd (unmatch_dead is a)) = ag_pid a"
  by (induction "is" a rule: unmatch_dead.induct) (auto simp: Let_def split_beta)

lemma agent_step_pid: "ag_pid (snd (agent_step op a)) = ag_pid a"
  by (cases op) (simp_all add: add_endpoint_def set_timing_def handle_announcement_def Let_def rematch_if_dirty_def
      rematch_all_def reap_dead_def)

lemma clients_named_add:
  assumes "clients_named nm pid n" "\<And>c. e = ClientEntity c \<Longrightarrow> \<exists>s. cl_reply_topic c = rpc_reply_topic s (client_id_of n)"
  shows "clients_named nm pid (add_entity e n)"
  using assms by (auto simp: clients_named_def add_entity_def nth_append client_id_of_def less_Suc_eq)

lemma clients_named_other [simp]:
  "clients_named nm pid (set_bus bus n) = clients_named nm pid n"
  "clients_named nm pid (register k t ty q resp n) = clients_named nm pid n"
  "clients_named nm pid (snd (fresh_sink n)) = clients_named nm pid n"
  "client_id_of (set_bus bus n) = client_id_of n"
  "client_id_of (snd (fresh_sink n)) = client_id_of n"
  by (simp_all add: clients_named_def set_bus_def register_def add_endpoint_def fresh_sink_def Let_def client_id_of_def)

lemma clients_named_registrar [simp]:
  "clients_named nm pid (foldl (\<lambda>n r. node_registrar q r n) n rs) = clients_named nm pid n"
  by (induction rs arbitrary: n) (simp_all add: node_registrar_def)

lemma clients_named_step:
  assumes "clients_named nm pid n" "node_step old op n = Some n'"
  shows "clients_named nm pid n'"
proof (cases op)
  case (CreateClient sn qt rt q)
  have "cl_reply_topic (fst (make_client sn cid q s bus :: 'a client \<times> rpc_reply subscriber \<times> local_bus)) = rpc_reply_topic sn cid" for cid s bus
    by (simp add: make_client_def Let_def create_publisher_def)
  with CreateClient assms show ?thesis
    by (auto simp: node_create_client_def Let_def split_beta intro!: clients_named_add exI [of _ sn])
next
  case (ServiceReplyTopic i t)
  have "nd_entities n ! k = ClientEntity c" if "(nd_entities n)[i := ServiceEntity sv] ! k = ClientEntity c" "k < length (nd_entities n)" for sv k c
    using that by (cases "k = i") auto
  then have "clients_named nm pid (n\<lparr>nd_entities := (nd_entities n)[i := ServiceEntity sv]\<rparr>)" for sv
    using assms(1) by (simp add: clients_named_def)
  with ServiceReplyTopic assms show ?thesis
    by (auto split: if_splits entity.splits prod.splits)
next
  case (Discovery aop)
  with assms agent_step_pid [of aop "nd_agent n"] show ?thesis
    by (auto simp: clients_named_def split: if_splits prod.splits option.splits)
qed (use assms in \<open>auto simp: node_create_publisher_def node_create_subscriber_def node_create_service_def Let_def split_beta
  intro!: clients_named_add\<close>)

lemma clients_named_run:
  "clients_named nm pid n \<Longrightarrow> node_run old ops n = Some n' \<Longrightarrow> clients_named nm pid n'"
  by (induction ops arbitrary: n) (auto simp: bind_eq_Some_conv dest: clients_named_step)

text \<open>
  Replies are never mixed up between the clients of a node: in every history, two different clients of the node have
  different reply topics, whatever the node and the services are called, although names are sanitised and services may
  share their request topic.
\<close>
theorem client_reply_topics_distinct:
  assumes "node_run old ops (make_node name options env) = Some n"
    and "i < length (nd_entities n)" "j < length (nd_entities n)" "i \<noteq> j"
    and "nd_entities n ! i = ClientEntity c" "nd_entities n ! j = ClientEntity c'"
  shows "cl_reply_topic c \<noteq> cl_reply_topic c'"
proof -
  have "clients_named name (ne_pid env) (make_node name options env)"
    by (simp add: clients_named_def make_node_def Let_def agent_start_def on_match_def on_unmatch_def new_agent_def)
  from clients_named_run [OF this assms(1)] assms(2-6) client_segments_distinct show ?thesis
    unfolding clients_named_def by metis
qed

theorem client_reply_topics_distinct_witness:
  "\<exists>n c c'. node_run (\<lambda>i j. CHR ''x'') [CreateClient ''a.b'' ''Q'' ''R'' default_qos, CreateClient ''a_b'' ''Q'' ''R'' default_qos]
     (make_node ''m'' default_options env_x :: unit node) = Some n \<and> nd_entities n = [ClientEntity c, ClientEntity c'] \<and>
     cl_request_topic c = cl_request_topic c' \<and> cl_reply_topic c \<noteq> cl_reply_topic c'"
proof -
  define n0 where "n0 = (make_node ''m'' default_options env_x :: unit node)"
  define n1 where "n1 = snd (node_create_client ''a.b'' ''Q'' ''R'' default_qos n0)"
  define n where "n = snd (node_create_client ''a_b'' ''Q'' ''R'' default_qos n1)"
  define c where "c = fst (fst (node_create_client ''a.b'' ''Q'' ''R'' default_qos n0))"
  define c' where "c' = fst (fst (node_create_client ''a_b'' ''Q'' ''R'' default_qos n1))"
  have r: "node_run (\<lambda>i j. CHR ''x'') [CreateClient ''a.b'' ''Q'' ''R'' default_qos, CreateClient ''a_b'' ''Q'' ''R'' default_qos] n0 = Some n"
    by (simp add: n_def n1_def)
  have e: "nd_entities n = [ClientEntity c, ClientEntity c']"
    by (simp add: n_def n1_def c_def c'_def node_create_client_def register_def add_entity_def set_bus_def fresh_sink_def
        n0_def make_node_def Let_def split_beta)
  have "cl_request_topic c = rpc_request_topic ''a.b''" "cl_request_topic c' = rpc_request_topic ''a_b''"
    by (simp_all add: c_def c'_def node_create_client_def make_client_def create_publisher_def Let_def split_beta)
  moreover have "rpc_request_topic ''a.b'' = rpc_request_topic ''a_b''" by code_simp
  ultimately have q: "cl_request_topic c = cl_request_topic c'" by simp
  from client_reply_topics_distinct [OF r [unfolded n0_def], of 0 1 c c'] e q r show ?thesis unfolding n0_def by auto
qed

end
