(* ===== verification/Peer_Knowledge.thy ===== *)
theory Peer_Knowledge
  imports Node
begin

text \<open>
  What a node knows of others and what it keeps of itself, in every history: the fields of agent and data plane that never
  change, where remembered participants and matches come from, which addresses connections were opened to, and how the sinks
  and types on the bus go with the announced endpoints. These facts are about one node; the theory \<open>Network\<close> puts nodes together.
\<close>

section \<open>The agent's fixed fields\<close>

definition agent_static :: "agent \<Rightarrow> string \<times> locator \<times> u64 \<times> bool" where
  "agent_static a = (ag_node a, ag_locator a, ag_pid a, ag_running a)"

lemma agent_static_simps [simp]:
  "agent_static (a\<lparr>ag_active := x\<rparr>) = agent_static a" "agent_static (a\<lparr>ag_remotes := y\<rparr>) = agent_static a"
  "agent_static (a\<lparr>ag_dirty := b\<rparr>) = agent_static a" "agent_static (a\<lparr>ag_last_announce := t\<rparr>) = agent_static a"
  "agent_static (add_endpoint k t' ty rel resp a) = agent_static a" "agent_static (set_timing i l a) = agent_static a"
  by (simp_all add: agent_static_def add_endpoint_def set_timing_def)

lemma note_matches_keeps:
  "agent_static (snd (note_matches host ms a)) = agent_static a \<and> ag_endpoints (snd (note_matches host ms a)) = ag_endpoints a \<and>
   ag_remotes (snd (note_matches host ms a)) = ag_remotes a"
  by (induction host ms a rule: note_matches.induct) (simp_all add: Let_def split_beta)

lemma match_remotes_keeps:
  "agent_static (snd (match_remotes rs a)) = agent_static a \<and> ag_endpoints (snd (match_remotes rs a)) = ag_endpoints a \<and>
   ag_remotes (snd (match_remotes rs a)) = ag_remotes a"
proof (induction rs arbitrary: a)
  case (Cons x rs)
  then show ?case by (cases x) (simp add: try_match_def note_matches_keeps split_beta)
qed simp

lemma unmatch_dead_keeps:
  "agent_static (snd (unmatch_dead is a)) = agent_static a \<and> ag_endpoints (snd (unmatch_dead is a)) = ag_endpoints a \<and>
   ag_remotes (snd (unmatch_dead is a)) = ag_remotes a"
  by (induction "is" a rule: unmatch_dead.induct) (simp_all add: Let_def split_beta)

lemmas agent_keeps = note_matches_keeps match_remotes_keeps unmatch_dead_keeps

lemma agent_step_static: "agent_static (snd (agent_step op a)) = agent_static a"
  by (cases op) (simp_all add: handle_announcement_def try_match_def Let_def rematch_if_dirty_def rematch_all_def reap_dead_def agent_keeps)

lemma agent_step_endpoints: "prefix (ag_endpoints a) (ag_endpoints (snd (agent_step op a)))"
  by (cases op)
    (simp_all add: handle_announcement_def try_match_def Let_def rematch_if_dirty_def rematch_all_def reap_dead_def agent_keeps
      add_endpoint_def set_timing_def)

section \<open>Where knowledge comes from\<close>

definition believes :: "(u64 \<Rightarrow> remote_peer \<Rightarrow> bool) \<Rightarrow> (match_info \<Rightarrow> bool) \<Rightarrow> agent \<Rightarrow> bool" where
  "believes peer sound a \<longleftrightarrow> (\<forall>(p, r) \<in> set (ag_remotes a). peer p r) \<and> (\<forall>(k, m) \<in> set (ag_active a). sound m)"

text \<open>
  \<open>peer\<close> is what may be believed of a participant and \<open>sound\<close> what follows for a match: a match believed is one of a
  believed participant, with an endpoint of its record. Then an agent that hears only what may be
  believed remembers only that.
\<close>

locale peer_knowledge =
  fixes peer :: "u64 \<Rightarrow> remote_peer \<Rightarrow> bool"
    and sound :: "match_info \<Rightarrow> bool"
  assumes sound_intro: "peer p r \<Longrightarrow> mi_pid m = p \<Longrightarrow> mi_locator m = rp_locator r \<Longrightarrow> mi_host m = rp_host r \<Longrightarrow>
      mi_remote m \<in> set (rp_endpoints r) \<Longrightarrow> sound m"
begin

abbreviation trusts :: "agent \<Rightarrow> bool" where
  "trusts \<equiv> believes peer sound"

lemma note_matches_believed:
  "\<forall>m \<in> set ms. sound (m\<lparr>mi_host := host\<rparr>) \<Longrightarrow> \<forall>(k, m) \<in> set (ag_active a). sound m \<Longrightarrow>
    (\<forall>(k, m) \<in> set (ag_active (snd (note_matches host ms a))). sound m) \<and>
    (\<forall>m. OnMatch m \<in> set (fst (note_matches host ms a)) \<longrightarrow> sound m)"
proof (induction ms arbitrary: a)
  case (Cons m ms)
  let ?m = "m\<lparr>mi_host := host\<rparr>"
  let ?a = "a\<lparr>ag_active := sm_put (match_key m) ?m (ag_active a)\<rparr>"
  have f: "sound ?m" using Cons.prems(1) by simp
  then have "\<forall>(k, m) \<in> set (ag_active ?a). sound m" using Cons.prems(2) by (auto dest!: sm_put_mem)
  from Cons.IH [OF _ this] Cons.IH [OF _ Cons.prems(2)] Cons.prems(1) f show ?case
    by (simp add: Let_def split_beta)
qed simp

lemma try_match_believed:
  assumes "peer p r" "trusts a"
  shows "trusts (snd (try_match p r a)) \<and> (\<forall>m. OnMatch m \<in> set (fst (try_match p r a)) \<longrightarrow> sound m)"
proof -
  have "\<forall>m \<in> set (match_endpoints (ag_endpoints a) p (rp_locator r) (rp_endpoints r)). sound (m\<lparr>mi_host := rp_host r\<rparr>)"
    by (auto simp: set_match_endpoints match_pair_Some intro!: sound_intro [OF assms(1)])
  from note_matches_believed [OF this, of a] assms(2) show ?thesis
    unfolding believes_def try_match_def by (simp add: agent_keeps)
qed

lemma match_remotes_believed:
  "\<forall>(p, r) \<in> set rs. peer p r \<Longrightarrow> trusts a \<Longrightarrow>
    trusts (snd (match_remotes rs a)) \<and> (\<forall>m. OnMatch m \<in> set (fst (match_remotes rs a)) \<longrightarrow> sound m)"
proof (induction rs a rule: match_remotes.induct)
  case (2 p r rs a)
  from try_match_believed [of p r a] "2.prems"
  have t: "trusts (snd (try_match p r a))" "\<forall>m. OnMatch m \<in> set (fst (try_match p r a)) \<longrightarrow> sound m" by auto
  from "2.IH" [OF refl prod.collapse _ t(1)] "2.prems" t(2) show ?case by (auto simp: split_beta)
qed simp

lemma unmatch_dead_believed: "trusts a \<Longrightarrow> trusts (snd (unmatch_dead is a))"
proof (induction "is" arbitrary: a)
  case (Cons i "is")
  have "trusts (a\<lparr>ag_active := filter (\<lambda>(k, m). mi_pid m \<noteq> i) (ag_active a)\<rparr>)"
    using Cons.prems by (auto simp: believes_def)
  from Cons.IH [OF this] show ?case by (simp add: Let_def split_beta)
qed simp

lemma agent_step_believed:
  assumes "trusts a"
    and "\<And>now ann r. op = Announced now ann \<Longrightarrow> r = \<lparr>rp_node = an_node ann, rp_endpoints = an_endpoints ann, rp_locator = an_locator ann,
            rp_host = an_host ann, rp_last_seen = now\<rparr> \<Longrightarrow> peer (an_pid ann) r"
  shows "trusts (snd (agent_step op a)) \<and> (\<forall>m. OnMatch m \<in> set (fst (agent_step op a)) \<longrightarrow> sound m)"
proof (cases op)
  case (Announced now ann)
  define r where "r = \<lparr>rp_node = an_node ann, rp_endpoints = an_endpoints ann, rp_locator = an_locator ann,
            rp_host = an_host ann, rp_last_seen = now\<rparr>"
  have p: "peer (an_pid ann) r" using assms(2) [OF Announced r_def] .
  then have "trusts (a\<lparr>ag_remotes := sm_put (an_pid ann) r (ag_remotes a)\<rparr>)"
    using assms(1) by (auto simp: believes_def dest!: sm_put_mem)
  from try_match_believed [OF p this] assms(1) Announced show ?thesis
    by (auto simp: handle_announcement_def Let_def r_def)
next
  case Rematch
  have "trusts (a\<lparr>ag_dirty := False\<rparr>)" "\<forall>(p, r) \<in> set (ag_remotes a). peer p r"
    using assms(1) by (auto simp: believes_def)
  with match_remotes_believed [of "ag_remotes a" "a\<lparr>ag_dirty := False\<rparr>"] Rematch assms(1) show ?thesis
    by (auto simp: rematch_if_dirty_def rematch_all_def)
next
  case (Reap now)
  have "trusts (a\<lparr>ag_remotes := filter (\<lambda>(i, r). \<not> is_dead now a r) (ag_remotes a)\<rparr>)"
    using assms(1) by (auto simp: believes_def)
  with unmatch_dead_believed Reap show ?thesis by (simp add: reap_dead_def reap_no_match)
qed (use assms(1) in \<open>auto simp: believes_def add_endpoint_def set_timing_def\<close>)

end

section \<open>The identity of the data plane\<close>

text \<open>The identity a data plane is given by its node never changes.\<close>

lemma tcp_match_identity: "same_identity (pl_dp w) (pl_dp (tcp_pub_match m w))"
  by (simp add: tcp_pub_match_def connection_for_def same_identity_def Let_def split: option.splits)

lemma tcp_unmatch_identity: "same_identity (pl_dp w) (pl_dp (tcp_pub_unmatch m w))"
  by (simp add: tcp_pub_unmatch_def same_identity_def Let_def split: option.splits)

lemma shm_pub_match_identity: "same_identity (pl_dp w) (pl_dp (shm_pub_match oc old m w))"
  by (simp add: shm_pub_match_def same_identity_def Let_def split: option.splits prod.splits)

lemma shm_pub_unmatch_identity: "same_identity (pl_dp w) (pl_dp (shm_pub_unmatch m w))"
  by (simp add: shm_pub_unmatch_def same_identity_def Let_def split: option.splits)

lemma shm_sub_identity:
  "shm_sub_match m w = Some w' \<Longrightarrow> same_identity (pl_dp w) (pl_dp w')"
  "shm_sub_unmatch m w = Some w' \<Longrightarrow> same_identity (pl_dp w) (pl_dp w')"
  by (auto simp: shm_sub_match_def shm_sub_unmatch_def same_identity_def Let_def split: option.splits if_splits)

lemma same_identity_refl: "same_identity d d"
  by (simp add: same_identity_def)

lemma same_identity_trans: "same_identity d d' \<Longrightarrow> same_identity d' d'' \<Longrightarrow> same_identity d d''"
  by (simp add: same_identity_def)

lemmas identity_steps = tcp_match_identity tcp_unmatch_identity shm_pub_match_identity shm_pub_unmatch_identity
  shm_sub_identity same_identity_refl

lemma callback_identity:
  "handle_match oc old m w = Some w' \<Longrightarrow> same_identity (pl_dp w) (pl_dp w')"
  "handle_unmatch m w = Some w' \<Longrightarrow> same_identity (pl_dp w) (pl_dp w')"
  using identity_steps by (auto simp: handle_match_def handle_unmatch_def Let_def split: if_splits)

lemma plane_events_identity: "plane_events oc old evs w = Some w' \<Longrightarrow> same_identity (pl_dp w) (pl_dp w')"
proof (induction oc old evs w rule: plane_events.induct)
  case (2 oc old m evs w)
  then obtain v where "handle_match oc old m w = Some v" "plane_events oc old evs v = Some w'" by (auto simp: bind_eq_Some_conv)
  with "2.IH" callback_identity(1) same_identity_trans show ?case by blast
next
  case (3 oc old m evs w)
  then obtain v where "handle_unmatch m w = Some v" "plane_events oc old evs v = Some w'" by (auto simp: bind_eq_Some_conv)
  with "3.IH" callback_identity(2) same_identity_trans show ?case by blast
qed (simp add: same_identity_refl)

lemma node_parts_identity [simp]:
  "pl_dp (nd_plane (register k t ty q r n)) = pl_dp (nd_plane n)" "pl_dp (nd_plane (add_entity e n)) = pl_dp (nd_plane n)"
  "pl_dp (nd_plane (set_bus b n)) = pl_dp (nd_plane n)"
  by (simp_all add: register_def add_entity_def set_bus_def)

lemma registrar_identity [simp]: "pl_dp (nd_plane (foldl (\<lambda>n r. node_registrar q r n) n rs)) = pl_dp (nd_plane n)"
  by (induction rs arbitrary: n) (simp_all add: node_registrar_def)

lemma node_step_identity:
  assumes "node_step old op n = Some n'"
  shows "same_identity (pl_dp (nd_plane n)) (pl_dp (nd_plane n'))"
  using assms plane_events_identity
  by (cases op)
    (auto simp: node_create_publisher_def node_create_subscriber_def node_create_service_def node_create_client_def fresh_sink_def
      same_identity_def Let_def split_beta split: if_splits entity.splits prod.splits option.splits)

lemma node_run_identity: "node_run old ops n = Some n' \<Longrightarrow> same_identity (pl_dp (nd_plane n)) (pl_dp (nd_plane n'))"
proof (induction ops arbitrary: n)
  case (Cons op ops)
  then obtain v where "node_step old op n = Some v" "node_run old ops v = Some n'" by (auto simp: bind_eq_Some_conv)
  with Cons.IH node_step_identity same_identity_trans show ?case by blast
qed (simp add: same_identity_refl)

section \<open>A node's agent\<close>

lemma node_parts_agent [simp]:
  "nd_agent (add_entity e n) = nd_agent n" "nd_agent (set_bus b n) = nd_agent n" "nd_agent (snd (fresh_sink n)) = nd_agent n"
  "nd_agent (register k t ty q resp n) =
     add_endpoint k t ty (of_int (reliability_int (qos_reliability q))) resp (nd_agent n)"
  by (simp_all add: add_entity_def set_bus_def fresh_sink_def register_def Let_def)

text \<open>Every operation of the agent is one of its own steps; the others add endpoints.\<close>

inductive adds_endpoints :: "agent \<Rightarrow> agent \<Rightarrow> bool" where
  adds_none: "adds_endpoints a a"
| adds_one: "adds_endpoints a b \<Longrightarrow> adds_endpoints a (add_endpoint k t ty rel resp b)"

declare adds_endpoints.intros [simp]

lemma adds_endpoints_keeps:
  assumes "adds_endpoints a b"
  shows "agent_static b = agent_static a" "prefix (ag_endpoints a) (ag_endpoints b)" "ag_remotes b = ag_remotes a" "ag_active b = ag_active a"
  using assms by (induction rule: adds_endpoints.induct) (simp_all add: add_endpoint_def agent_static_def)

lemma registrar_adds: "adds_endpoints a (nd_agent n) \<Longrightarrow> adds_endpoints a (nd_agent (foldl (\<lambda>n r. node_registrar q r n) n rs))"
proof (induction rs arbitrary: n)
  case (Cons r rs)
  from adds_one [OF Cons.prems] have "adds_endpoints a (nd_agent (node_registrar q r n))" by (simp add: node_registrar_def)
  from Cons.IH [OF this] show ?case by simp
qed simp

lemma node_step_agent:
  assumes "node_step old op n = Some n'"
  obtains (adds) "adds_endpoints (nd_agent n) (nd_agent n')" "\<nexists>o'. op = Discovery o'"
  | (idle) o' where "op = Discovery o'" "n' = n" "\<not> ag_running (nd_agent n)"
  | (steps) o' where "op = Discovery o'" "ag_running (nd_agent n)" "nd_agent n' = snd (agent_step o' (nd_agent n))"
      "plane_events all_ok old (fst (agent_step o' (nd_agent n))) (nd_plane n) = Some (nd_plane n')"
proof (cases op)
  case (ServiceReplyTopic i t)
  have "adds_endpoints (nd_agent n) (nd_agent (foldl (\<lambda>n r. node_registrar q r n) (set_bus b (n\<lparr>nd_entities := es\<rparr>)) rs))" for q b es rs
    by (rule registrar_adds) (simp add: adds_none)
  with ServiceReplyTopic show thesis
    using assms adds by (auto split: if_splits entity.splits prod.splits intro: adds_none)
next
  case (Discovery o')
  then show thesis
    using assms idle steps by (auto split: if_splits prod.splits option.splits)
qed (use assms adds in \<open>auto simp: node_create_publisher_def node_create_subscriber_def node_create_service_def node_create_client_def
    Let_def split_beta\<close>)

lemma node_step_static:
  assumes "node_step old op n = Some n'"
  shows "agent_static (nd_agent n') = agent_static (nd_agent n)" "prefix (ag_endpoints (nd_agent n)) (ag_endpoints (nd_agent n'))"
  using assms by (cases rule: node_step_agent; simp add: adds_endpoints_keeps agent_step_static agent_step_endpoints)+

section \<open>Where connections go\<close>

text \<open>
  \<open>at p l\<close> says that participant \<open>p\<close> may be at locator \<open>l\<close>. Each connection in use was started to such a locator and has not been
  stopped, and participants do not share connections.
\<close>

definition conns_ok :: "(u64 \<Rightarrow> locator \<Rightarrow> bool) \<Rightarrow> plane \<Rightarrow> bool" where
  "conns_ok at w \<longleftrightarrow>
     (\<forall>p c. sm_find (dp_connections (pl_dp w)) p = Some c \<longrightarrow>
        c < dp_next_conn (pl_dp w) \<and> ConnStop c \<notin> set (pl_calls w) \<and>
        (\<exists>l. at p l \<and> ConnStart c (loc_ip l) (ucast (loc_port l)) \<in> set (pl_calls w))) \<and>
     (\<forall>p p' c. sm_find (dp_connections (pl_dp w)) p = Some c \<longrightarrow> sm_find (dp_connections (pl_dp w)) p' = Some c \<longrightarrow> p = p') \<and>
     (\<forall>c. ConnStop c \<in> set (pl_calls w) \<longrightarrow> c < dp_next_conn (pl_dp w))"

lemma conns_ok_cong:
  "dp_connections (pl_dp w') = dp_connections (pl_dp w) \<Longrightarrow> dp_next_conn (pl_dp w') = dp_next_conn (pl_dp w) \<Longrightarrow>
   pl_calls w' = pl_calls w \<Longrightarrow> conns_ok at w' = conns_ok at w"
  by (simp add: conns_ok_def)

lemma connection_for_ok:
  assumes "conns_ok at w" "at p l" "connection_for p l w = (c, w')"
  shows "conns_ok at w'"
proof (cases "sm_find (dp_connections (pl_dp w)) p")
  case None
  let ?n = "dp_next_conn (pl_dp w)"
  have w': "dp_connections (pl_dp w') = sm_put p ?n (dp_connections (pl_dp w))" "dp_next_conn (pl_dp w') = Suc ?n"
    "pl_calls w' = pl_calls w @ [ConnStart ?n (loc_ip l) (ucast (loc_port l))]"
    using assms(3) None by (auto simp: connection_for_def Let_def)
  have stops: "ConnStop c \<in> set (pl_calls w) \<Longrightarrow> c < ?n" for c using assms(1) by (auto simp: conns_ok_def)
  have old: "c < ?n \<and> ConnStop c \<notin> set (pl_calls w) \<and> (\<exists>l. at q l \<and> ConnStart c (loc_ip l) (ucast (loc_port l)) \<in> set (pl_calls w))"
    "sm_find (dp_connections (pl_dp w)) q' = Some c \<Longrightarrow> q = q'" if "sm_find (dp_connections (pl_dp w)) q = Some c" for q q' c
    using assms(1) that by (auto simp: conns_ok_def)
  show ?thesis unfolding conns_ok_def w' map_of_sm_put
  proof (intro conjI allI impI)
    fix q c assume "((sm_find (dp_connections (pl_dp w)))(p \<mapsto> ?n)) q = Some c"
    then consider (new) "q = p" "c = ?n" | (kept) "sm_find (dp_connections (pl_dp w)) q = Some c"
      by (cases "q = p") simp_all
    then have "c < Suc ?n \<and> ConnStop c \<notin> set (pl_calls w @ [ConnStart ?n (loc_ip l) (ucast (loc_port l))]) \<and>
      (\<exists>l'. at q l' \<and> ConnStart c (loc_ip l') (ucast (loc_port l')) \<in> set (pl_calls w @ [ConnStart ?n (loc_ip l) (ucast (loc_port l))]))"
    proof cases
      case new
      then show ?thesis using stops [of ?n] assms(2) by auto
    next
      case kept
      then show ?thesis using old(1) [OF kept] by auto
    qed
    then show "c < Suc ?n" "ConnStop c \<notin> set (pl_calls w @ [ConnStart ?n (loc_ip l) (ucast (loc_port l))])"
      "\<exists>l'. at q l' \<and> ConnStart c (loc_ip l') (ucast (loc_port l')) \<in> set (pl_calls w @ [ConnStart ?n (loc_ip l) (ucast (loc_port l))])"
      by blast+
  next
    fix q q' c
    assume "((sm_find (dp_connections (pl_dp w)))(p \<mapsto> ?n)) q = Some c" "((sm_find (dp_connections (pl_dp w)))(p \<mapsto> ?n)) q' = Some c"
    then show "q = q'" using old(1) [of q] old(1) [of q'] old(2) [of q c q'] by (auto split: if_splits)
  next
    fix c assume "ConnStop c \<in> set (pl_calls w @ [ConnStart ?n (loc_ip l) (ucast (loc_port l))])"
    then show "c < Suc ?n" using stops by fastforce
  qed
qed (use assms in \<open>auto simp: connection_for_def\<close>)

lemma tcp_pub_match_conns:
  assumes "conns_ok at w" "at (mi_pid m) (mi_locator m)"
  shows "conns_ok at (tcp_pub_match m w)"
proof (cases "dp_sinks (pl_dp w) (match_key m) = None")
  case True
  obtain c w' where c: "connection_for (mi_pid m) (mi_locator m) w = (c, w')" by fastforce
  have "conns_ok at (tcp_pub_match m w) = conns_ok at w'"
    by (rule conns_ok_cong) (simp_all add: tcp_pub_match_def True c Let_def)
  with connection_for_ok [OF assms c] show ?thesis by simp
qed (use assms in \<open>simp add: tcp_pub_match_def\<close>)

lemma conns_ok_stop:
  assumes "conns_ok at w" "sm_find (dp_connections (pl_dp w)) p = Some c"
    and "dp_connections (pl_dp w') = sm_erase p (dp_connections (pl_dp w))" "dp_next_conn (pl_dp w') = dp_next_conn (pl_dp w)"
    and "pl_calls w' = pl_calls w @ [ConnStop c]"
  shows "conns_ok at w'"
  using assms(1,2) unfolding conns_ok_def assms(3-5) map_of_sm_erase by (fastforce split: if_splits)

lemma tcp_pub_unmatch_conns:
  assumes "conns_ok at w"
  shows "conns_ok at (tcp_pub_unmatch m w)"
proof -
  let ?w = "tcp_pub_unmatch m w"
  consider "dp_connections (pl_dp ?w) = dp_connections (pl_dp w) \<and> dp_next_conn (pl_dp ?w) = dp_next_conn (pl_dp w) \<and> pl_calls ?w = pl_calls w"
    | c where "sm_find (dp_connections (pl_dp w)) (mi_pid m) = Some c" "dp_connections (pl_dp ?w) = sm_erase (mi_pid m) (dp_connections (pl_dp w))"
      "dp_next_conn (pl_dp ?w) = dp_next_conn (pl_dp w)" "pl_calls ?w = pl_calls w @ [ConnStop c]"
    by (fastforce simp: tcp_pub_unmatch_def Let_def split: option.splits if_splits)
  then show ?thesis
    by cases (use assms conns_ok_cong in blast, use assms conns_ok_stop in blast)
qed

lemma shm_conns [simp]:
  "conns_ok at (shm_pub_match oc old m w) = conns_ok at w" "conns_ok at (shm_pub_unmatch m w) = conns_ok at w"
  by (rule conns_ok_cong; simp add: shm_pub_match_def shm_pub_unmatch_def Let_def split: option.splits prod.splits)+

lemma shm_sub_conns:
  "shm_sub_match m w = Some w' \<Longrightarrow> conns_ok at w' = conns_ok at w"
  "shm_sub_unmatch m w = Some w' \<Longrightarrow> conns_ok at w' = conns_ok at w"
  by (rule conns_ok_cong; auto simp: shm_sub_match_def shm_sub_unmatch_def Let_def split: option.splits if_splits)+

lemma callback_conns:
  "handle_match oc old m w = Some w' \<Longrightarrow> conns_ok at w \<Longrightarrow> at (mi_pid m) (mi_locator m) \<Longrightarrow> conns_ok at w'"
  "handle_unmatch m w = Some w' \<Longrightarrow> conns_ok at w \<Longrightarrow> conns_ok at w'"
  by (auto simp: handle_match_def handle_unmatch_def Let_def shm_sub_conns tcp_pub_match_conns tcp_pub_unmatch_conns split: if_splits)

lemma plane_events_conns:
  "plane_events oc old evs w = Some w' \<Longrightarrow> conns_ok at w \<Longrightarrow> \<forall>m. OnMatch m \<in> set evs \<longrightarrow> at (mi_pid m) (mi_locator m) \<Longrightarrow> conns_ok at w'"
proof (induction oc old evs w rule: plane_events.induct)
  case (2 oc old m evs w)
  then obtain v where "handle_match oc old m w = Some v" "plane_events oc old evs v = Some w'" by (auto simp: bind_eq_Some_conv)
  with 2 callback_conns(1) show ?case by simp
next
  case (3 oc old m evs w)
  then obtain v where "handle_unmatch m w = Some v" "plane_events oc old evs v = Some w'" by (auto simp: bind_eq_Some_conv)
  with 3 callback_conns(2) show ?case by simp
qed simp

text \<open>Only discovery touches the connections.\<close>

lemma node_parts_conns [simp]:
  "conns_ok at (nd_plane (add_entity e n)) = conns_ok at (nd_plane n)" "conns_ok at (nd_plane (set_bus b n)) = conns_ok at (nd_plane n)"
  "conns_ok at (nd_plane (snd (fresh_sink n))) = conns_ok at (nd_plane n)" "conns_ok at (nd_plane (register k t ty q resp n)) = conns_ok at (nd_plane n)"
  by (rule conns_ok_cong; simp add: add_entity_def set_bus_def fresh_sink_def register_def Let_def)+

lemma registrar_conns [simp]: "conns_ok at (nd_plane (foldl (\<lambda>n r. node_registrar q r n) n rs)) = conns_ok at (nd_plane n)"
  by (induction rs arbitrary: n) (simp_all add: node_registrar_def)

lemma node_step_conns:
  assumes "node_step old op n = Some n'" "\<nexists>o'. op = Discovery o'"
  shows "conns_ok at (nd_plane n') = conns_ok at (nd_plane n)"
proof (cases op)
  case (ServiceReplyTopic i t)
  have "conns_ok at (nd_plane (n\<lparr>nd_entities := es\<rparr>)) = conns_ok at (nd_plane n)" for es by simp
  with ServiceReplyTopic assms show ?thesis by (auto split: if_splits entity.splits prod.splits)
qed (use assms in \<open>auto simp: node_create_publisher_def node_create_subscriber_def node_create_service_def node_create_client_def
    Let_def split_beta\<close>)

section \<open>Sinks and types on the bus\<close>

text \<open>No sink is registered twice, and new identities are new.\<close>

definition entry_ok :: "nat \<Rightarrow> topic_entry \<Rightarrow> bool" where
  "entry_ok k e \<longleftrightarrow> distinct (te_sinks e @ te_remote_sinks e) \<and> (\<forall>s \<in> set (te_sinks e @ te_remote_sinks e). s < k)"

definition sinks_ok :: "plane \<Rightarrow> bool" where
  "sinks_ok w \<longleftrightarrow> (\<forall>t. entry_ok (dp_next_sink (pl_dp w)) (entry_at (pl_bus w) t))"

lemma entry_ok_mono: "entry_ok k e \<Longrightarrow> k \<le> k' \<Longrightarrow> entry_ok k' e"
  unfolding entry_ok_def by (meson less_le_trans)

lemma entry_ok_Suc: "entry_ok k e \<Longrightarrow> entry_ok (Suc k) e"
  by (erule entry_ok_mono) simp

lemma entry_ok_filter:
  "entry_ok k e \<Longrightarrow> te_sinks e' = filter P (te_sinks e) \<Longrightarrow> te_remote_sinks e' = filter Q (te_remote_sinks e) \<Longrightarrow> entry_ok k e'"
  by (auto simp: entry_ok_def)

lemma entry_ok_new:
  "entry_ok k e \<Longrightarrow> entry_ok (Suc k) (e\<lparr>te_sinks := te_sinks e @ [k]\<rparr>)"
  "entry_ok k e \<Longrightarrow> entry_ok (Suc k) (e\<lparr>te_remote_sinks := te_remote_sinks e @ [k]\<rparr>)"
  by (auto simp: entry_ok_def less_Suc_eq)

text \<open>A topic with local subscribers has the type of an announced subscriber endpoint.\<close>

definition typed_bus :: "endpoint_info set \<Rightarrow> local_bus \<Rightarrow> bool" where
  "typed_bus E bus \<longleftrightarrow> (\<forall>t. te_sinks (entry_at bus t) \<noteq> [] \<longrightarrow> te_type (entry_at bus t) \<noteq> [] \<and>
     (\<exists>e \<in> E. ep_kind e = SUBSCRIBER \<and> ep_topic e = t \<and> ep_type e = te_type (entry_at bus t)))"

text \<open>Operations that add no sink.\<close>

definition shrinks :: "local_bus \<Rightarrow> local_bus \<Rightarrow> bool" where
  "shrinks b b' \<longleftrightarrow> (\<forall>t. (\<exists>P. te_sinks (entry_at b' t) = filter P (te_sinks (entry_at b t))) \<and>
     (\<exists>Q. te_remote_sinks (entry_at b' t) = filter Q (te_remote_sinks (entry_at b t))) \<and>
     (te_type (entry_at b t) \<noteq> [] \<longrightarrow> te_type (entry_at b' t) = te_type (entry_at b t)))"

lemma entry_at_upd: "entry_at (b(t \<mapsto> e)) t' = (if t' = t then e else entry_at b t')"
  by (simp add: entry_at_def)

lemma same_filter: "\<exists>P. xs = filter P xs"
  by (rule exI [of _ "\<lambda>_. True"]) simp

lemma shrinks_refl: "shrinks b b"
  by (simp add: shrinks_def same_filter)

lemma shrinks_trans: "shrinks b b' \<Longrightarrow> shrinks b' b'' \<Longrightarrow> shrinks b b''"
  unfolding shrinks_def by (metis filter_filter)

lemma shrinks_upd:
  assumes "\<exists>P. te_sinks e = filter P (te_sinks (entry_at b t))" "\<exists>Q. te_remote_sinks e = filter Q (te_remote_sinks (entry_at b t))"
    and "te_type (entry_at b t) \<noteq> [] \<longrightarrow> te_type e = te_type (entry_at b t)"
  shows "shrinks b (b(t \<mapsto> e))"
  using assms by (simp add: shrinks_def entry_at_upd same_filter)

lemma check_type_entry:
  "te_sinks (snd (check_type e ty)) = te_sinks e" "te_remote_sinks (snd (check_type e ty)) = te_remote_sinks e"
  "te_type e \<noteq> [] \<Longrightarrow> te_type (snd (check_type e ty)) = te_type e"
  "fst (check_type e ty) \<Longrightarrow> te_type (snd (check_type e ty)) = ty"
  by (auto simp: check_type_def split: if_splits)

lemma entry_ok_check [simp]: "entry_ok k (snd (check_type e ty)) = entry_ok k e"
  by (simp add: entry_ok_def check_type_entry)

lemma entry_at_Some: "b t = Some e \<Longrightarrow> entry_at b t = e"
  by (simp add: entry_at_def)

lemma shrinks_ops:
  "shrinks b (register_publisher b t ty)" "shrinks b (snd (bus_publish alive b t ty))"
  "shrinks b (snd (deliver_inbound alive b t))" "shrinks b (remove_remote_sink alive b t s)"
proof -
  show "shrinks b (register_publisher b t ty)"
    by (auto simp: register_publisher_def check_type_entry same_filter intro!: shrinks_upd)
  show "shrinks b (snd (deliver_inbound alive b t))"
    by (auto simp: deliver_inbound_def shrinks_refl Let_def entry_at_Some same_filter intro!: shrinks_upd split: option.splits)
  show "shrinks b (remove_remote_sink alive b t s)"
    by (auto simp: remove_remote_sink_def shrinks_refl entry_at_Some same_filter intro!: shrinks_upd split: option.splits)
  show "shrinks b (snd (bus_publish alive b t ty))"
    by (auto simp: bus_publish_def shrinks_refl Let_def split_beta entry_at_Some check_type_entry same_filter intro!: shrinks_upd split: option.splits)
qed

lemma sinks_ok_shrinks:
  assumes "sinks_ok w" "shrinks (pl_bus w) (pl_bus w')" "dp_next_sink (pl_dp w) \<le> dp_next_sink (pl_dp w')"
  shows "sinks_ok w'"
  unfolding sinks_ok_def
proof (rule allI)
  fix t
  from assms(2) obtain P Q where f: "te_sinks (entry_at (pl_bus w') t) = filter P (te_sinks (entry_at (pl_bus w) t))"
    "te_remote_sinks (entry_at (pl_bus w') t) = filter Q (te_remote_sinks (entry_at (pl_bus w) t))"
    unfolding shrinks_def by blast
  have "entry_ok (dp_next_sink (pl_dp w)) (entry_at (pl_bus w) t)" using assms(1) by (simp add: sinks_ok_def)
  from entry_ok_mono [OF entry_ok_filter [OF this f] assms(3)]
  show "entry_ok (dp_next_sink (pl_dp w')) (entry_at (pl_bus w') t)" .
qed

lemma typed_bus_shrinks:
  assumes "typed_bus E b" "shrinks b b'" "E \<subseteq> E'"
  shows "typed_bus E' b'"
  unfolding typed_bus_def
proof (intro allI impI)
  fix t assume n: "te_sinks (entry_at b' t) \<noteq> []"
  from assms(2) obtain P where f: "te_sinks (entry_at b' t) = filter P (te_sinks (entry_at b t))"
    and ty: "te_type (entry_at b t) \<noteq> [] \<longrightarrow> te_type (entry_at b' t) = te_type (entry_at b t)"
    unfolding shrinks_def by blast
  from n f have "te_sinks (entry_at b t) \<noteq> []" by auto
  with assms(1,3) ty show "te_type (entry_at b' t) \<noteq> [] \<and>
      (\<exists>e \<in> E'. ep_kind e = SUBSCRIBER \<and> ep_topic e = t \<and> ep_type e = te_type (entry_at b' t))"
    unfolding typed_bus_def by (metis subsetD)
qed

lemma sinks_ok_add_remote:
  assumes "sinks_ok w" "pl_bus w' = add_remote_sink (pl_bus w) t (dp_next_sink (pl_dp w))"
    "dp_next_sink (pl_dp w') = Suc (dp_next_sink (pl_dp w))"
  shows "sinks_ok w'"
  using assms(1) unfolding sinks_ok_def assms(2,3) add_remote_sink_def Let_def entry_at_upd
  by (simp add: entry_ok_new entry_ok_Suc)

lemma typed_bus_add_remote: "typed_bus E b \<Longrightarrow> typed_bus E (add_remote_sink b t s)"
  by (simp add: typed_bus_def add_remote_sink_def Let_def entry_at_upd)

lemma sinks_ok_subscribe:
  assumes "sinks_ok w" "pl_bus w' = subscribe (pl_bus w) t ty (dp_next_sink (pl_dp w))"
    "dp_next_sink (pl_dp w') = Suc (dp_next_sink (pl_dp w))"
  shows "sinks_ok w'"
  unfolding sinks_ok_def
proof (rule allI)
  fix t'
  let ?k = "dp_next_sink (pl_dp w)" and ?c = "snd (check_type (entry_at (pl_bus w) t) ty)"
  have k: "entry_ok ?k (entry_at (pl_bus w) t')" "entry_ok ?k ?c" for t' using assms(1) by (simp_all add: sinks_ok_def)
  have "entry_at (pl_bus w') t' \<in> {entry_at (pl_bus w) t', ?c, ?c\<lparr>te_sinks := te_sinks ?c @ [?k]\<rparr>}"
    unfolding assms(2) by (simp add: subscribe_def Let_def split_beta entry_at_upd)
  with k entry_ok_new(1) [OF k(2)] show "entry_ok (dp_next_sink (pl_dp w')) (entry_at (pl_bus w') t')"
    unfolding assms(3) by (auto intro: entry_ok_Suc)
qed

lemma typed_bus_subscribe:
  assumes "typed_bus E b" "ty \<noteq> []" "e \<in> E'" "E \<subseteq> E'" "ep_kind e = SUBSCRIBER" "ep_topic e = t" "ep_type e = ty"
  shows "typed_bus E' (subscribe b t ty s)"
proof (cases "fst (check_type (entry_at b t) ty)")
  case True
  have "typed_bus E' b" using typed_bus_shrinks [OF assms(1) shrinks_refl assms(4)] .
  moreover have "te_type (snd (check_type (entry_at b t) ty)) = ty" using check_type_entry(4) [OF True] .
  ultimately show ?thesis
    using True assms by (auto simp: typed_bus_def subscribe_def Let_def split_beta entry_at_upd)
next
  case False
  have "shrinks b (subscribe b t ty s)"
    using False by (auto simp: subscribe_def Let_def split_beta check_type_entry same_filter intro!: shrinks_upd)
  then show ?thesis using typed_bus_shrinks [OF assms(1) _ assms(4)] by blast
qed

definition bus_inv :: "'r node \<Rightarrow> bool" where
  "bus_inv n \<longleftrightarrow> sinks_ok (nd_plane n) \<and> typed_bus (set (ag_endpoints (nd_agent n))) (pl_bus (nd_plane n))"

lemma bus_inv_shrinks:
  assumes "bus_inv n" "shrinks (pl_bus (nd_plane n)) (pl_bus (nd_plane n'))"
    "dp_next_sink (pl_dp (nd_plane n)) \<le> dp_next_sink (pl_dp (nd_plane n'))"
    "set (ag_endpoints (nd_agent n)) \<subseteq> set (ag_endpoints (nd_agent n'))"
  shows "bus_inv n'"
  using assms sinks_ok_shrinks typed_bus_shrinks unfolding bus_inv_def by blast

text \<open>The operations of the data plane leave the local subscribers alone.\<close>

definition plane_inv :: "endpoint_info set \<Rightarrow> plane \<Rightarrow> bool" where
  "plane_inv E w \<longleftrightarrow> sinks_ok w \<and> typed_bus E (pl_bus w)"

lemma plane_inv_shrinks:
  "plane_inv E w \<Longrightarrow> shrinks (pl_bus w) (pl_bus w') \<Longrightarrow> dp_next_sink (pl_dp w') = dp_next_sink (pl_dp w) \<Longrightarrow> plane_inv E w'"
  using sinks_ok_shrinks typed_bus_shrinks unfolding plane_inv_def by fastforce

lemma plane_inv_add_remote:
  "plane_inv E w \<Longrightarrow> pl_bus w' = add_remote_sink (pl_bus w) t (dp_next_sink (pl_dp w)) \<Longrightarrow>
   dp_next_sink (pl_dp w') = Suc (dp_next_sink (pl_dp w)) \<Longrightarrow> plane_inv E w'"
  using sinks_ok_add_remote typed_bus_add_remote unfolding plane_inv_def by fastforce

lemma tcp_pub_match_bus:
  assumes "plane_inv E w"
  shows "plane_inv E (tcp_pub_match m w)"
proof (cases "dp_sinks (pl_dp w) (match_key m) = None")
  case True
  obtain c w' where c: "connection_for (mi_pid m) (mi_locator m) w = (c, w')" by fastforce
  have "pl_bus w' = pl_bus w" "dp_next_sink (pl_dp w') = dp_next_sink (pl_dp w)"
    using c by (auto simp: connection_for_def Let_def split: option.splits)
  then show ?thesis
    by (intro plane_inv_add_remote [OF assms, of _ "ep_topic (mi_local m)"]) (simp_all add: tcp_pub_match_def True c Let_def)
qed (use assms in \<open>simp add: tcp_pub_match_def\<close>)

lemma tcp_pub_unmatch_bus:
  assumes "plane_inv E w"
  shows "plane_inv E (tcp_pub_unmatch m w)"
  by (rule plane_inv_shrinks [OF assms])
    (auto simp: tcp_pub_unmatch_def Let_def shrinks_refl shrinks_ops split: option.splits)

lemma shm_pub_match_bus:
  assumes "plane_inv E w"
  shows "plane_inv E (shm_pub_match oc old m w)"
proof -
  let ?w = "shm_pub_match oc old m w"
  consider "pl_bus ?w = pl_bus w \<and> dp_next_sink (pl_dp ?w) = dp_next_sink (pl_dp w)"
    | "pl_bus ?w = add_remote_sink (pl_bus w) (ep_topic (mi_local m)) (dp_next_sink (pl_dp w)) \<and>
       dp_next_sink (pl_dp ?w) = Suc (dp_next_sink (pl_dp w))"
    by (fastforce simp: shm_pub_match_def Let_def split: option.splits prod.splits)
  then show ?thesis
    by cases (use assms plane_inv_shrinks shrinks_refl in fastforce, use assms plane_inv_add_remote in blast)
qed

lemma shm_pub_unmatch_bus:
  assumes "plane_inv E w"
  shows "plane_inv E (shm_pub_unmatch m w)"
  by (rule plane_inv_shrinks [OF assms])
    (auto simp: shm_pub_unmatch_def Let_def shrinks_refl shrinks_ops split: option.splits)

lemma shm_sub_bus:
  assumes "shm_sub_match m w = Some w' \<or> shm_sub_unmatch m w = Some w'" "plane_inv E w"
  shows "plane_inv E w'"
  by (rule plane_inv_shrinks [OF assms(2)])
    (use assms(1) in \<open>auto simp: shm_sub_match_def shm_sub_unmatch_def Let_def shrinks_refl split: option.splits if_splits\<close>)

lemma callback_bus:
  "handle_match oc old m w = Some w' \<Longrightarrow> plane_inv E w \<Longrightarrow> plane_inv E w'"
  "handle_unmatch m w = Some w' \<Longrightarrow> plane_inv E w \<Longrightarrow> plane_inv E w'"
  using shm_sub_bus
  by (auto simp: handle_match_def handle_unmatch_def Let_def tcp_pub_match_bus tcp_pub_unmatch_bus shm_pub_match_bus shm_pub_unmatch_bus
      split: if_splits)

lemma plane_events_bus: "plane_events oc old evs w = Some w' \<Longrightarrow> plane_inv E w \<Longrightarrow> plane_inv E w'"
proof (induction oc old evs w rule: plane_events.induct)
  case (2 oc old m evs w)
  then obtain v where "handle_match oc old m w = Some v" "plane_events oc old evs v = Some w'" by (auto simp: bind_eq_Some_conv)
  with 2 callback_bus(1) show ?case by blast
next
  case (3 oc old m evs w)
  then obtain v where "handle_unmatch m w = Some v" "plane_events oc old evs v = Some w'" by (auto simp: bind_eq_Some_conv)
  with 3 callback_bus(2) show ?case by blast
qed simp

text \<open>Names of message types are not empty.\<close>

fun typed_node_op :: "node_op \<Rightarrow> bool" where
  "typed_node_op (CreateSubscriber t ty q) = (ty \<noteq> [])"
| "typed_node_op _ = True"

lemma fresh_sink_fields:
  "fst (fresh_sink n) = dp_next_sink (pl_dp (nd_plane n))" "pl_bus (nd_plane (snd (fresh_sink n))) = pl_bus (nd_plane n)"
  "dp_next_sink (pl_dp (nd_plane (snd (fresh_sink n)))) = Suc (dp_next_sink (pl_dp (nd_plane n)))"
  by (simp_all add: fresh_sink_def Let_def)

lemma node_parts_bus [simp]:
  "pl_bus (nd_plane (register k t ty q r n)) = pl_bus (nd_plane n)" "pl_bus (nd_plane (add_entity e n)) = pl_bus (nd_plane n)"
  "pl_bus (nd_plane (set_bus b n)) = b"
  by (simp_all add: register_def add_entity_def set_bus_def)

lemma registrar_bus [simp]: "pl_bus (nd_plane (foldl (\<lambda>n r. node_registrar q r n) n rs)) = pl_bus (nd_plane n)"
  by (induction rs arbitrary: n) (simp_all add: node_registrar_def)

lemma registrar_endpoints:
  "set (ag_endpoints (nd_agent n)) \<subseteq> set (ag_endpoints (nd_agent (foldl (\<lambda>n r. node_registrar q r n) n rs)))"
  using adds_endpoints_keeps(2) [OF registrar_adds [OF adds_none]] set_mono_prefix by blast

lemma add_endpoint_endpoints [simp]:
  "ag_endpoints (add_endpoint k t ty rel resp a) = ag_endpoints a @
     [\<lparr>ep_kind = k, ep_topic = t, ep_type = ty, ep_reliability = rel, ep_response = resp\<rparr>]"
  by (simp add: add_endpoint_def)

text \<open>Subscribing a new sink and registering the endpoint, possibly with others.\<close>

lemma bus_inv_subscribe:
  assumes "bus_inv n" "ty \<noteq> []" "pl_bus (nd_plane n') = subscribe b t ty (dp_next_sink (pl_dp (nd_plane n)))"
    and "shrinks (pl_bus (nd_plane n)) b" "dp_next_sink (pl_dp (nd_plane n')) = Suc (dp_next_sink (pl_dp (nd_plane n)))"
    and "insert e (set (ag_endpoints (nd_agent n))) \<subseteq> set (ag_endpoints (nd_agent n'))"
    and "ep_kind e = SUBSCRIBER" "ep_topic e = t" "ep_type e = ty"
  shows "bus_inv n'"
proof -
  let ?w = "(nd_plane n)\<lparr>pl_bus := b\<rparr>"
  have "sinks_ok ?w" using assms(1,4) sinks_ok_shrinks [of "nd_plane n" ?w] by (simp add: bus_inv_def)
  then have "sinks_ok (nd_plane n')" by (rule sinks_ok_subscribe) (simp_all add: assms(3,5))
  moreover have "typed_bus (set (ag_endpoints (nd_agent n))) b"
    using assms(1,4) typed_bus_shrinks by (auto simp: bus_inv_def)
  then have "typed_bus (set (ag_endpoints (nd_agent n'))) (pl_bus (nd_plane n'))"
    unfolding assms(3) by (rule typed_bus_subscribe [where e = e]) (use assms in auto)
  ultimately show ?thesis by (simp add: bus_inv_def)
qed

lemma create_bus:
  assumes "bus_inv n"
  shows "bus_inv (snd (node_create_publisher t ty q n))"
    and "ty \<noteq> [] \<Longrightarrow> bus_inv (snd (node_create_subscriber t ty q n))"
    and "bus_inv (snd (node_create_service t ty ty' q n))"
    and "bus_inv (snd (node_create_client t ty ty' q n))"
proof -
  note d = Let_def split_beta fresh_sink_fields
  show "bus_inv (snd (node_create_publisher t ty q n))"
    by (rule bus_inv_shrinks [OF assms]) (auto simp: node_create_publisher_def create_publisher_def d shrinks_ops)
  let ?e = "\<lambda>t ty. \<lparr>ep_kind = SUBSCRIBER, ep_topic = t, ep_type = ty,
    ep_reliability = of_int (reliability_int (qos_reliability q)), ep_response = []\<rparr>"
  show "bus_inv (snd (node_create_subscriber t ty q n))" if "ty \<noteq> []"
    by (rule bus_inv_subscribe [OF assms that _ shrinks_refl, where t = t and e = "?e t ty"])
      (auto simp: node_create_subscriber_def d)
  let ?t = "rpc_request_topic t"
  show "bus_inv (snd (node_create_service t ty ty' q n))"
    by (rule bus_inv_subscribe [OF assms _ _ shrinks_refl, where t = ?t and ty = request_type and e = "?e ?t request_type"])
      (auto simp: node_create_service_def make_service_def d request_type_def)
  let ?r = "rpc_reply_topic t (client_id_of (snd (fresh_sink n)))"
  show "bus_inv (snd (node_create_client t ty ty' q n))"
    by (rule bus_inv_subscribe [OF assms _ _ shrinks_ops(1), where t = ?r and ty = reply_type and e = "?e ?r reply_type"])
      (auto simp: node_create_client_def make_client_def create_publisher_def d reply_type_def)
qed

lemma node_step_bus:
  assumes "bus_inv n" "typed_node_op op" "node_step old op n = Some n'"
  shows "bus_inv n'"
proof (cases op)
  case (ServiceReplyTopic i t)
  have "bus_inv (foldl (\<lambda>n r. node_registrar q r n) (set_bus b (n\<lparr>nd_entities := es\<rparr>)) rs)"
    if "shrinks (pl_bus (nd_plane n)) b" for q b es rs
    by (rule bus_inv_shrinks [OF assms(1)])
      (use that registrar_endpoints [of "set_bus b (n\<lparr>nd_entities := es\<rparr>)"] in simp_all)
  moreover have "shrinks bus bus'" if "publisher_for t sv bus = (pub, regs, sv', bus')" for sv bus pub regs sv' bus'
    using that by (auto simp: publisher_for_def create_publisher_def shrinks_refl shrinks_ops split: option.splits)
  ultimately show ?thesis
    using ServiceReplyTopic assms by (auto split: if_splits entity.splits prod.splits)
next
  case (NodePublish live t ty)
  then show ?thesis using assms by (auto intro!: bus_inv_shrinks [OF assms(1)] shrinks_ops)
next
  case (NodeInbound live t)
  then show ?thesis using assms by (auto intro!: bus_inv_shrinks [OF assms(1)] shrinks_ops)
next
  case (Discovery o')
  show ?thesis
    using assms(3)
  proof (cases rule: node_step_agent)
    case (steps o'')
    have "plane_inv (set (ag_endpoints (nd_agent n))) (nd_plane n')"
      using plane_events_bus [OF steps(4), of "set (ag_endpoints (nd_agent n))"] assms(1) by (simp add: plane_inv_def bus_inv_def)
    moreover have "set (ag_endpoints (nd_agent n)) \<subseteq> set (ag_endpoints (nd_agent n'))"
      using node_step_static(2) [OF assms(3)] set_mono_prefix by blast
    ultimately show ?thesis using typed_bus_shrinks shrinks_refl by (auto simp: plane_inv_def bus_inv_def)
  qed (use assms Discovery in auto)
qed (use create_bus [OF assms(1)] assms in auto)

lemma make_node_bus: "bus_inv (make_node name options env)"
  by (simp add: bus_inv_def make_node_def Let_def sinks_ok_def entry_ok_def typed_bus_def entry_at_def new_entry_def)

end
