(* ===== verification/Frame_Codec.thy ===== *)
theory Frame_Codec
  imports MM_Prelude
begin

text \<open>
  The length-prefixed framing of the TCP data plane (transport/src/frame_codec.cpp): a
  frame is a four-byte big-endian length followed by the payload. \<open>decode\<close> is the loop that
  takes every complete frame off the front of a receive buffer.

  The transports rely on the codec only through the laws of the locale \<open>framing\<close>: whole frames
  decode to their payloads, and an incomplete frame is kept untouched. From these laws alone
  it follows that how the byte stream is cut into reads does not matter.
\<close>

section \<open>The codec\<close>

definition HEADER_SIZE :: nat where
  "HEADER_SIZE = 4"

definition MAX_PAYLOAD_SIZE :: nat where
  "MAX_PAYLOAD_SIZE = 16 * 1024 * 1024"

definition write_uint32_be :: "u32 \<Rightarrow> bytes" where
  "write_uint32_be v =
     [char_of (unat (drop_bit 24 v AND 0xFF)),
      char_of (unat (drop_bit 16 v AND 0xFF)),
      char_of (unat (drop_bit 8 v AND 0xFF)),
      char_of (unat (v AND 0xFF))]"

definition read_uint32_be :: "bytes \<Rightarrow> u32" where
  "read_uint32_be src =
     fold (\<lambda>i v. v OR push_bit (8 * (3 - i)) (of_char (src ! i))) [0..<4] 0"

definition encode :: "bytes \<Rightarrow> bytes" where
  "encode payload =
     (if length payload > MAX_PAYLOAD_SIZE then []
      else write_uint32_be (of_nat (length payload)) @ payload)"

text \<open>
  The result is the list of payloads and what is left in the buffer. A length field above
  the maximum clears the buffer and ends the loop.
\<close>

function decode :: "bytes \<Rightarrow> bytes list \<times> bytes" where
  "decode buffer =
     (if HEADER_SIZE \<le> length buffer then
        (let len = unat (read_uint32_be buffer) in
         if len > MAX_PAYLOAD_SIZE then ([], [])
         else if length buffer < HEADER_SIZE + len then ([], buffer)
         else (let (ms, rest) = decode (drop (len + HEADER_SIZE) buffer)
               in (substr buffer HEADER_SIZE len # ms, rest)))
      else ([], buffer))"
  by pat_completeness auto
termination
  by (relation "measure length") (auto simp: HEADER_SIZE_def)

declare decode.simps [simp del]

text \<open>
  A receiver that keeps a buffer and decodes after every read, as both transports do:
  the messages delivered and the final buffer.
\<close>

fun feed :: "(bytes \<Rightarrow> bytes list \<times> bytes) \<Rightarrow> bytes \<Rightarrow> bytes list \<Rightarrow> bytes list \<times> bytes" where
  "feed dec b [] = ([], b)"
| "feed dec b (c # cs) =
     (let (ms, r) = dec (b @ c); (ms', r') = feed dec r cs in (ms @ ms', r'))"

text \<open>
  The two reasons for the loop to stop before the end of the buffer: the front is an
  incomplete frame, or its length field is over the limit.
\<close>

definition incomplete :: "bytes \<Rightarrow> bool" where
  "incomplete t \<longleftrightarrow> length t < HEADER_SIZE \<or>
     unat (read_uint32_be t) \<le> MAX_PAYLOAD_SIZE \<and> length t < HEADER_SIZE + unat (read_uint32_be t)"

definition corrupt :: "bytes \<Rightarrow> bool" where
  "corrupt t \<longleftrightarrow> HEADER_SIZE \<le> length t \<and> MAX_PAYLOAD_SIZE < unat (read_uint32_be t)"

section \<open>The interface the transports rely on\<close>

locale framing =
  fixes enc :: "bytes \<Rightarrow> bytes"
    and dec :: "bytes \<Rightarrow> bytes list \<times> bytes"
    and fits :: "bytes \<Rightarrow> bool"
  assumes dec_empty: "dec [] = ([], [])"
    and dec_frame: "fits p \<Longrightarrow> dec (enc p @ rest) = (p # fst (dec rest), snd (dec rest))"
    and dec_partial: "fits p \<Longrightarrow> strict_prefix q (enc p) \<Longrightarrow> dec q = ([], q)"
begin

lemma dec_frames:
  "\<forall>p \<in> set ps. fits p \<Longrightarrow> dec (concat (map enc ps) @ tail) = (ps @ fst (dec tail), snd (dec tail))"
  by (induction ps) (auto simp: dec_frame)

text \<open>A prefix of a stream of frames is some whole frames and a piece of the next.\<close>

lemma stream_prefix_split:
  "\<forall>p \<in> set ps. fits p \<Longrightarrow> prefix q (concat (map enc ps)) \<Longrightarrow>
   \<exists>k r. q = concat (map enc (take k ps)) @ r \<and> dec r = ([], r) \<and>
         prefix r (concat (map enc (drop k ps)))"
proof (induction ps arbitrary: q)
  case Nil
  then show ?case by (auto simp: dec_empty)
next
  case (Cons p ps)
  show ?case
  proof (cases "strict_prefix q (enc p)")
    case True
    moreover from this Cons.prems have "dec q = ([], q)" by (auto intro: dec_partial)
    ultimately show ?thesis using Cons.prems(2) by (intro exI [of _ 0] exI [of _ q]) simp
  next
    case False
    with Cons.prems(2) obtain q' where q: "q = enc p @ q'" "prefix q' (concat (map enc ps))"
      by (auto simp: prefix_append strict_prefix_def)
    with Cons.IH [of q'] Cons.prems(1) obtain k r where
      "q' = concat (map enc (take k ps)) @ r" "dec r = ([], r)"
      "prefix r (concat (map enc (drop k ps)))" by auto
    with q show ?thesis by (intro exI [of _ "Suc k"] exI [of _ r]) simp
  qed
qed

lemma dec_stream_prefix:
  assumes "\<forall>p \<in> set ps. fits p" "prefix q (concat (map enc ps))"
  obtains k r where "q = concat (map enc (take k ps)) @ r" "dec r = ([], r)"
    "prefix r (concat (map enc (drop k ps)))" "dec q = (take k ps, r)"
proof -
  from stream_prefix_split [OF assms] obtain k r where
    *: "q = concat (map enc (take k ps)) @ r" "dec r = ([], r)"
      "prefix r (concat (map enc (drop k ps)))" by blast
  moreover have "\<forall>p \<in> set (take k ps). fits p" using assms(1) by (auto dest: in_set_takeD)
  ultimately show thesis using that [of k r] dec_frames [of "take k ps" r] by simp
qed

text \<open>
  Decoding incrementally gives what decoding the whole received text at once gives, for
  every way to cut a (prefix of a) stream of frames into reads.
\<close>

lemma feed_stream:
  "\<forall>p \<in> set ps. fits p \<Longrightarrow> dec b = ([], b) \<Longrightarrow> prefix (b @ concat cs) (concat (map enc ps)) \<Longrightarrow>
   feed dec b cs = dec (b @ concat cs)"
proof (induction cs arbitrary: b ps)
  case Nil
  then show ?case by simp
next
  case (Cons c cs)
  have "prefix (b @ c) (concat (map enc ps))"
    using Cons.prems(3) by (auto simp: prefix_def)
  from dec_stream_prefix [OF Cons.prems(1) this] obtain k r where
    k: "b @ c = concat (map enc (take k ps)) @ r" "dec r = ([], r)" "dec (b @ c) = (take k ps, r)"
    by metis
  have split: "concat (map enc ps) = concat (map enc (take k ps)) @ concat (map enc (drop k ps))"
    by (simp flip: concat_append map_append)
  have fits: "\<forall>p \<in> set (take k ps). fits p" "\<forall>p \<in> set (drop k ps). fits p"
    using Cons.prems(1) by (auto dest: in_set_takeD in_set_dropD)
  from Cons.prems(3) k(1) split have "prefix (r @ concat cs) (concat (map enc (drop k ps)))"
    by (metis append.assoc concat.simps(2) same_prefix_prefix)
  from Cons.IH [OF fits(2) k(2) this]
  have "feed dec b (c # cs) = (take k ps @ fst (dec (r @ concat cs)), snd (dec (r @ concat cs)))"
    by (simp add: k(3) Let_def split: prod.splits)
  also have "\<dots> = dec (concat (map enc (take k ps)) @ (r @ concat cs))"
    using fits(1) by (simp only: dec_frames)
  also have "concat (map enc (take k ps)) @ (r @ concat cs) = b @ concat (c # cs)"
    using k(1) by simp
  finally show ?case .
qed

lemma feed_complete:
  assumes "\<forall>p \<in> set ps. fits p" "concat cs = concat (map enc ps)"
  shows "feed dec [] cs = (ps, [])"
  using feed_stream [of ps "[]" cs] dec_frames [of ps "[]"] assms by (simp add: dec_empty)

end

section \<open>The codec satisfies the interface\<close>

lemma length_write_uint32_be [simp]: "length (write_uint32_be v) = 4"
  by (simp add: write_uint32_be_def)

lemma and_255 [simp]: "x AND 0xFF = take_bit 8 x" for x :: u32
  by (simp add: take_bit_eq_mask mask_eq_exp_minus_1)

lemma of_char_of_unat: "(of_char (char_of (unat x)) :: u32) = take_bit 8 x" for x :: u32
proof -
  have "(of_char (char_of (unat x)) :: u32) = of_nat (of_char (char_of (unat x)))"
    by (simp only: of_nat_of_char)
  also have "\<dots> = of_nat (take_bit 8 (unat x))" by (simp add: take_bit_eq_mod)
  also have "\<dots> = take_bit 8 x" by (simp only: of_nat_take_bit) simp
  finally show ?thesis .
qed

lemma of_char_less_256: "(of_char c :: nat) < 256"
  using mod_less_divisor [of 256 "of_char c :: nat"] by simp

lemma bit_of_char_less: "bit (of_char c :: u32) n \<Longrightarrow> n < 8"
proof -
  assume b: "bit (of_char c :: u32) n"
  have "(of_char c :: u32) = of_nat (take_bit 8 (of_char c))"
    by (simp add: take_bit_eq_mod of_nat_of_char)
  with b show "n < 8" by (simp only: of_nat_take_bit bit_take_bit_iff)
qed

text \<open>Putting the four bytes of a word together again, and taking them apart.\<close>

lemma be_assemble:
  "push_bit 24 (take_bit 8 (drop_bit 24 v)) OR push_bit 16 (take_bit 8 (drop_bit 16 v))
     OR push_bit 8 (take_bit 8 (drop_bit 8 v)) OR take_bit 8 v = v" for v :: u32
proof (rule bit_word_eqI)
  fix n assume "n < LENGTH(32)"
  then show "bit (push_bit 24 (take_bit 8 (drop_bit 24 v)) OR push_bit 16 (take_bit 8 (drop_bit 16 v))
      OR push_bit 8 (take_bit 8 (drop_bit 8 v)) OR take_bit 8 v) n = bit v n"
    by (cases "n < 8"; cases "n < 16"; cases "n < 24") (auto simp: bit_simps)
qed

lemma read_uint32_be_Cons:
  "read_uint32_be (a # b # c # d # rest) =
     push_bit 24 (of_char a) OR push_bit 16 (of_char b) OR push_bit 8 (of_char c) OR of_char d"
  by (simp add: read_uint32_be_def upt_conv_Cons or.assoc)

lemma read_write_uint32_be [simp]: "read_uint32_be (write_uint32_be v @ rest) = v"
  by (simp add: write_uint32_be_def read_uint32_be_Cons of_char_of_unat be_assemble)

lemma be_take_apart:
  fixes a b c d :: char
  defines "v \<equiv> (push_bit 24 (of_char a) OR push_bit 16 (of_char b) OR push_bit 8 (of_char c) OR of_char d :: u32)"
  shows "take_bit 8 (drop_bit 24 v) = of_char a" "take_bit 8 (drop_bit 16 v) = of_char b"
    "take_bit 8 (drop_bit 8 v) = of_char c" "take_bit 8 v = of_char d"
  unfolding v_def by (rule bit_word_eqI; auto simp: bit_simps dest: bit_of_char_less)+

lemma write_read_uint32_be:
  assumes "4 \<le> length s"
  shows "write_uint32_be (read_uint32_be s) = take 4 s"
proof -
  obtain a b c d rest where s: "s = a # b # c # d # rest"
    using assms by (auto simp: numeral_eq_Suc Suc_le_length_iff)
  have "unat (of_char x :: u32) = of_char x" for x
    using unat_of_nat_small [where 'a = 32, of "of_char x"] less_trans [OF of_char_less_256 [of x]]
    by (simp add: of_nat_of_char)
  then show ?thesis
    by (simp only: s write_uint32_be_def and_255 read_uint32_be_Cons be_take_apart) simp
qed

lemma HEADER_MAX_bounds: "HEADER_SIZE = 4" "MAX_PAYLOAD_SIZE < 2 ^ 32"
  by (simp_all add: HEADER_SIZE_def MAX_PAYLOAD_SIZE_def)

lemma unat_len [simp]: "n \<le> MAX_PAYLOAD_SIZE \<Longrightarrow> unat (of_nat n :: u32) = n"
  using HEADER_MAX_bounds(2) by (intro unat_of_nat_small) simp

lemma encode_fits: "length p \<le> MAX_PAYLOAD_SIZE \<Longrightarrow>
    encode p = write_uint32_be (of_nat (length p)) @ p"
  by (simp add: encode_def)

lemma decode_incomplete: "incomplete b \<Longrightarrow> decode b = ([], b)"
  by (auto simp: incomplete_def decode.simps [of b] Let_def)

lemma decode_corrupt: "corrupt b \<Longrightarrow> decode b = ([], [])"
  by (simp add: corrupt_def decode.simps [of b])

lemma decode_encode_append:
  assumes "length p \<le> MAX_PAYLOAD_SIZE"
  shows "decode (encode p @ rest) = (p # fst (decode rest), snd (decode rest))"
proof -
  let ?b = "write_uint32_be (of_nat (length p)) @ p @ rest"
  have "decode ?b = (p # fst (decode rest), snd (decode rest))"
    using assms by (subst decode.simps) (simp add: HEADER_SIZE_def substr_def Let_def split: prod.split)
  with assms show ?thesis by (simp add: encode_fits)
qed

lemma decode_strict_prefix:
  assumes "length p \<le> MAX_PAYLOAD_SIZE" "strict_prefix q (encode p)"
  shows "decode q = ([], q)"
proof (rule decode_incomplete, cases "length q < HEADER_SIZE")
  case False
  have pre: "prefix q (write_uint32_be (of_nat (length p)) @ p)"
    using assms by (simp add: encode_fits strict_prefix_def)
  from False have "prefix (write_uint32_be (of_nat (length p))) q"
    by (intro prefix_length_prefix [OF _ pre]) (simp_all add: HEADER_SIZE_def)
  then obtain q' where q: "q = write_uint32_be (of_nat (length p)) @ q'"
    by (auto simp: prefix_def)
  from assms have "length q < length (encode p)" by (simp add: prefix_length_less)
  with q assms False show "incomplete q"
    by (simp add: incomplete_def encode_fits HEADER_SIZE_def)
qed (simp add: incomplete_def)

interpretation codec: framing encode decode "\<lambda>p. length p \<le> MAX_PAYLOAD_SIZE"
  by unfold_locales
    (simp_all add: decode_incomplete incomplete_def HEADER_SIZE_def decode_encode_append decode_strict_prefix)

section \<open>Properties of the codec\<close>

text \<open>
  What \<open>decode\<close> does on any buffer at all, frames or not: the payloads it returns are within the
  limit and, encoded again, are exactly the text it took off the front; what follows is
  kept if it is an incomplete frame and discarded if its length field is over the limit.
\<close>

lemma frame_at_front:
  assumes "HEADER_SIZE \<le> length b" "unat (read_uint32_be b) \<le> MAX_PAYLOAD_SIZE"
    "HEADER_SIZE + unat (read_uint32_be b) \<le> length b"
  shows "b = encode (substr b HEADER_SIZE (unat (read_uint32_be b)))
               @ drop (unat (read_uint32_be b) + HEADER_SIZE) b"
proof -
  let ?n = "unat (read_uint32_be b)"
  let ?p = "substr b HEADER_SIZE ?n"
  have len: "length ?p = ?n" using assms by (simp add: substr_def)
  have "encode ?p = take 4 b @ ?p"
    using assms len write_read_uint32_be [of b] by (simp add: encode_fits HEADER_SIZE_def)
  then show ?thesis
    by (simp add: substr_def HEADER_SIZE_def add.commute flip: drop_drop)
qed

lemma decode_characterised:
  "decode b = (ms, r) \<Longrightarrow>
   \<exists>t. b = concat (map encode ms) @ t \<and> (\<forall>m \<in> set ms. length m \<le> MAX_PAYLOAD_SIZE)
      \<and> (incomplete t \<and> r = t \<or> corrupt t \<and> r = [])"
proof (induction b arbitrary: ms r rule: decode.induct)
  case (1 b)
  let ?n = "unat (read_uint32_be b)"
  consider "incomplete b" | "corrupt b" | "HEADER_SIZE \<le> length b" "?n \<le> MAX_PAYLOAD_SIZE"
    "HEADER_SIZE + ?n \<le> length b"
    by (cases "length b < HEADER_SIZE"; cases "MAX_PAYLOAD_SIZE < ?n"; cases "length b < HEADER_SIZE + ?n")
      (auto simp: incomplete_def corrupt_def not_less)
  then show ?case
  proof cases
    case 1
    with "1.prems" show ?thesis
      by (intro exI [of _ b]) (auto simp: decode_incomplete)
  next
    case 2
    with "1.prems" show ?thesis
      by (intro exI [of _ b]) (auto simp: decode_corrupt)
  next
    case 3
    let ?p = "substr b HEADER_SIZE ?n" and ?d = "drop (?n + HEADER_SIZE) b"
    from 3 "1.prems" obtain ms' where ms: "ms = ?p # ms'" "decode ?d = (ms', r)"
      by (auto simp: decode.simps [of b] Let_def split: prod.splits)
    from "1.IH" [OF 3(1) refl _ _ ms(2)] 3 obtain t where
      "?d = concat (map encode ms') @ t" "\<forall>m \<in> set ms'. length m \<le> MAX_PAYLOAD_SIZE"
      "incomplete t \<and> r = t \<or> corrupt t \<and> r = []" by auto
    moreover have "length ?p \<le> MAX_PAYLOAD_SIZE" using 3 by (simp add: substr_def)
    ultimately show ?thesis
      using frame_at_front [OF 3] ms(1) by (intro exI [of _ t]) simp
  qed
qed

text \<open>
  C10: However the byte stream of a sequence of frames is cut into reads, a receiver that
  appends each read to its buffer and decodes delivers exactly the payloads that were
  encoded, in order, and ends with an empty buffer.
\<close>

theorem frames_survive_any_chunking:
  assumes "\<forall>p \<in> set ps. length p \<le> MAX_PAYLOAD_SIZE"
    and "concat chunks = concat (map encode ps)"
  shows "feed decode [] chunks = (ps, [])"
  using assms by (rule codec.feed_complete)

theorem frames_survive_any_chunking_witness:
  "feed decode [] [take 3 (encode ''hi''), drop 3 (encode ''hi'') @ encode []] = ([''hi'', []], [])"
  by (rule frames_survive_any_chunking) (simp_all add: MAX_PAYLOAD_SIZE_def)

text \<open>
  C32: On an arbitrary buffer, \<open>decode\<close> returns payloads within the size limit whose
  re-encoding is the text it consumed; the rest is kept when it is an incomplete frame
  and dropped when its length field exceeds the limit.
\<close>

theorem decode_sound_on_any_input:
  "\<exists>t. b = concat (map encode (fst (decode b))) @ t
      \<and> list_all (\<lambda>m. length m \<le> MAX_PAYLOAD_SIZE) (fst (decode b))
      \<and> (incomplete t \<and> snd (decode b) = t \<or> corrupt t \<and> snd (decode b) = [])"
  using decode_characterised [of b "fst (decode b)" "snd (decode b)"] by (simp add: list_all_iff)

text \<open>
  What \<open>decode\<close> leaves behind is bounded whatever a peer sends: fewer bytes than one
  maximal frame.
\<close>

theorem decode_leftover_bounded: "length (snd (decode b)) < HEADER_SIZE + MAX_PAYLOAD_SIZE"
proof -
  obtain t where "incomplete t \<and> snd (decode b) = t \<or> corrupt t \<and> snd (decode b) = []"
    using decode_characterised [of b "fst (decode b)" "snd (decode b)"] by auto
  then show ?thesis by (auto simp: incomplete_def HEADER_SIZE_def)
qed

end
