(* ===== verification/Tcp_Client.thy ===== *)
theory Tcp_Client
  imports Frame_Codec
begin

text \<open>
  The outgoing side of the TCP data plane (transport/src/tcp_client_transport.cpp). The object is a
  record of its member variables; each member function is a function on it. What the
  operating system answers (the results of \<open>socket\<close>, \<open>connect\<close>, \<open>read\<close>, \<open>write\<close>,
  \<open>epoll_wait\<close>) is an argument. \<open>cl_sent\<close> is not a member: it collects the bytes the kernel
  accepted, in order, so that the stream on the wire can be talked about.
\<close>

section \<open>State\<close>

datatype connection_state = DISCONNECTED | CONNECTING | CONNECTED

record tcp_client =
  cl_host :: string
  cl_port :: u16
  cl_sock_fd :: int
  cl_epoll_fd :: int
  cl_running :: bool
  cl_stopped :: bool
  cl_state :: connection_state
  cl_thread :: bool
  cl_callback :: bool
  cl_read_buffer :: bytes
  cl_write_buffer :: bytes
  cl_want_in :: bool
  cl_want_out :: bool
  cl_sent :: bytes

definition new_client :: "string \<Rightarrow> u16 \<Rightarrow> tcp_client" where
  "new_client host port =
     \<lparr>cl_host = host, cl_port = port, cl_sock_fd = -1, cl_epoll_fd = -1,
      cl_running = False, cl_stopped = False, cl_state = DISCONNECTED, cl_thread = False,
      cl_callback = False, cl_read_buffer = [], cl_write_buffer = [],
      cl_want_in = False, cl_want_out = False, cl_sent = []\<rparr>"

section \<open>start and stop\<close>

datatype connect_result = ConnectNow | ConnectInProgress | ConnectError

record client_start_env =
  env_socket :: int
  env_pton_ok :: bool
  env_connect :: connect_result
  env_epoll :: int

text \<open>
  The event mask registered with epoll is \<open>cl_want_in\<close>/\<open>cl_want_out\<close>: \<open>EPOLLOUT\<close> while the
  connection is being made, \<open>EPOLLIN\<close> when it was made at once.
\<close>

definition client_start :: "tcp_client \<Rightarrow> client_start_env \<Rightarrow> bool \<times> tcp_client" where
  "client_start c env =
     (let c = c\<lparr>cl_sock_fd := env_socket env\<rparr> in
      if cl_sock_fd c < 0 then (False, c)
      else if \<not> env_pton_ok env then (False, c\<lparr>cl_sock_fd := -1\<rparr>)
      else if env_connect env = ConnectError then (False, c\<lparr>cl_sock_fd := -1\<rparr>)
      else
        (let c = c\<lparr>cl_state := (if env_connect env = ConnectNow then CONNECTED else CONNECTING)\<rparr>;
             c = c\<lparr>cl_epoll_fd := env_epoll env\<rparr> in
         if cl_epoll_fd c < 0 then (False, c\<lparr>cl_sock_fd := -1\<rparr>)
         else (True, c\<lparr>cl_want_in := (cl_state c \<noteq> CONNECTING),
                       cl_want_out := (cl_state c = CONNECTING),
                       cl_running := True, cl_thread := True\<rparr>)))"

definition client_stop :: "tcp_client \<Rightarrow> tcp_client" where
  "client_stop c =
     (if cl_stopped c then c
      else c\<lparr>cl_stopped := True, cl_running := False, cl_thread := False,
             cl_sock_fd := (if cl_sock_fd c \<ge> 0 then -1 else cl_sock_fd c),
             cl_epoll_fd := (if cl_epoll_fd c \<ge> 0 then -1 else cl_epoll_fd c),
             cl_state := DISCONNECTED\<rparr>)"

definition client_on_message :: "tcp_client \<Rightarrow> tcp_client" where
  "client_on_message c = c\<lparr>cl_callback := True\<rparr>"

section \<open>send and the event handlers\<close>

definition client_send :: "tcp_client \<Rightarrow> bytes \<Rightarrow> bool \<times> tcp_client" where
  "client_send c payload =
     (if cl_state c \<noteq> CONNECTED then (False, c)
      else if cl_stopped c then (False, c)
      else (True, c\<lparr>cl_write_buffer := cl_write_buffer c @ encode payload,
                    cl_want_in := True, cl_want_out := True\<rparr>))"

text \<open>
  \<open>handle_connect_complete\<close> in the two steps another thread can observe: the store to \<open>state_\<close>
  and the \<open>epoll_ctl\<close> that follows it. Neither holds \<open>write_mutex_\<close>.
\<close>

definition connect_publish :: "tcp_client \<Rightarrow> int \<Rightarrow> tcp_client" where
  "connect_publish c so_error =
     (if so_error \<noteq> 0 then c\<lparr>cl_running := False\<rparr> else c\<lparr>cl_state := CONNECTED\<rparr>)"

definition connect_register :: "tcp_client \<Rightarrow> tcp_client" where
  "connect_register c = c\<lparr>cl_want_in := True, cl_want_out := False\<rparr>"

definition handle_connect_complete :: "tcp_client \<Rightarrow> int \<Rightarrow> tcp_client" where
  "handle_connect_complete c so_error =
     (if so_error \<noteq> 0 then connect_publish c so_error
      else connect_register (connect_publish c so_error))"

datatype read_end = ReadEof | ReadAgain | ReadError

text \<open>
  The reads of one event: the blocks read until \<open>read\<close> returns no data, and why it did.
\<close>

definition client_handle_read ::
    "tcp_client \<Rightarrow> bytes list \<Rightarrow> read_end \<Rightarrow> tcp_client \<times> bytes list" where
  "client_handle_read c blocks fin =
     (let c = c\<lparr>cl_read_buffer := cl_read_buffer c @ concat blocks\<rparr> in
      if fin = ReadError then (c\<lparr>cl_running := False\<rparr>, [])
      else
        (let (msgs, rest) = decode (cl_read_buffer c);
             c = c\<lparr>cl_read_buffer := rest\<rparr>;
             delivered = (if cl_callback c then msgs else [])
         in (if fin = ReadEof then c\<lparr>cl_running := False\<rparr> else c, delivered)))"

text \<open>\<open>os k\<close> is what the \<open>k\<close>-th call of \<open>write\<close> in the loop returns.\<close>

datatype write_result = Wrote nat | WriteAgain | WriteError

function write_loop :: "(nat \<Rightarrow> write_result) \<Rightarrow> nat \<Rightarrow> tcp_client \<Rightarrow> tcp_client \<times> bool" where
  "write_loop os k c =
     (if cl_write_buffer c = [] then (c, True)
      else case os k of
        Wrote n \<Rightarrow>
          if n > 0 then
            write_loop os (Suc k)
              (c\<lparr>cl_write_buffer := drop n (cl_write_buffer c),
                 cl_sent := cl_sent c @ take n (cl_write_buffer c)\<rparr>)
          else (c\<lparr>cl_running := False\<rparr>, False)
      | WriteAgain \<Rightarrow> (c, True)
      | WriteError \<Rightarrow> (c\<lparr>cl_running := False\<rparr>, False))"
  by pat_completeness auto
termination
  by (relation "measure (\<lambda>(os, k, c). length (cl_write_buffer c))") auto

declare write_loop.simps [simp del]

definition client_handle_write :: "tcp_client \<Rightarrow> (nat \<Rightarrow> write_result) \<Rightarrow> tcp_client" where
  "client_handle_write c os =
     (let (c, ok) = write_loop os 0 c in
      if ok \<and> cl_write_buffer c = [] then c\<lparr>cl_want_in := True, cl_want_out := False\<rparr> else c)"

section \<open>The event loop\<close>

record client_event =
  ce_err :: bool
  ce_in :: bool
  ce_out :: bool
  ce_so_error :: int
  ce_blocks :: "bytes list"
  ce_read_end :: read_end
  ce_writes :: "nat \<Rightarrow> write_result"

text \<open>The body of the loop over the events of one \<open>epoll_wait\<close>; an error event breaks it.\<close>

definition process_event :: "tcp_client \<Rightarrow> client_event \<Rightarrow> tcp_client \<times> bytes list" where
  "process_event c e =
     (if cl_state c = CONNECTING \<and> ce_out e then (handle_connect_complete c (ce_so_error e), [])
      else if cl_state c = CONNECTED then
        (let (c, msgs) = (if ce_in e then client_handle_read c (ce_blocks e) (ce_read_end e) else (c, []));
             c = (if ce_out e then client_handle_write c (ce_writes e) else c)
         in (c, msgs))
      else (c, []))"

fun client_events :: "tcp_client \<Rightarrow> client_event list \<Rightarrow> tcp_client \<times> bytes list" where
  "client_events c [] = (c, [])"
| "client_events c (e # es) =
     (if ce_err e then (c\<lparr>cl_running := False\<rparr>, [])
      else (let (c, ms) = process_event c e; (c, ms') = client_events c es in (c, ms @ ms')))"

datatype client_wait = WaitEvents "client_event list" | WaitInterrupted | WaitFailed

fun client_event_loop :: "tcp_client \<Rightarrow> client_wait list \<Rightarrow> tcp_client \<times> bytes list" where
  "client_event_loop c [] = (c, [])"
| "client_event_loop c (w # ws) =
     (if \<not> cl_running c then (c, [])
      else case w of
        WaitFailed \<Rightarrow> (c, [])
      | WaitInterrupted \<Rightarrow> client_event_loop c ws
      | WaitEvents es \<Rightarrow>
          (let (c, ms) = client_events c es; (c, ms') = client_event_loop c ws in (c, ms @ ms')))"

section \<open>Interleavings of the sender with the event loop\<close>

text \<open>
  The steps that touch the outgoing buffer and the epoll mask: \<open>send\<close> from any thread, and
  the event thread's handlers under the guards of the event loop. \<open>write_mutex_\<close> makes \<open>send\<close>
  and \<open>handle_write\<close> atomic. \<open>OpConnected\<close> and \<open>OpRegister\<close> are the two halves of
  \<open>OpConnectComplete\<close>, for the interleavings in which another thread runs between them.
\<close>

datatype client_op =
    OpSend bytes
  | OpConnectComplete int
  | OpConnected
  | OpRegister
  | OpWritable "nat \<Rightarrow> write_result"
  | OpReadable "bytes list" read_end
  | OpStop

fun client_step :: "tcp_client \<Rightarrow> client_op \<Rightarrow> tcp_client" where
  "client_step c (OpSend p) = snd (client_send c p)"
| "client_step c (OpConnectComplete e) =
     (if cl_state c = CONNECTING then handle_connect_complete c e else c)"
| "client_step c OpConnected = (if cl_state c = CONNECTING then connect_publish c 0 else c)"
| "client_step c OpRegister = connect_register c"
| "client_step c (OpWritable os) = (if cl_state c = CONNECTED then client_handle_write c os else c)"
| "client_step c (OpReadable bs r) =
     (if cl_state c = CONNECTED then fst (client_handle_read c bs r) else c)"
| "client_step c OpStop = client_stop c"

fun client_steps :: "tcp_client \<Rightarrow> client_op list \<Rightarrow> tcp_client" where
  "client_steps c [] = c"
| "client_steps c (op # ops) = client_steps (client_step c op) ops"

text \<open>The payloads the sends of a run accepted (those that returned true).\<close>

fun accepted :: "tcp_client \<Rightarrow> client_op list \<Rightarrow> bytes list" where
  "accepted c [] = []"
| "accepted c (op # ops) =
     (case op of OpSend p \<Rightarrow> (if fst (client_send c p) then [p] else []) | _ \<Rightarrow> [])
       @ accepted (client_step c op) ops"

text \<open>A run in which \<open>handle_connect_complete\<close> is never interrupted.\<close>

definition uninterrupted :: "client_op list \<Rightarrow> bool" where
  "uninterrupted ops \<longleftrightarrow> OpConnected \<notin> set ops \<and> OpRegister \<notin> set ops"

text \<open>Bytes wait in the buffer of an open connection only while \<open>EPOLLOUT\<close> is requested.\<close>

definition wakeup_armed :: "tcp_client \<Rightarrow> bool" where
  "wakeup_armed c \<longleftrightarrow>
     (\<not> cl_stopped c \<and> cl_state c = CONNECTED \<and> cl_write_buffer c \<noteq> [] \<longrightarrow> cl_want_out c)"

definition client_inv :: "tcp_client \<Rightarrow> bool" where
  "client_inv c \<longleftrightarrow> wakeup_armed c \<and>
     (\<not> cl_stopped c \<and> cl_state c \<noteq> CONNECTED \<longrightarrow> cl_write_buffer c = [])"

text \<open>The bytes accepted by the kernel followed by those still buffered.\<close>

definition outstream :: "tcp_client \<Rightarrow> bytes" where
  "outstream c = cl_sent c @ cl_write_buffer c"

text \<open>A client after its constructor and \<open>start\<close>, whatever the system calls of \<open>start\<close> returned.\<close>

definition started_client :: "string \<Rightarrow> u16 \<Rightarrow> client_start_env \<Rightarrow> tcp_client" where
  "started_client host port env = snd (client_start (new_client host port) env)"

section \<open>Lemmas\<close>

lemma outstream_started [simp]: "outstream (started_client h p env) = []"
  by (auto simp: started_client_def client_start_def new_client_def outstream_def Let_def)

lemmas client_op_defs = client_send_def connect_publish_def connect_register_def
  handle_connect_complete_def client_stop_def client_handle_read_def Let_def

lemma write_loop_outstream: "outstream (fst (write_loop os k c)) = outstream c"
proof (induction os k c rule: write_loop.induct)
  case (1 os k c)
  then show ?case
    by (auto simp: write_loop.simps [of os k c] outstream_def split: write_result.split)
qed

lemma write_loop_frame [simp]:
  "cl_state (fst (write_loop os k c)) = cl_state c \<and>
   cl_stopped (fst (write_loop os k c)) = cl_stopped c \<and>
   cl_want_out (fst (write_loop os k c)) = cl_want_out c \<and>
   (cl_write_buffer c = [] \<longrightarrow> cl_write_buffer (fst (write_loop os k c)) = [])"
proof (induction os k c rule: write_loop.induct)
  case (1 os k c)
  then show ?case by (auto simp: write_loop.simps [of os k c] split: write_result.split)
qed

lemma write_loop_flushes:
  "\<forall>j. \<exists>n > 0. os j = Wrote n \<Longrightarrow>
   snd (write_loop os k c) \<and> cl_write_buffer (fst (write_loop os k c)) = []"
proof (induction os k c rule: write_loop.induct)
  case (1 os k c)
  from "1.prems" obtain n where "0 < n" "os k = Wrote n" by blast
  with 1 show ?case by (simp add: write_loop.simps [of os k c])
qed

lemma client_handle_write_outstream [simp]: "outstream (client_handle_write c os) = outstream c"
  using write_loop_outstream [of os 0 c]
  by (auto simp: client_handle_write_def outstream_def split: prod.split)

lemma client_step_outstream:
  "outstream (client_step c op) = outstream c @ concat (map encode (accepted c [op]))"
proof (cases op)
  case (OpWritable os)
  then show ?thesis by simp
qed (auto simp: client_op_defs outstream_def split: prod.split)

lemma client_handle_write_inv:
  assumes "client_inv c"
  shows "client_inv (client_handle_write c os)"
  using assms write_loop_frame [of os 0 c]
  by (cases "write_loop os 0 c")
    (auto simp: client_inv_def wakeup_armed_def client_handle_write_def)

lemma client_step_inv:
  "client_inv c \<Longrightarrow> op \<noteq> OpConnected \<Longrightarrow> op \<noteq> OpRegister \<Longrightarrow> client_inv (client_step c op)"
proof (cases op)
  case (OpWritable os)
  assume "client_inv c"
  with OpWritable show ?thesis by (simp add: client_handle_write_inv)
qed (auto simp: client_op_defs client_inv_def wakeup_armed_def split: prod.split)

lemma client_steps_inv: "client_inv c \<Longrightarrow> uninterrupted ops \<Longrightarrow> client_inv (client_steps c ops)"
  by (induction ops arbitrary: c) (auto simp: uninterrupted_def client_step_inv)

lemma accepted_append [simp]: "accepted c (xs @ ys) = accepted c xs @ accepted (client_steps c xs) ys"
  by (induction xs arbitrary: c) simp_all

lemma client_steps_outstream:
  "outstream (client_steps c ops) = outstream c @ concat (map encode (accepted c ops))"
proof (induction ops arbitrary: c)
  case (Cons op ops)
  then show ?case
    using client_step_outstream [of c op] by (simp del: client_step.simps)
qed simp

section \<open>Properties\<close>

text \<open>
  After start, whatever the interleaving of sends, partial writes, reads and stop, the bytes the kernel
  accepted followed by the bytes still buffered are exactly the frames of the accepted
  payloads, in the order of the sends: nothing is lost, duplicated or reordered.
\<close>

theorem client_stream_is_accepted_frames:
  "cl_sent (client_steps (started_client h p env) ops) @ cl_write_buffer (client_steps (started_client h p env) ops)
     = concat (map encode (accepted (started_client h p env) ops))"
  using client_steps_outstream [of "started_client h p env" ops]
  by (simp add: outstream_def [of "client_steps _ _"])

text \<open>
  C33: After a successful start, as long as \<open>handle_connect_complete\<close> is not interrupted by a sender,
  bytes never wait in the buffer of an open connection without \<open>EPOLLOUT\<close> being requested.
\<close>

theorem pending_bytes_are_armed:
  assumes "client_start (new_client h p) env = (True, c)" and "uninterrupted ops"
  shows "wakeup_armed (client_steps c ops)"
proof -
  from assms(1) have "client_inv c"
    by (auto simp: client_start_def new_client_def client_inv_def wakeup_armed_def Let_def split: if_splits)
  from client_steps_inv [OF this assms(2)] show ?thesis by (simp add: client_inv_def)
qed

definition env_example :: client_start_env where
  "env_example = \<lparr>env_socket = 5, env_pton_ok = True, env_connect = ConnectInProgress, env_epoll = 6\<rparr>"

theorem pending_bytes_are_armed_witness:
  "wakeup_armed (client_steps (snd (client_start (new_client ''h'' 1) env_example))
     [OpConnectComplete 0, OpSend ''x''])"
  by (rule pending_bytes_are_armed [of "''h''" 1 env_example])
    (simp_all add: client_start_def new_client_def env_example_def uninterrupted_def)

text \<open>
  The window between the store to \<open>state_\<close> and the \<open>epoll_ctl\<close> in \<open>handle_connect_complete\<close> is not
  protected: a send that falls into it is accepted, and the mask without \<open>EPOLLOUT\<close> then overwrites
  the one it requested, so its bytes stay in the buffer of an open connection unarmed.
\<close>

theorem connect_window_loses_wakeup:
  "\<exists>c. client_start (new_client h p) env_example = (True, c) \<and>
       accepted c [OpConnected, OpSend m, OpRegister] = [m] \<and>
       (length m \<le> MAX_PAYLOAD_SIZE \<longrightarrow>
         \<not> wakeup_armed (client_steps c [OpConnected, OpSend m, OpRegister]))"
  by (auto simp: client_start_def new_client_def env_example_def client_op_defs wakeup_armed_def
      encode_fits write_uint32_be_def)

theorem connect_window_loses_wakeup_witness:
  "\<exists>c. client_start (new_client ''h'' 1) env_example = (True, c) \<and>
       accepted c [OpConnected, OpSend ''x'', OpRegister] = [''x''] \<and>
       \<not> wakeup_armed (client_steps c [OpConnected, OpSend ''x'', OpRegister])"
proof -
  have "length ''x'' \<le> MAX_PAYLOAD_SIZE" by (simp add: MAX_PAYLOAD_SIZE_def)
  with connect_window_loses_wakeup [of "''h''" 1 "''x''"] show ?thesis by auto
qed

text \<open>
  When every \<open>write\<close> makes progress, one \<open>handle_write\<close> terminates with the whole buffer handed to
  the kernel and goes back to watching \<open>EPOLLIN\<close> only.
\<close>

theorem writable_event_flushes:
  assumes "\<forall>j. \<exists>n > 0. os j = Wrote n"
  shows "cl_write_buffer (client_handle_write c os) = []
       \<and> cl_sent (client_handle_write c os) = cl_sent c @ cl_write_buffer c
       \<and> \<not> cl_want_out (client_handle_write c os)"
proof -
  from write_loop_flushes [OF assms, of 0 c] have e: "cl_write_buffer (client_handle_write c os) = []"
    and "\<not> cl_want_out (client_handle_write c os)"
    by (auto simp: client_handle_write_def split: prod.split)
  with client_handle_write_outstream [of c os] show ?thesis by (simp add: outstream_def)
qed

theorem writable_event_flushes_witness:
  "cl_sent (client_handle_write ((new_client ''h'' 1)\<lparr>cl_write_buffer := ''abcdef''\<rparr>) (\<lambda>_. Wrote 4))
     = ''abcdef''"
  using writable_event_flushes [of "\<lambda>_. Wrote 4" "(new_client ''h'' 1)\<lparr>cl_write_buffer := ''abcdef''\<rparr>"]
  by (simp add: new_client_def)

text \<open>
  Once the peer has closed, the event loop ends but the connection still reports itself
  connected: every later send returns true, and the bytes it queues are never written.
\<close>

theorem send_after_peer_close_is_lost:
  assumes "cl_state c = CONNECTED" "\<not> cl_stopped c"
  shows "\<exists>c'. client_send (fst (client_handle_read c blocks ReadEof)) m = (True, c')
       \<and> client_event_loop c' waits = (c', [])"
  using assms by (cases waits) (auto simp: client_op_defs split: prod.split)

theorem send_after_peer_close_is_lost_witness:
  "\<exists>c'. client_send (fst (client_handle_read ((new_client ''h'' 1)\<lparr>cl_state := CONNECTED\<rparr>) [] ReadEof)) ''x''
      = (True, c') \<and> client_event_loop c' [WaitEvents []] = (c', [])"
  by (rule send_after_peer_close_is_lost) (simp_all add: new_client_def)

end
