(* ===== verification/Tcp_Server.thy ===== *)
theory Tcp_Server
  imports Tcp_Client
begin

text \<open>
  The incoming side of the TCP data plane (transport/src/tcp_server_transport.cpp): a listening
  socket, one receive buffer per accepted connection, and an epoll loop. Results of system
  calls are arguments, as in the client. \<open>sv_closed\<close> is not a member: it records the
  descriptors \<open>::close\<close> was called on.
\<close>

section \<open>State, start and stop\<close>

record tcp_server =
  sv_port :: u16
  sv_listen_fd :: int
  sv_epoll_fd :: int
  sv_running :: bool
  sv_thread :: bool
  sv_callback :: bool
  sv_buffers :: "int \<rightharpoonup> bytes"
  sv_closed :: "int set"

definition new_server :: "u16 \<Rightarrow> tcp_server" where
  "new_server port =
     \<lparr>sv_port = port, sv_listen_fd = -1, sv_epoll_fd = -1, sv_running = False,
      sv_thread = False, sv_callback = False, sv_buffers = Map.empty, sv_closed = {}\<rparr>"

record server_start_env =
  senv_socket :: int
  senv_bind_ok :: bool
  senv_sockname :: "u16 option"
  senv_listen_ok :: bool
  senv_epoll :: int
  senv_ctl_ok :: bool

definition close_fd :: "int \<Rightarrow> tcp_server \<Rightarrow> tcp_server" where
  "close_fd fd s = s\<lparr>sv_closed := insert fd (sv_closed s)\<rparr>"

definition server_start :: "tcp_server \<Rightarrow> server_start_env \<Rightarrow> bool \<times> tcp_server" where
  "server_start s env =
     (let s = s\<lparr>sv_listen_fd := senv_socket env\<rparr> in
      if sv_listen_fd s < 0 then (False, s)
      else if \<not> senv_bind_ok env then (False, (close_fd (sv_listen_fd s) s)\<lparr>sv_listen_fd := -1\<rparr>)
      else
        (let s = (case senv_sockname env of Some p \<Rightarrow> s\<lparr>sv_port := p\<rparr> | None \<Rightarrow> s) in
         if \<not> senv_listen_ok env then (False, (close_fd (sv_listen_fd s) s)\<lparr>sv_listen_fd := -1\<rparr>)
         else
           (let s = s\<lparr>sv_epoll_fd := senv_epoll env\<rparr> in
            if sv_epoll_fd s < 0 then (False, (close_fd (sv_listen_fd s) s)\<lparr>sv_listen_fd := -1\<rparr>)
            else if \<not> senv_ctl_ok env then
              (False, (close_fd (sv_epoll_fd s) (close_fd (sv_listen_fd s) s))
                        \<lparr>sv_listen_fd := -1, sv_epoll_fd := -1\<rparr>)
            else (True, s\<lparr>sv_running := True, sv_thread := True\<rparr>))))"

definition server_stop :: "tcp_server \<Rightarrow> tcp_server" where
  "server_stop s =
     (if \<not> sv_running s then s
      else
        (let s = s\<lparr>sv_running := False\<rparr>;
             s = (if sv_listen_fd s \<ge> 0 then (close_fd (sv_listen_fd s) s)\<lparr>sv_listen_fd := -1\<rparr> else s);
             s = s\<lparr>sv_thread := False\<rparr>;
             s = s\<lparr>sv_closed := sv_closed s \<union> dom (sv_buffers s), sv_buffers := Map.empty\<rparr>
         in if sv_epoll_fd s \<ge> 0 then (close_fd (sv_epoll_fd s) s)\<lparr>sv_epoll_fd := -1\<rparr> else s))"

definition server_on_message :: "tcp_server \<Rightarrow> tcp_server" where
  "server_on_message s = s\<lparr>sv_callback := True\<rparr>"

definition server_send :: "tcp_server \<Rightarrow> bytes \<Rightarrow> bool \<times> tcp_server" where
  "server_send s payload = (False, s)"

section \<open>Connections\<close>

definition close_connection :: "tcp_server \<Rightarrow> int \<Rightarrow> tcp_server" where
  "close_connection s fd = (close_fd fd s)\<lparr>sv_buffers := (sv_buffers s)(fd := None)\<rparr>"

text \<open>
  The connections accepted before \<open>accept\<close> reports an error or that none is left, each with the
  outcome of adding it to epoll.
\<close>

fun handle_accept :: "tcp_server \<Rightarrow> (int \<times> bool) list \<Rightarrow> tcp_server" where
  "handle_accept s [] = s"
| "handle_accept s ((conn_fd, ctl_ok) # rest) =
     (if \<not> ctl_ok then handle_accept (close_fd conn_fd s) rest
      else handle_accept (s\<lparr>sv_buffers := (sv_buffers s)(conn_fd \<mapsto> [])\<rparr>) rest)"

definition server_handle_read ::
    "tcp_server \<Rightarrow> int \<Rightarrow> bytes list \<Rightarrow> read_end \<Rightarrow> tcp_server \<times> bytes list" where
  "server_handle_read s fd blocks fin =
     (case sv_buffers s fd of
        None \<Rightarrow> (s, [])
      | Some buffer \<Rightarrow>
          (let buffer = buffer @ concat blocks in
           if fin = ReadError then
             (close_connection (s\<lparr>sv_buffers := (sv_buffers s)(fd \<mapsto> buffer)\<rparr>) fd, [])
           else
             (let (msgs, rest) = decode buffer;
                  s = s\<lparr>sv_buffers := (sv_buffers s)(fd \<mapsto> rest)\<rparr>;
                  delivered = (if sv_callback s then msgs else [])
              in (if fin = ReadEof then close_connection s fd else s, delivered))))"

section \<open>The event loop\<close>

record server_event =
  se_fd :: int
  se_accepts :: "(int \<times> bool) list"
  se_blocks :: "bytes list"
  se_read_end :: read_end

fun server_events :: "tcp_server \<Rightarrow> server_event list \<Rightarrow> tcp_server \<times> (int \<times> bytes) list" where
  "server_events s [] = (s, [])"
| "server_events s (e # es) =
     (let (s, ms) = (if se_fd e = sv_listen_fd s then (handle_accept s (se_accepts e), [])
                     else server_handle_read s (se_fd e) (se_blocks e) (se_read_end e));
          (s, ms') = server_events s es
      in (s, map (Pair (se_fd e)) ms @ ms'))"

datatype server_wait = SWaitEvents "server_event list" | SWaitInterrupted | SWaitFailed

fun server_event_loop :: "tcp_server \<Rightarrow> server_wait list \<Rightarrow> tcp_server \<times> (int \<times> bytes) list" where
  "server_event_loop s [] = (s, [])"
| "server_event_loop s (w # ws) =
     (if \<not> sv_running s then (s, [])
      else case w of
        SWaitFailed \<Rightarrow> (s, [])
      | SWaitInterrupted \<Rightarrow> server_event_loop s ws
      | SWaitEvents es \<Rightarrow>
          (let (s, ms) = server_events s es; (s, ms') = server_event_loop s ws in (s, ms @ ms')))"

text \<open>The payloads of one connection, and the reads of that connection, in order.\<close>

definition delivered_on :: "int \<Rightarrow> (int \<times> bytes) list \<Rightarrow> bytes list" where
  "delivered_on fd ms = map snd (filter (\<lambda>m. fst m = fd) ms)"

definition reads_on :: "int \<Rightarrow> server_event list \<Rightarrow> bytes list" where
  "reads_on fd es = map (\<lambda>e. concat (se_blocks e)) (filter (\<lambda>e. se_fd e = fd) es)"

text \<open>
  A stretch of events in which connection \<open>fd\<close> stays open: its reads end with \<open>EAGAIN\<close> and no
  newly accepted connection gets its descriptor.
\<close>

definition stays_open :: "tcp_server \<Rightarrow> int \<Rightarrow> server_event list \<Rightarrow> bool" where
  "stays_open s fd es \<longleftrightarrow> fd \<noteq> sv_listen_fd s \<and>
     (\<forall>e \<in> set es. (se_fd e = fd \<longrightarrow> se_read_end e = ReadAgain) \<and> fd \<notin> fst ` set (se_accepts e))"

section \<open>Lemmas\<close>

lemma delivered_on_append [simp]:
  "delivered_on fd (xs @ ys) = delivered_on fd xs @ delivered_on fd ys"
  by (simp add: delivered_on_def)

lemma delivered_on_pairs [simp]:
  "delivered_on fd (map (Pair g) ms) = (if g = fd then ms else [])"
  by (induction ms) (auto simp: delivered_on_def)

lemma handle_accept_frame:
  "sv_listen_fd (handle_accept s accs) = sv_listen_fd s \<and>
   sv_callback (handle_accept s accs) = sv_callback s \<and>
   (fd \<notin> fst ` set accs \<longrightarrow> sv_buffers (handle_accept s accs) fd = sv_buffers s fd)"
  by (induction s accs rule: handle_accept.induct) (auto simp: close_fd_def)

lemma server_handle_read_frame:
  "sv_listen_fd (fst (server_handle_read s g bs r)) = sv_listen_fd s \<and>
   sv_callback (fst (server_handle_read s g bs r)) = sv_callback s \<and>
   (fd \<noteq> g \<longrightarrow> sv_buffers (fst (server_handle_read s g bs r)) fd = sv_buffers s fd)"
  by (auto simp: server_handle_read_def close_connection_def close_fd_def Let_def
      split: option.split prod.split)

lemma server_handle_read_again:
  "sv_buffers s fd = Some b \<Longrightarrow> sv_callback s \<Longrightarrow>
   server_handle_read s fd bs ReadAgain =
     (s\<lparr>sv_buffers := (sv_buffers s)(fd \<mapsto> snd (decode (b @ concat bs)))\<rparr>, fst (decode (b @ concat bs)))"
  by (simp add: server_handle_read_def Let_def split: prod.split)

text \<open>
  A connection sees only its own bytes: what is delivered on it is what the receiver
  \<open>feed\<close> makes of its reads, whatever happens on other connections in between.
\<close>

lemma server_events_connection:
  "sv_buffers s fd = Some b \<Longrightarrow> sv_callback s \<Longrightarrow> stays_open s fd es \<Longrightarrow>
   delivered_on fd (snd (server_events s es)) = fst (feed decode b (reads_on fd es)) \<and>
   sv_buffers (fst (server_events s es)) fd = Some (snd (feed decode b (reads_on fd es)))"
proof (induction es arbitrary: s b)
  case Nil
  then show ?case by (simp add: reads_on_def delivered_on_def)
next
  case (Cons e es)
  let ?step = "if se_fd e = sv_listen_fd s then (handle_accept s (se_accepts e), [])
    else server_handle_read s (se_fd e) (se_blocks e) (se_read_end e)"
  obtain s1 ms where step: "?step = (s1, ms)" by (cases ?step)
  show ?case
  proof (cases "se_fd e = fd")
    case True
    obtain ms' r where d: "decode (b @ concat (se_blocks e)) = (ms', r)" by fastforce
    with True Cons.prems step have "s1 = s\<lparr>sv_buffers := (sv_buffers s)(fd \<mapsto> r)\<rparr>" "ms = ms'"
      by (auto simp: stays_open_def server_handle_read_again)
    with True Cons.prems Cons.IH [of s1 r] step d
    show ?thesis by (auto simp: stays_open_def reads_on_def Let_def split: prod.splits)
  next
    case False
    with Cons.prems step have s1: "sv_listen_fd s1 = sv_listen_fd s" "sv_callback s1"
      "sv_buffers s1 fd = Some b"
      using handle_accept_frame [of s "se_accepts e" fd]
        server_handle_read_frame [of s "se_fd e" "se_blocks e" "se_read_end e" fd]
      by (auto simp: stays_open_def split: if_splits)
    with False Cons.prems Cons.IH [of s1 b] step
    show ?thesis by (auto simp: stays_open_def reads_on_def Let_def split: prod.splits)
  qed
qed

text \<open>The bytes on the way: from the sends of a client to the callback of the server.\<close>

lemma stream_arrives_from:
  assumes "outstream c0 = []" "\<forall>m \<in> set (accepted c0 ops). length m \<le> MAX_PAYLOAD_SIZE" "cl_write_buffer (client_steps c0 ops) = []"
    and "sv_buffers sv fd = Some []" "sv_callback sv" "stays_open sv fd es" "concat (reads_on fd es) = cl_sent (client_steps c0 ops)"
  shows "delivered_on fd (snd (server_events sv es)) = accepted c0 ops"
proof -
  have "concat (reads_on fd es) = concat (map encode (accepted c0 ops))"
    using client_steps_outstream [of c0 ops] assms(1,3,7) by (simp add: outstream_def)
  with assms(2) have "feed decode [] (reads_on fd es) = (accepted c0 ops, [])" by (intro codec.feed_complete) auto
  with server_events_connection [OF assms(4-6)] show ?thesis by simp
qed

lemmas stream_arrives = stream_arrives_from [OF outstream_started]

section \<open>Properties\<close>

text \<open>
  C4: From the sender's socket to the receiver's callback: if a client's sends accepted the
  payloads \<open>ps\<close>, all of its bytes were written, and the server reads those bytes on one
  connection in any pieces, interleaved with any other connections, then the server's callback
  gets exactly \<open>ps\<close>, in order, from that connection.
\<close>

theorem tcp_end_to_end:
  fixes h port env ops
  defines "c0 \<equiv> started_client h port env"
  defines "c \<equiv> client_steps c0 ops"
  assumes "\<forall>m \<in> set (accepted c0 ops). length m \<le> MAX_PAYLOAD_SIZE"
    and "cl_write_buffer c = []"
    and "sv_buffers s fd = Some []" "sv_callback s" "stays_open s fd es"
    and "concat (reads_on fd es) = cl_sent c"
  shows "delivered_on fd (snd (server_events s es)) = accepted c0 ops"
  using stream_arrives assms by blast

definition read_event :: "int \<Rightarrow> bytes list \<Rightarrow> server_event" where
  "read_event fd blocks = \<lparr>se_fd = fd, se_accepts = [], se_blocks = blocks, se_read_end = ReadAgain\<rparr>"

definition two_sends :: "client_op list" where
  "two_sends = [OpConnectComplete 0, OpSend ''ab'', OpSend ''c'', OpWritable (\<lambda>_. Wrote 1000)]"

theorem tcp_end_to_end_witness:
  "delivered_on 9 (snd (server_events ((new_server 0)\<lparr>sv_callback := True, sv_buffers := [9 \<mapsto> []]\<rparr>)
     [read_event 9 [take 5 (encode ''ab'')], read_event 9 [drop 5 (encode ''ab''), encode ''c'']]))
   = [''ab'', ''c'']"
proof -
  have run: "accepted (started_client ''h'' 1 env_example) two_sends = [''ab'', ''c'']"
    "cl_write_buffer (client_steps (started_client ''h'' 1 env_example) two_sends) = []"
    "cl_sent (client_steps (started_client ''h'' 1 env_example) two_sends) = encode ''ab'' @ encode ''c''"
    by (simp_all add: two_sends_def started_client_def client_start_def new_client_def env_example_def
        client_op_defs client_handle_write_def write_loop.simps encode_fits MAX_PAYLOAD_SIZE_def
        write_uint32_be_def)
  have "delivered_on 9 (snd (server_events ((new_server 0)\<lparr>sv_callback := True, sv_buffers := [9 \<mapsto> []]\<rparr>)
      [read_event 9 [take 5 (encode ''ab'')], read_event 9 [drop 5 (encode ''ab''), encode ''c'']]))
    = accepted (started_client ''h'' 1 env_example) two_sends"
    by (rule tcp_end_to_end)
      (simp_all add: run new_server_def read_event_def stays_open_def reads_on_def MAX_PAYLOAD_SIZE_def)
  then show ?thesis by (simp only: run)
qed

text \<open>
  A frame header above the size limit makes \<open>decode\<close> drop what was received, but the server keeps the
  connection open with an empty buffer, so the stream goes on being parsed in the middle of a frame.
\<close>

theorem corrupt_header_keeps_connection:
  assumes "sv_buffers s fd = Some b" "corrupt (b @ concat blocks)"
  shows "server_handle_read s fd blocks ReadAgain = (s\<lparr>sv_buffers := (sv_buffers s)(fd \<mapsto> [])\<rparr>, [])"
  using assms by (simp add: server_handle_read_def decode_corrupt Let_def)

theorem corrupt_header_keeps_connection_witness:
  "server_handle_read ((new_server 0)\<lparr>sv_buffers := [9 \<mapsto> []]\<rparr>) 9 [[CHR 0xFF, CHR 0x00, CHR 0x00, CHR 0x00]] ReadAgain
     = ((new_server 0)\<lparr>sv_buffers := [9 \<mapsto> []]\<rparr>, [])"
proof -
  have "corrupt ([] @ concat [[CHR 0xFF, CHR 0x00, CHR 0x00, CHR 0x00]])"
    by (simp add: corrupt_def HEADER_SIZE_def MAX_PAYLOAD_SIZE_def read_uint32_be_Cons)
  from corrupt_header_keeps_connection [OF _ this, of "(new_server 0)\<lparr>sv_buffers := [9 \<mapsto> []]\<rparr>" 9]
  show ?thesis by simp
qed

text \<open>
  \<open>stop\<close> on a running server closes the listening socket, the epoll instance and every
  accepted connection, forgets their buffers, and a second \<open>stop\<close> does nothing.
\<close>

theorem server_stop_releases:
  assumes "sv_running s"
  shows "sv_buffers (server_stop s) = Map.empty \<and> \<not> sv_running (server_stop s)
       \<and> dom (sv_buffers s) \<subseteq> sv_closed (server_stop s)
       \<and> {fd \<in> {sv_listen_fd s, sv_epoll_fd s}. 0 \<le> fd} \<subseteq> sv_closed (server_stop s)
       \<and> server_stop (server_stop s) = server_stop s"
  using assms by (auto simp: server_stop_def close_fd_def Let_def)

theorem server_stop_releases_witness:
  "7 \<in> sv_closed (server_stop ((new_server 0)\<lparr>sv_running := True, sv_listen_fd := 7\<rparr>))"
  using server_stop_releases [of "(new_server 0)\<lparr>sv_running := True, sv_listen_fd := 7\<rparr>"] by auto

end
