(* ===== verification/Network.thy ===== *)
theory Network
  imports Peer_Knowledge Tcp_Server
begin

text \<open>
  Several nodes with the network between them. Announcements once sent, numbered in order, may be heard by any node any number of times, late, out of
  order or never (UDP multicast, discovery/src/udp_multicast.cpp); the named shared memory of a host is one table for all its
  nodes. Nodes join with a participant id that no node has had and a port that no node on the same host is listening on.
  A node that leaves is destroyed and takes no further part, except that what it said may still be heard. Messages are shorter than
  4 GiB, and a ring carries fewer than \<open>2^63\<close> of them.
\<close>

section \<open>The network\<close>

record 'r network =
  nw_nodes :: "'r node list"
  nw_air :: "announcement list"
  nw_shm :: "string \<Rightarrow> shm_table"

definition up :: "'r node \<Rightarrow> bool" where
  "up n \<longleftrightarrow> \<not> dp_stopped (pl_dp (nd_plane n))"

definition pid_of :: "'r node \<Rightarrow> u64" where
  "pid_of n = ag_pid (nd_agent n)"

definition host_of :: "'r node \<Rightarrow> string" where
  "host_of n = dp_host (pl_dp (nd_plane n))"

definition port_of :: "'r node \<Rightarrow> u16" where
  "port_of n = server_port (pl_dp (nd_plane n))"

definition with_shm :: "shm_table \<Rightarrow> 'r node \<Rightarrow> 'r node" where
  "with_shm t n = n\<lparr>nd_plane := (nd_plane n)\<lparr>pl_shm := t\<rparr>\<rparr>"

text \<open>A node as it acts: with the shared memory of its host, which it leaves changed.\<close>

definition node_at :: "'r network \<Rightarrow> nat \<Rightarrow> 'r node" where
  "node_at N i = with_shm (nw_shm N (host_of (nw_nodes N ! i))) (nw_nodes N ! i)"

definition put_node :: "nat \<Rightarrow> 'r node \<Rightarrow> 'r network \<Rightarrow> 'r network" where
  "put_node i n N = N\<lparr>nw_nodes := (nw_nodes N)[i := n], nw_shm := (nw_shm N)(host_of n := pl_shm (nd_plane n))\<rparr>"

text \<open>One poll of the thread of \<open>ShmReaderManager\<close>: what it takes from the segments and hands to the bus, and the node after it.\<close>

definition poll_node :: "(string \<Rightarrow> shm_outcome) \<Rightarrow> (sink_id \<Rightarrow> bool) \<Rightarrow> 'r node \<Rightarrow> ((string \<times> bytes) list \<times> 'r node) option" where
  "poll_node oc live n =
     (let w = nd_plane n in
      case dp_readers (pl_dp w) of
        None \<Rightarrow> Some ([], n)
      | Some rm \<Rightarrow>
          (case poll_once oc (pl_shm w) rm of
             None \<Rightarrow> None
           | Some (did_work, ds, rm) \<Rightarrow>
               Some (ds, n\<lparr>nd_plane := w\<lparr>pl_dp := (pl_dp w)\<lparr>dp_readers := Some rm\<rparr>,
                 pl_bus := foldl (\<lambda>bus (t, bs). snd (deliver_inbound (node_alive live w) bus t)) (pl_bus w) ds\<rparr>\<rparr>)))"

definition empty_network :: "(string \<Rightarrow> shm_table) \<Rightarrow> 'r network" where
  "empty_network shm = \<lparr>nw_nodes = [], nw_air = [], nw_shm = shm\<rparr>"

datatype net_event =
    Join string node_options node_env
  | Act nat node_op
  | Say nat
  | Hear nat int nat
  | ShmWrite nat string bytes
  | Poll nat "string \<Rightarrow> shm_outcome" "sink_id \<Rightarrow> bool"
  | Leave nat

text \<open>What a node does by itself: everything but hearing others, and endpoints come from the factory methods.\<close>

fun own_op :: "node_op \<Rightarrow> bool" where
  "own_op (Discovery (Announced now ann)) = False"
| "own_op (Discovery (AddEndpoint k t ty rel resp)) = False"
| "own_op op = typed_node_op op"

fun allowed :: "net_event \<Rightarrow> 'r network \<Rightarrow> bool" where
  "allowed (Join name options env) N \<longleftrightarrow> ne_pid env \<notin> pid_of ` set (nw_nodes N) \<and> ne_shm env = nw_shm N (ne_host env) \<and>
     (case ne_listening env of None \<Rightarrow> False
      | Some port \<Rightarrow> \<forall>n \<in> set (nw_nodes N). up n \<and> host_of n = ne_host env \<longrightarrow> port_of n \<noteq> port)"
| "allowed (Act i op) N \<longleftrightarrow> i < length (nw_nodes N) \<and> up (nw_nodes N ! i) \<and> own_op op"
| "allowed (Say i) N \<longleftrightarrow> i < length (nw_nodes N) \<and> up (nw_nodes N ! i) \<and> ag_running (nd_agent (nw_nodes N ! i))"
| "allowed (Hear i now k) N \<longleftrightarrow> i < length (nw_nodes N) \<and> up (nw_nodes N ! i) \<and> k < length (nw_air N)"
| "allowed (ShmWrite i t bs) N \<longleftrightarrow> i < length (nw_nodes N) \<and> up (nw_nodes N ! i) \<and> length bs < 2 ^ 32 \<and>
     (case Option.bind (sm_find (dp_shm_pub (pl_dp (nd_plane (nw_nodes N ! i)))) t) (\<lambda>p. ring_of (nw_shm N (host_of (nw_nodes N ! i))) (sp_seg p)) of
        None \<Rightarrow> True
      | Some r \<Rightarrow> Suc (unat (rg_write_seq r)) < pos_limit)"
| "allowed (Poll i oc live) N \<longleftrightarrow> i < length (nw_nodes N) \<and> up (nw_nodes N ! i) \<and> poll_node oc live (node_at N i) \<noteq> None"
| "allowed (Leave i) N \<longleftrightarrow> i < length (nw_nodes N) \<and> up (nw_nodes N ! i)"

text \<open>\<open>None\<close> is the crash of a process; a poll that does not return is no event. \<open>old\<close> is what fresh memory holds.\<close>

fun net_step :: "(nat \<Rightarrow> nat \<Rightarrow> char) \<Rightarrow> net_event \<Rightarrow> 'r network \<Rightarrow> 'r network option" where
  "net_step old (Join name options env) N = Some (N\<lparr>nw_nodes := nw_nodes N @ [make_node name options env]\<rparr>)"
| "net_step old (Act i op) N = map_option (\<lambda>n. put_node i n N) (node_step old op (node_at N i))"
| "net_step old (Say i) N =
     Some (N\<lparr>nw_air := nw_air N @ [announce (host_of (nw_nodes N ! i)) (nd_agent (nw_nodes N ! i))]\<rparr>)"
| "net_step old (Hear i now k) N =
     map_option (\<lambda>n. put_node i n N) (node_step old (Discovery (Announced now (nw_air N ! k))) (node_at N i))"
| "net_step old (ShmWrite i t bs) N =
     (let n = nw_nodes N ! i; h = host_of n in
      case sm_find (dp_shm_pub (pl_dp (nd_plane n))) t of
        None \<Rightarrow> Some N
      | Some p \<Rightarrow> Some (N\<lparr>nw_shm := (nw_shm N)(h := snd (shm_sink_enqueue (sp_seg p) bs (nw_shm N h)))\<rparr>))"
| "net_step old (Poll i oc live) N = map_option (\<lambda>(ds, n). put_node i n N) (poll_node oc live (node_at N i))"
| "net_step old (Leave i) N = Some (put_node i (destroy_node (node_at N i)) N)"

fun net_run :: "(nat \<Rightarrow> nat \<Rightarrow> char) \<Rightarrow> net_event list \<Rightarrow> 'r network \<Rightarrow> 'r network option" where
  "net_run old [] N = Some N"
| "net_run old (e # es) N = (if allowed e N then Option.bind (net_step old e N) (net_run old es) else None)"

text \<open>
  At the beginning there may be segments of other programs; names stand for different objects.
\<close>

definition table_ok :: "shm_table \<Rightarrow> bool" where
  "table_ok t \<longleftrightarrow> (\<forall>n i. st_names t n = Some i \<longrightarrow> i < st_next t) \<and>
     (\<forall>n n' i. st_names t n = Some i \<longrightarrow> st_names t n' = Some i \<longrightarrow> n = n')"

inductive reachable :: "(nat \<Rightarrow> nat \<Rightarrow> char) \<Rightarrow> 'r network \<Rightarrow> bool" for old where
  reach_empty: "(\<And>h. table_ok (shm h)) \<Longrightarrow> reachable old (empty_network shm)"
| reach_step: "reachable old N \<Longrightarrow> allowed e N \<Longrightarrow> net_step old e N = Some N' \<Longrightarrow> reachable old N'"

lemma net_run_append: "net_run old (es @ fs) N = Option.bind (net_run old es N) (net_run old fs)"
proof (induction es arbitrary: N)
  case (Cons e es)
  then show ?case by (cases "net_step old e N") simp_all
qed simp

lemma net_run_reachable: "reachable old N \<Longrightarrow> net_run old es N = Some N' \<Longrightarrow> reachable old N'"
proof (induction es arbitrary: N)
  case (Cons e es)
  then obtain N1 where "allowed e N" "net_step old e N = Some N1" "net_run old es N1 = Some N'"
    by (auto simp: bind_eq_Some_conv split: if_splits)
  with Cons.IH [of N1] Cons.prems(1) reach_step show ?case by blast
qed simp

section \<open>What can be true of a participant\<close>

definition peer_of :: "'r network \<Rightarrow> u64 \<Rightarrow> remote_peer \<Rightarrow> bool" where
  "peer_of N p r \<longleftrightarrow> (\<exists>n \<in> set (nw_nodes N). pid_of n = p \<and> rp_node r = ag_node (nd_agent n) \<and> rp_locator r = ag_locator (nd_agent n) \<and>
     rp_host r = host_of n \<and> prefix (rp_endpoints r) (ag_endpoints (nd_agent n)))"

definition sound_of :: "'r network \<Rightarrow> match_info \<Rightarrow> bool" where
  "sound_of N m \<longleftrightarrow> (\<exists>n \<in> set (nw_nodes N). pid_of n = mi_pid m \<and> mi_locator m = ag_locator (nd_agent n) \<and>
     mi_host m = host_of n \<and> mi_remote m \<in> set (ag_endpoints (nd_agent n)))"

definition said_by :: "'r network \<Rightarrow> announcement \<Rightarrow> bool" where
  "said_by N ann \<longleftrightarrow> peer_of N (an_pid ann)
     \<lparr>rp_node = an_node ann, rp_endpoints = an_endpoints ann, rp_locator = an_locator ann, rp_host = an_host ann, rp_last_seen = 0\<rparr>"

definition lives_at :: "'r network \<Rightarrow> u64 \<Rightarrow> locator \<Rightarrow> bool" where
  "lives_at N p l \<longleftrightarrow> (\<exists>n \<in> set (nw_nodes N). pid_of n = p \<and> ag_locator (nd_agent n) = l)"

interpretation nk: peer_knowledge "peer_of N" "sound_of N" for N :: "'r network"
  by unfold_locales (auto simp: peer_of_def sound_of_def dest: set_mono_prefix)

section \<open>The invariant\<close>

definition node_ok :: "'r network \<Rightarrow> 'r node \<Rightarrow> bool" where
  "node_ok N n \<longleftrightarrow> believes (peer_of N) (sound_of N) (nd_agent n) \<and>
     (up n \<longrightarrow> node_inv n \<and> bus_inv n \<and> conns_ok (lives_at N) (nd_plane n) \<and> dp_pid (pl_dp (nd_plane n)) = pid_of n \<and>
        ag_locator (nd_agent n) = \<lparr>loc_ip = ''127.0.0.1'', loc_port = ucast (port_of n)\<rparr>)"

text \<open>Nodes of one host listen on different ports.\<close>

definition ports_ok :: "'r node set \<Rightarrow> bool" where
  "ports_ok S \<longleftrightarrow> (\<forall>n \<in> S. \<forall>n' \<in> S. up n \<longrightarrow> up n' \<longrightarrow> host_of n = host_of n' \<longrightarrow> port_of n = port_of n' \<longrightarrow> pid_of n = pid_of n')"

definition net_inv :: "'r network \<Rightarrow> bool" where
  "net_inv N \<longleftrightarrow> distinct (map pid_of (nw_nodes N)) \<and> (\<forall>n \<in> set (nw_nodes N). node_ok N n) \<and>
     (\<forall>ann \<in> set (nw_air N). said_by N ann) \<and> ports_ok (set (nw_nodes N))"

lemma ports_ok_twins:
  assumes "ports_ok S" "\<And>m. m \<in> S' \<Longrightarrow> up m \<Longrightarrow> \<exists>x \<in> S. up x \<and> host_of x = host_of m \<and> port_of x = port_of m \<and> pid_of x = pid_of m"
  shows "ports_ok S'"
  unfolding ports_ok_def
proof (intro ballI impI)
  fix m m' assume "m \<in> S'" "m' \<in> S'" "up m" "up m'" and e: "host_of m = host_of m'" "port_of m = port_of m'"
  with assms(2) obtain x x' where "x \<in> S" "up x" "host_of x = host_of m" "port_of x = port_of m" and x: "pid_of x = pid_of m"
    and "x' \<in> S" "up x'" "host_of x' = host_of m'" "port_of x' = port_of m'" and x': "pid_of x' = pid_of m'" by metis
  with e have "host_of x = host_of x'" "port_of x = port_of x'" by simp_all
  with assms(1) \<open>x \<in> S\<close> \<open>x' \<in> S\<close> \<open>up x\<close> \<open>up x'\<close> have "pid_of x = pid_of x'" unfolding ports_ok_def by blast
  with x x' show "pid_of m = pid_of m'" by simp
qed

lemma ports_ok_insert:
  assumes "ports_ok S" "\<And>n. n \<in> S \<Longrightarrow> up n \<Longrightarrow> host_of n = host_of x \<Longrightarrow> port_of n \<noteq> port_of x"
  shows "ports_ok (insert x S)"
  unfolding ports_ok_def
proof (intro ballI impI)
  fix n n' assume "n \<in> insert x S" "n' \<in> insert x S" and n: "up n" "up n'" "host_of n = host_of n'" "port_of n = port_of n'"
  then consider "n = x" "n' = x" | "n = x" "n' \<in> S" | "n \<in> S" "n' = x" | "n \<in> S" "n' \<in> S" by blast
  then show "pid_of n = pid_of n'"
  proof cases
    case 2
    with assms(2) [of n'] n show ?thesis by simp
  next
    case 3
    with assms(2) [of n] n show ?thesis by simp
  next
    case 4
    with assms(1) n show ?thesis unfolding ports_ok_def by blast
  qed simp
qed

text \<open>What a node never changes, and that it only adds endpoints.\<close>

definition same_place :: "'r node \<Rightarrow> 'r node \<Rightarrow> bool" where
  "same_place n n' \<longleftrightarrow> pid_of n' = pid_of n \<and> ag_node (nd_agent n') = ag_node (nd_agent n) \<and>
     ag_locator (nd_agent n') = ag_locator (nd_agent n) \<and> host_of n' = host_of n \<and>
     prefix (ag_endpoints (nd_agent n)) (ag_endpoints (nd_agent n'))"

definition evolves :: "'r network \<Rightarrow> 'r network \<Rightarrow> bool" where
  "evolves N N' \<longleftrightarrow> (\<forall>n \<in> set (nw_nodes N). \<exists>n' \<in> set (nw_nodes N'). same_place n n')"

lemma same_place_refl [simp]: "same_place n n"
  by (simp add: same_place_def)

lemma evolves_facts:
  assumes "evolves N N'"
  shows "peer_of N p r \<Longrightarrow> peer_of N' p r" "sound_of N m \<Longrightarrow> sound_of N' m" "said_by N ann \<Longrightarrow> said_by N' ann"
    "lives_at N p l \<Longrightarrow> lives_at N' p l"
proof -
  show p: "peer_of N p r \<Longrightarrow> peer_of N' p r" for p r
    using assms unfolding evolves_def same_place_def peer_of_def by (metis prefix_order.trans)
  show "sound_of N m \<Longrightarrow> sound_of N' m"
    using assms unfolding evolves_def same_place_def sound_of_def by (metis set_mono_prefix subsetD)
  show "said_by N ann \<Longrightarrow> said_by N' ann" unfolding said_by_def by (rule p)
  show "lives_at N p l \<Longrightarrow> lives_at N' p l"
    using assms unfolding evolves_def same_place_def lives_at_def by metis
qed

lemma believes_mono:
  "believes P S a \<Longrightarrow> (\<And>p r. P p r \<Longrightarrow> P' p r) \<Longrightarrow> (\<And>m. S m \<Longrightarrow> S' m) \<Longrightarrow> believes P' S' a"
  unfolding believes_def by blast

lemma conns_ok_mono: "conns_ok at w \<Longrightarrow> (\<And>p l. at p l \<Longrightarrow> at' p l) \<Longrightarrow> conns_ok at' w"
  unfolding conns_ok_def by meson

lemma node_ok_mono:
  assumes "node_ok N n" "evolves N N'"
  shows "node_ok N' n"
proof -
  have "believes (peer_of N') (sound_of N') (nd_agent n)"
    by (rule believes_mono [of "peer_of N" "sound_of N"]) (use assms evolves_facts [OF assms(2)] in \<open>auto simp: node_ok_def\<close>)
  moreover have "conns_ok (lives_at N') (nd_plane n)" if "up n"
    by (rule conns_ok_mono [of "lives_at N"]) (use assms that evolves_facts [OF assms(2)] in \<open>auto simp: node_ok_def\<close>)
  ultimately show ?thesis using assms(1) by (simp add: node_ok_def)
qed

section \<open>A step of a node\<close>

lemma with_shm_simps [simp]:
  "nd_agent (with_shm t n) = nd_agent n" "pl_dp (nd_plane (with_shm t n)) = pl_dp (nd_plane n)"
  "pl_bus (nd_plane (with_shm t n)) = pl_bus (nd_plane n)" "pl_calls (nd_plane (with_shm t n)) = pl_calls (nd_plane n)"
  "nd_entities (with_shm t n) = nd_entities n" "nd_name (with_shm t n) = nd_name n" "pl_shm (nd_plane (with_shm t n)) = t"
  by (simp_all add: with_shm_def)

lemma with_shm_inv [simp]:
  "node_inv (with_shm t n) = node_inv n" "bus_inv (with_shm t n) = bus_inv n"
  "conns_ok at (nd_plane (with_shm t n)) = conns_ok at (nd_plane n)" "same_place n (with_shm t n)" "up (with_shm t n) = up n"
  "host_of (with_shm t n) = host_of n" "port_of (with_shm t n) = port_of n" "pid_of (with_shm t n) = pid_of n"
  by (simp_all add: node_inv_def tracks_def bus_inv_def sinks_ok_def same_place_def up_def host_of_def port_of_def pid_of_def
      conns_ok_cong [of "nd_plane (with_shm t n)" "nd_plane n"])

lemma node_inv_up: "node_inv n \<Longrightarrow> up n"
  by (simp add: node_inv_def tracks_def up_def)

lemma node_step_place:
  assumes "node_step old op n = Some n'"
  shows "same_place n n'" "port_of n' = port_of n" "dp_pid (pl_dp (nd_plane n')) = dp_pid (pl_dp (nd_plane n))"
  using node_step_static [OF assms] node_step_identity [OF assms]
  by (simp_all add: same_place_def agent_static_def same_identity_def pid_of_def host_of_def port_of_def server_port_def)

lemma node_step_believes:
  assumes "node_step old op n = Some n'" "believes (peer_of N) (sound_of N) (nd_agent n)" "conns_ok (lives_at N) (nd_plane n)"
    and "\<And>now ann. op = Discovery (Announced now ann) \<Longrightarrow> said_by N ann"
  shows "believes (peer_of N) (sound_of N) (nd_agent n')" "conns_ok (lives_at N) (nd_plane n')"
proof -
  have "believes (peer_of N) (sound_of N) (nd_agent n') \<and> conns_ok (lives_at N) (nd_plane n')"
    using assms(1)
  proof (cases rule: node_step_agent)
    case adds
    then show ?thesis
      using assms(2,3) node_step_conns [OF assms(1)] adds_endpoints_keeps [OF adds(1)] by (simp add: believes_def)
  next
    case (steps o')
    have "peer_of N (an_pid ann) r"
      if "o' = Announced now ann" "r = \<lparr>rp_node = an_node ann, rp_endpoints = an_endpoints ann, rp_locator = an_locator ann,
            rp_host = an_host ann, rp_last_seen = now\<rparr>" for now ann r
      using assms(4) [of now ann] steps(1) that by (simp add: said_by_def peer_of_def)
    from nk.agent_step_believed [OF assms(2) this]
    have b: "believes (peer_of N) (sound_of N) (snd (agent_step o' (nd_agent n)))"
      "\<forall>m. OnMatch m \<in> set (fst (agent_step o' (nd_agent n))) \<longrightarrow> sound_of N m" by auto
    then have "\<forall>m. OnMatch m \<in> set (fst (agent_step o' (nd_agent n))) \<longrightarrow> lives_at N (mi_pid m) (mi_locator m)"
      by (fastforce simp: sound_of_def lives_at_def)
    from plane_events_conns [OF steps(4) assms(3) this] b(1) steps(3) show ?thesis by simp
  qed (use assms in simp)
  then show "believes (peer_of N) (sound_of N) (nd_agent n')" "conns_ok (lives_at N) (nd_plane n')" by simp_all
qed

lemma node_step_ok:
  assumes "node_ok N n" "up n" "node_step old op n = Some n'" "typed_node_op op"
    and "\<And>now ann. op = Discovery (Announced now ann) \<Longrightarrow> said_by N ann"
  shows "node_ok N n'" "up n'"
proof -
  from assms(1,2) have n: "believes (peer_of N) (sound_of N) (nd_agent n)" "node_inv n" "bus_inv n" "conns_ok (lives_at N) (nd_plane n)"
    by (simp_all add: node_ok_def)
  have inv: "node_inv n'" using node_step_inv [OF n(2), of old op] assms(3) by simp
  then show "up n'" by (rule node_inv_up)
  from inv node_step_believes [OF assms(3) n(1,4) assms(5)] node_step_bus [OF n(3) assms(4,3)] node_step_place [OF assms(3)] assms(1,2)
  show "node_ok N n'" by (simp add: node_ok_def same_place_def)
qed

section \<open>A poll\<close>

lemma poll_entries_keys: "poll_entries oc t es = Some (ds, es') \<Longrightarrow> map fst es' = map fst es"
proof (induction es arbitrary: ds es')
  case (Cons x es)
  obtain k e where "x = (k, e)" by (cases x)
  with Cons show ?case by (auto split: option.splits prod.splits)
qed simp

lemma same_keys: "map fst xs = map fst ys \<Longrightarrow> (map_of xs k = None) = (map_of ys k = None)"
  by (metis list.set_map map_of_eq_None_iff)

lemma deliver_all_bus:
  "shrinks bus (foldl (\<lambda>bus (t, bs). snd (deliver_inbound alive bus t)) bus ds)"
  "te_remote_sinks (entry_at (foldl (\<lambda>bus (t, bs). snd (deliver_inbound alive bus t)) bus ds) t') = te_remote_sinks (entry_at bus t')"
proof (induction ds arbitrary: bus)
  case (Cons d ds)
  obtain t bs where d: "d = (t, bs)" by (cases d)
  { case 1 show ?case using shrinks_trans [OF shrinks_ops(3) Cons(1)] by (simp add: d) }
  { case 2 show ?case using Cons(2) by (simp add: d) }
qed (simp_all add: shrinks_refl)

lemma poll_node_parts:
  assumes "poll_node oc live n = Some (ds, n')"
  shows "nd_agent n' = nd_agent n" "same_identity (pl_dp (nd_plane n)) (pl_dp (nd_plane n'))" "same_place n n'" "port_of n' = port_of n"
    "dp_pid (pl_dp (nd_plane n')) = dp_pid (pl_dp (nd_plane n))" "dp_shm_pub (pl_dp (nd_plane n')) = dp_shm_pub (pl_dp (nd_plane n))"
    "pl_shm (nd_plane n') = pl_shm (nd_plane n)" "conns_ok at (nd_plane n') = conns_ok at (nd_plane n)"
proof -
  show "conns_ok at (nd_plane n') = conns_ok at (nd_plane n)"
    by (rule conns_ok_cong) (use assms in \<open>auto simp: poll_node_def Let_def split: option.splits\<close>)
qed (use assms in \<open>auto simp: poll_node_def Let_def same_identity_def same_place_def pid_of_def host_of_def port_of_def server_port_def
      split: option.splits\<close>)

lemma poll_node_inv:
  assumes "poll_node oc live n = Some (ds, n')" "node_inv n"
  shows "node_inv n'"
proof -
  let ?w = "nd_plane n" and ?d = "pl_dp (nd_plane n)"
  from assms(2) have t: "tracks ?w (ran (active_map (nd_agent n)))" by (simp add: node_inv_def)
  then obtain rm where rm: "dp_readers ?d = Some rm" by (auto simp: tracks_def reader_tracks_def)
  with assms(1) obtain es where es: "poll_entries oc (pl_shm ?w) (rm_readers rm) = Some (ds, es)"
    and n': "nd_plane n' = ?w\<lparr>pl_dp := ?d\<lparr>dp_readers := Some (rm\<lparr>rm_readers := es\<rparr>)\<rparr>,
       pl_bus := foldl (\<lambda>bus (t, bs). snd (deliver_inbound (node_alive live ?w) bus t)) (pl_bus ?w) ds\<rparr>"
    by (auto simp: poll_node_def Let_def poll_once_def split: option.splits)
  let ?d' = "?d\<lparr>dp_readers := Some (rm\<lparr>rm_readers := es\<rparr>)\<rparr>"
  have i: "same_identity ?d ?d'" by (simp add: same_identity_def)
  have "reader_tracks ?d' (ran (active_map (nd_agent n)))"
    using t rm same_keys [OF poll_entries_keys [OF es]] by (auto simp: tracks_def reader_tracks_def wants_same [OF i])
  then have "tracks (?w\<lparr>pl_dp := ?d'\<rparr>) (ran (active_map (nd_agent n)))"
    using t tcp_tracks_cong [OF i] writer_tracks_cong [OF i] bus_tracks_cong [of ?d' ?d "pl_bus ?w"] by (simp add: tracks_def comp_def)
  from tracks_set_bus [OF this, of "pl_bus (nd_plane n')"] have "tracks (nd_plane n') (ran (active_map (nd_agent n)))"
    by (simp add: n' deliver_all_bus(2))
  with assms(2) poll_node_parts(1) [OF assms(1)] show ?thesis by (simp add: node_inv_def)
qed

lemma poll_node_ok:
  assumes "poll_node oc live n = Some (ds, n')" "node_ok N n" "up n"
  shows "node_ok N n'" "up n'"
proof -
  note p = poll_node_parts [OF assms(1)]
  from assms(2,3) have n: "node_inv n" "bus_inv n" by (simp_all add: node_ok_def)
  have i: "node_inv n'" using poll_node_inv [OF assms(1) n(1)] .
  have "shrinks (pl_bus (nd_plane n)) (pl_bus (nd_plane n'))" "dp_next_sink (pl_dp (nd_plane n')) = dp_next_sink (pl_dp (nd_plane n))"
    using assms(1) by (auto simp: poll_node_def Let_def shrinks_refl deliver_all_bus(1) split: option.splits)
  with bus_inv_shrinks [OF n(2), of n'] p(1) have "bus_inv n'" by simp
  with i p assms(2,3) show "node_ok N n'" by (simp add: node_ok_def same_place_def)
  from i show "up n'" by (rule node_inv_up)
qed

section \<open>The invariant holds in every reachable network\<close>

lemma evolves_put:
  assumes "i < length (nw_nodes N)" "same_place (nw_nodes N ! i) n'"
  shows "evolves N (put_node i n' N)"
  unfolding evolves_def
proof
  fix n assume "n \<in> set (nw_nodes N)"
  then obtain j where j: "j < length (nw_nodes N)" "n = nw_nodes N ! j" by (auto simp: in_set_conv_nth)
  then have "(nw_nodes N)[i := n'] ! j \<in> set ((nw_nodes N)[i := n'])" by simp
  moreover have "same_place n ((nw_nodes N)[i := n'] ! j)" using assms j by (cases "j = i") simp_all
  ultimately show "\<exists>n' \<in> set (nw_nodes (put_node i n' N)). same_place n n'" by (auto simp: put_node_def)
qed

lemma net_inv_put:
  assumes "net_inv N" "i < length (nw_nodes N)" "node_ok N n'" "same_place (nw_nodes N ! i) n'"
    and "up n' \<Longrightarrow> up (nw_nodes N ! i) \<and> port_of n' = port_of (nw_nodes N ! i)"
  shows "net_inv (put_node i n' N)"
proof -
  let ?N = "put_node i n' N" and ?n = "nw_nodes N ! i"
  note ev = evolves_put [OF assms(2,4)]
  have nodes: "nw_nodes ?N = (nw_nodes N)[i := n']" "nw_air ?N = nw_air N" by (simp_all add: put_node_def)
  have "map pid_of (nw_nodes ?N) = map pid_of (nw_nodes N)"
    using assms(2,4) by (simp add: nodes map_update same_place_def list_update_same_conv)
  moreover have "node_ok ?N n" if "n \<in> set (nw_nodes ?N)" for n
    using that set_update_subset_insert [of "nw_nodes N" i n'] assms(1,3) node_ok_mono [OF _ ev] by (auto simp: nodes net_inv_def)
  moreover have "said_by ?N ann" if "ann \<in> set (nw_air ?N)" for ann
    using that assms(1) evolves_facts(3) [OF ev] by (simp add: nodes net_inv_def)
  moreover have "\<exists>x \<in> set (nw_nodes N). up x \<and> host_of x = host_of m \<and> port_of x = port_of m \<and> pid_of x = pid_of m"
    if "m \<in> set (nw_nodes ?N)" "up m" for m
    using that set_update_subset_insert [of "nw_nodes N" i n'] assms(2,4,5) by (force simp: nodes same_place_def)
  moreover have "ports_ok (set (nw_nodes N))" using assms(1) by (simp only: net_inv_def)
  ultimately have "distinct (map pid_of (nw_nodes ?N))" "\<forall>n \<in> set (nw_nodes ?N). node_ok ?N n" "\<forall>ann \<in> set (nw_air ?N). said_by ?N ann"
    "ports_ok (set (nw_nodes ?N))"
    using assms(1) ports_ok_twins [of "set (nw_nodes N)" "set (nw_nodes ?N)"] by (simp_all only: net_inv_def) blast+
  then show ?thesis by (simp only: net_inv_def)
qed

lemma make_node_place:
  fixes name options env
  defines "n \<equiv> make_node name options env :: 'r node"
  shows "pid_of n = ne_pid env" "host_of n = ne_host env" "ag_remotes (nd_agent n) = []" "ag_active (nd_agent n) = []"
    "dp_pid (pl_dp (nd_plane n)) = ne_pid env" "dp_connections (pl_dp (nd_plane n)) = []" "pl_calls (nd_plane n) = []"
    "ag_locator (nd_agent n) = \<lparr>loc_ip = ''127.0.0.1'', loc_port = ucast (port_of n)\<rparr>" "ag_endpoints (nd_agent n) = []"
    "ne_listening env = Some p \<Longrightarrow> port_of n = p" "pl_shm (nd_plane n) = ne_shm env"
  by (simp_all add: n_def pid_of_def host_of_def port_of_def make_node_def Let_def new_agent_def on_match_def on_unmatch_def agent_start_def
      set_local_identity_def new_data_plane_def dp_start_def server_port_def split: option.splits)

lemma make_node_ok:
  assumes "ne_listening env = Some port"
  shows "node_ok N (make_node name options env :: 'r node)"
  using make_node_inv [OF assms, of name options] make_node_bus [of name options env]
  by (auto simp add: node_ok_def believes_def conns_ok_def make_node_place)

lemma destroy_ok: "node_ok N n \<Longrightarrow> node_ok N (destroy_node n)" "same_place n (destroy_node n)" "\<not> up (destroy_node n)"
  by (simp_all add: node_ok_def believes_def destroy_node_def agent_stop_def dp_stop_def Let_def up_def same_place_def pid_of_def host_of_def)

lemma net_inv_air:
  assumes "net_inv N" "nw_nodes N' = nw_nodes N" "\<And>ann. ann \<in> set (nw_air N') \<Longrightarrow> ann \<in> set (nw_air N) \<or> said_by N ann"
  shows "net_inv N'"
proof -
  have "evolves N N'" by (auto simp: evolves_def assms(2) intro: same_place_refl)
  with assms node_ok_mono evolves_facts(3) show ?thesis unfolding net_inv_def assms(2) by blast
qed

lemma net_inv_join:
  assumes "net_inv N" "allowed (Join name options env) N"
  shows "net_inv (N\<lparr>nw_nodes := nw_nodes N @ [make_node name options env]\<rparr>)"
proof -
  let ?n = "make_node name options env" and ?N = "N\<lparr>nw_nodes := nw_nodes N @ [make_node name options env]\<rparr>"
  from assms(2) obtain port where p: "ne_listening env = Some port" "ne_pid env \<notin> pid_of ` set (nw_nodes N)"
    "\<forall>n \<in> set (nw_nodes N). up n \<and> host_of n = ne_host env \<longrightarrow> port_of n \<noteq> port" by (auto split: option.splits)
  have ev: "evolves N ?N" by (auto simp: evolves_def intro: same_place_refl)
  have "distinct (map pid_of (nw_nodes ?N))" using assms(1) p(2) by (simp add: net_inv_def make_node_place)
  moreover have "\<forall>n \<in> set (nw_nodes ?N). node_ok ?N n"
    using assms(1) node_ok_mono [OF _ ev] make_node_ok [OF p(1)] by (simp add: net_inv_def)
  moreover have "\<forall>ann \<in> set (nw_air ?N). said_by ?N ann" using assms(1) evolves_facts(3) [OF ev] by (simp add: net_inv_def)
  moreover have "ports_ok (set (nw_nodes ?N))"
  proof -
    have "ports_ok (set (nw_nodes N))" using assms(1) by (simp only: net_inv_def)
    moreover have "host_of ?n = ne_host env" "port_of ?n = port" using make_node_place(2,10) p(1) by blast+
    then have "up n \<Longrightarrow> n \<in> set (nw_nodes N) \<Longrightarrow> host_of n = host_of ?n \<Longrightarrow> port_of n \<noteq> port_of ?n" for n using p(3) by metis
    ultimately have "ports_ok (insert ?n (set (nw_nodes N)))" by (intro ports_ok_insert) blast+
    then show ?thesis by simp
  qed
  ultimately show ?thesis by (simp only: net_inv_def)
qed

lemma net_step_inv:
  assumes "net_inv N" "allowed e N"
  shows "\<exists>N'. net_step old e N = Some N' \<and> net_inv N'"
proof -
  have acts: "\<exists>N'. map_option (\<lambda>n. put_node i n N) (node_step old op (node_at N i)) = Some N' \<and> net_inv N'"
    if i: "i < length (nw_nodes N)" "up (nw_nodes N ! i)" "typed_node_op op" "\<And>now ann. op = Discovery (Announced now ann) \<Longrightarrow> said_by N ann" for i op
  proof -
    have ok: "node_ok N (node_at N i)" "up (node_at N i)"
      using assms(1) i(1,2) by (simp_all add: net_inv_def node_at_def node_ok_def)
    then obtain n' where n': "node_step old op (node_at N i) = Some n'" using node_step_inv [of "node_at N i" old op] by (auto simp: node_ok_def)
    from net_inv_put [OF assms(1) i(1) node_step_ok(1) [OF ok n' i(3,4)]] node_step_place [OF n'] i(2) n'
    show ?thesis by (auto simp: node_at_def same_place_def)
  qed
  show ?thesis
  proof (cases e)
    case (Join name options env)
    then show ?thesis using net_inv_join assms by auto
  next
    case (Act i op)
    have "typed_node_op op" "\<And>now ann. op \<noteq> Discovery (Announced now ann)" using assms(2) Act by (cases op rule: own_op.cases; simp)+
    with acts [of i op] Act assms(2) show ?thesis by simp
  next
    case (Say i)
    let ?n = "nw_nodes N ! i"
    have "said_by N (announce (host_of ?n) (nd_agent ?n))"
      using assms(2) Say by (auto simp: said_by_def peer_of_def announce_def pid_of_def intro!: bexI [of _ ?n])
    then have "net_inv (N\<lparr>nw_air := nw_air N @ [announce (host_of ?n) (nd_agent ?n)]\<rparr>)" by (intro net_inv_air [OF assms(1)]) auto
    with Say show ?thesis by simp
  next
    case (Hear i now k)
    with acts [of i "Discovery (Announced now (nw_air N ! k))"] assms show ?thesis by (simp add: net_inv_def)
  next
    case (ShmWrite i t bs)
    have "net_inv (N\<lparr>nw_shm := x\<rparr>)" for x
      by (rule net_inv_air [OF assms(1)]) auto
    with ShmWrite assms(1) show ?thesis by (auto simp: Let_def split: option.splits)
  next
    case (Poll i oc live)
    have ok: "node_ok N (node_at N i)" "up (node_at N i)" using assms Poll by (simp_all add: net_inv_def node_at_def node_ok_def)
    obtain ds n' where n': "poll_node oc live (node_at N i) = Some (ds, n')" using assms(2) Poll by auto
    have "same_place (nw_nodes N ! i) n'" "port_of n' = port_of (nw_nodes N ! i)"
      using poll_node_parts(3,4) [OF n'] by (simp_all add: node_at_def same_place_def)
    then have "net_inv (put_node i n' N)"
      using poll_node_ok(1) [OF n' ok] assms(2) Poll by (intro net_inv_put [OF assms(1)]) auto
    with Poll n' show ?thesis by simp
  next
    case (Leave i)
    have "node_ok N (node_at N i)" using assms Leave by (simp add: net_inv_def node_at_def node_ok_def)
    moreover have "same_place (nw_nodes N ! i) (destroy_node (node_at N i))"
      using destroy_ok(2) [of "node_at N i"] by (simp add: node_at_def same_place_def)
    ultimately have "net_inv (put_node i (destroy_node (node_at N i)) N)"
      using destroy_ok(1,3) assms(2) Leave by (intro net_inv_put [OF assms(1)]) auto
    with Leave show ?thesis by simp
  qed
qed

lemma empty_inv: "net_inv (empty_network shm)"
  by (simp add: net_inv_def empty_network_def ports_ok_def)

lemma reachable_inv: "reachable old N \<Longrightarrow> net_inv N"
proof (induction rule: reachable.induct)
  case (reach_step N e N')
  with net_step_inv [of N e old] show ?case by auto
qed (rule empty_inv)

section \<open>What a match says about the network\<close>

lemma node_of_pid:
  assumes "net_inv N" "n \<in> set (nw_nodes N)" "n' \<in> set (nw_nodes N)" "pid_of n = pid_of n'"
  shows "n = n'"
  using assms by (auto simp: net_inv_def distinct_map inj_on_def)

lemma active_known:
  assumes "net_inv N" "n \<in> set (nw_nodes N)" "up n" "m \<in> ran (active_map (nd_agent n))"
  shows "\<exists>n' \<in> set (nw_nodes N). n' \<noteq> n \<and> pid_of n' = mi_pid m \<and> mi_locator m = ag_locator (nd_agent n') \<and> mi_host m = host_of n' \<and>
    mi_remote m \<in> set (ag_endpoints (nd_agent n')) \<and> mi_local m \<in> set (ag_endpoints (nd_agent n)) \<and>
    match_pair (mi_pid m) (mi_locator m) (mi_local m) (mi_remote m) = Some (m\<lparr>mi_host := []\<rparr>)"
proof -
  from assms have n: "agent_inv (nd_agent n)" "believes (peer_of N) (sound_of N) (nd_agent n)"
    by (auto simp: net_inv_def node_ok_def node_inv_def)
  from assms(4) obtain k where k: "(k, m) \<in> set (ag_active (nd_agent n))" by (auto simp: ran_def active_map_def dest: map_of_SomeD)
  with n have "sound_of N m" "match_known (nd_agent n) k m" by (auto simp: believes_def agent_inv_def agent_ok_def)
  moreover from this n(1) have "mi_pid m \<noteq> pid_of n" unfolding match_known_def agent_inv_def pid_of_def by metis
  ultimately show ?thesis by (fastforce simp: sound_of_def match_known_def)
qed

section \<open>Both ends of a channel\<close>

lemma tracked_no_shm:
  assumes "tracks w S" "\<And>m. \<not> use_shm (pl_dp w) m"
  shows "dp_shm_pub (pl_dp w) = []" "\<exists>rm. dp_readers (pl_dp w) = Some rm \<and> rm_readers rm = []"
proof -
  have none: "tally (\<lambda>m. wants_writer (pl_dp w) m \<and> P m) S = 0" "tally (\<lambda>m. wants_reader (pl_dp w) m \<and> P m) S = 0" for P
    using assms(2) by (simp_all add: tally_def wants_writer_def wants_reader_def)
  show "dp_shm_pub (pl_dp w) = []"
    using assms(1) by (simp add: tracks_def writer_tracks_def none count_opt_def) (metis map_of_eq_empty_iff ext)
  show "\<exists>rm. dp_readers (pl_dp w) = Some rm \<and> rm_readers rm = []"
    using assms(1) by (simp add: tracks_def reader_tracks_def none count_opt_def) (metis map_of_eq_empty_iff ext)
qed

lemma node_tracks:
  assumes "net_inv N" "n \<in> set (nw_nodes N)" "up n"
  shows "tracks (nd_plane n) (ran (active_map (nd_agent n)))" "finite (ran (active_map (nd_agent n)))"
  using assms by (auto simp: net_inv_def node_ok_def node_inv_def active_finite)

text \<open>What a match says of the node at the other end.\<close>

lemma match_at:
  assumes "net_inv N" "A \<in> set (nw_nodes N)" "up A" "B \<in> set (nw_nodes N)" "m \<in> ran (active_map (nd_agent A))" "mi_pid m = pid_of B"
  shows "mi_host m = host_of B" "mi_remote m \<in> set (ag_endpoints (nd_agent B))" "mi_local m \<in> set (ag_endpoints (nd_agent A))"
    "ep_topic (mi_remote m) = topic_of m" "ep_type (mi_remote m) = ep_type (mi_local m)" "A \<noteq> B"
proof -
  obtain n' where n': "n' \<in> set (nw_nodes N)" "n' \<noteq> A" "pid_of n' = mi_pid m" "mi_host m = host_of n'"
    "mi_remote m \<in> set (ag_endpoints (nd_agent n'))" and l: "mi_local m \<in> set (ag_endpoints (nd_agent A))"
    and p: "match_pair (mi_pid m) (mi_locator m) (mi_local m) (mi_remote m) = Some (m\<lparr>mi_host := []\<rparr>)"
    using active_known [OF assms(1-3,5)] by blast
  have "n' = B" using node_of_pid [OF assms(1) n'(1) assms(4)] n'(3) assms(6) by simp
  with n' l show "mi_host m = host_of B" "mi_remote m \<in> set (ag_endpoints (nd_agent B))" "mi_local m \<in> set (ag_endpoints (nd_agent A))" "A \<noteq> B"
    by simp_all
  from p show "ep_topic (mi_remote m) = topic_of m" "ep_type (mi_remote m) = ep_type (mi_local m)" by (auto simp: match_pair_Some)
qed

section \<open>From a publisher to a subscriber of another node\<close>

text \<open>What the sink \<open>r\<close> hands to its connection while messages are published, and what arriving payloads do.\<close>

definition sink_sends :: "(string \<times> bytes \<Rightarrow> bytes option) \<Rightarrow> remote_sink \<Rightarrow> (sink_id \<times> bytes) list \<Rightarrow> bytes list" where
  "sink_sends env_ser r ds =
     List.map_filter (\<lambda>(t, bs). if t = rs_id r then map_option snd (remote_sink_enqueue env_ser r bs) else None) ds"

fun publish_sends :: "('m \<Rightarrow> bytes option) \<Rightarrow> (string \<times> bytes \<Rightarrow> bytes option) \<Rightarrow> (sink_id \<Rightarrow> bool) \<Rightarrow> publisher \<Rightarrow> remote_sink \<Rightarrow>
    'm list \<Rightarrow> local_bus \<Rightarrow> bytes list" where
  "publish_sends ser env_ser alive p r [] bus = []"
| "publish_sends ser env_ser alive p r (m # ms) bus =
     (let (ok, ds, bus) = publish ser alive p m bus in sink_sends env_ser r ds @ publish_sends ser env_ser alive p r ms bus)"

fun inbound_all :: "(bytes \<Rightarrow> (string \<times> bytes) option) \<Rightarrow> (sink_id \<Rightarrow> bool) \<Rightarrow> bytes list \<Rightarrow>
    local_bus \<times> (sink_id \<Rightarrow> 'm subscriber) \<Rightarrow> local_bus \<times> (sink_id \<Rightarrow> 'm subscriber)" where
  "inbound_all env_parse alive [] (bus, subs) = (bus, subs)"
| "inbound_all env_parse alive (b # bs) (bus, subs) =
     (let (ds, bus) = on_inbound env_parse alive b bus in inbound_all env_parse alive bs (bus, enqueue_all ds subs))"

lemma count_list_distinct: "distinct xs \<Longrightarrow> x \<in> set xs \<Longrightarrow> count_list xs x = 1"
  by (induction xs) (auto simp: count_list_0_iff)

lemma map_filter_once:
  "count_list ts i = 1 \<Longrightarrow> List.map_filter (\<lambda>t. if t = i then Some x else None) ts = [x]"
  "count_list ts i = 0 \<Longrightarrow> List.map_filter (\<lambda>t. if t = i then Some x else None) ts = []"
proof -
  show z: "count_list ts i = 0 \<Longrightarrow> List.map_filter (\<lambda>t. if t = i then Some x else None) ts = []" for ts
    by (induction ts) (simp_all add: List.map_filter_simps split: if_splits)
  show "count_list ts i = 1 \<Longrightarrow> List.map_filter (\<lambda>t. if t = i then Some x else None) ts = [x]"
    by (induction ts) (simp_all add: List.map_filter_simps z split: if_splits)
qed

lemma sink_sends_once:
  assumes "count_list ts (rs_id r) = 1" "env_ser (rs_topic r, bs) = Some out"
  shows "sink_sends env_ser r (map (\<lambda>t. (t, bs)) ts) = [out]"
proof -
  have "sink_sends env_ser r (map (\<lambda>t. (t, bs)) ts) = List.map_filter (\<lambda>t. if t = rs_id r then Some out else None) ts"
    by (induction ts) (simp_all add: sink_sends_def List.map_filter_simps remote_sink_enqueue_def assms(2))
  with map_filter_once(1) [OF assms(1)] show ?thesis by simp
qed

lemma publish_sends_all:
  assumes "bus (pub_topic p) = Some e" "te_type e = pub_type p" "alive (rs_id r)"
    and "count_list (te_sinks e @ te_remote_sinks e) (rs_id r) = 1"
    and "\<forall>m \<in> set ms. ser m = Some (enc m) \<and> env_ser (rs_topic r, enc m) = Some (out m)"
  shows "publish_sends ser env_ser alive p r ms bus = map out ms"
  using assms
proof (induction ms arbitrary: bus e)
  case (Cons m ms)
  let ?p = "bus_publish alive bus (pub_topic p) (pub_type p)"
  have t: "fst ?p = filter alive (te_sinks e) @ filter alive (te_remote_sinks e)"
    using Cons.prems(1,2) by (intro bus_publish_targets) auto
  have "sink_sends env_ser r (map (\<lambda>t. (t, enc m)) (fst ?p)) = [out m]"
    using Cons.prems(3-5) by (intro sink_sends_once) (simp_all add: t count_filter_alive)
  moreover obtain e' where "snd ?p (pub_topic p) = Some e'" "te_type e' = pub_type p"
    "te_sinks e' = filter alive (te_sinks e)" "te_remote_sinks e' = filter alive (te_remote_sinks e)"
    using bus_publish_targets(2) [of bus "pub_topic p" e "pub_type p" alive] Cons.prems(1,2) by auto
  then have "publish_sends ser env_ser alive p r ms (snd ?p) = map out ms"
    using Cons.prems by (intro Cons.IH [of _ e']) (simp_all add: count_filter_alive)
  ultimately show ?case using Cons.prems(5) by (simp add: publish_def split_beta)
qed simp

lemma inbound_all_queue:
  assumes "bus t = Some e" "alive s" "count_list (te_sinks e) s = 1"
    and "\<not> bq_closed (sub_queue (subs s))" "bq_capacity (sub_queue (subs s)) = 0"
    and "\<forall>m \<in> set ms. env_parse (out m) = Some (t, enc m)"
  shows "snd (inbound_all env_parse alive (map out ms) (bus, subs)) s =
    (subs s)\<lparr>sub_queue := (sub_queue (subs s))\<lparr>bq_queue := bq_queue (sub_queue (subs s)) @ map enc ms\<rparr>\<rparr>"
  using assms
proof (induction ms arbitrary: bus subs e)
  case (Cons m ms)
  define ds where "ds = map (\<lambda>t. (t, enc m)) (filter alive (te_sinks e))"
  let ?bus = "bus(t \<mapsto> e\<lparr>te_sinks := filter alive (te_sinks e)\<rparr>)"
  have o: "on_inbound env_parse alive (out m) bus = (ds, ?bus)"
    using Cons.prems(1,6) by (simp add: on_inbound_def deliver_inbound_def ds_def)
  have q: "enqueue_all ds subs s =
    (subs s)\<lparr>sub_queue := (sub_queue (subs s))\<lparr>bq_queue := bq_queue (sub_queue (subs s)) @ [enc m]\<rparr>\<rparr>"
    using Cons.prems(2-5) by (simp add: ds_def enqueue_all_at count_filter_alive sub_enqueue_open)
  have "snd (inbound_all env_parse alive (map out ms) (?bus, enqueue_all ds subs)) s =
    (enqueue_all ds subs s)\<lparr>sub_queue := (sub_queue (enqueue_all ds subs s))\<lparr>bq_queue := bq_queue (sub_queue (enqueue_all ds subs s)) @ map enc ms\<rparr>\<rparr>"
    by (rule Cons.IH [where e = "e\<lparr>te_sinks := filter alive (te_sinks e)\<rparr>"]) (use Cons.prems q in \<open>simp_all add: count_filter_alive\<close>)
  with o q show ?case by simp
qed simp

lemma callbacks_drain:
  assumes "subs' s = (new_subscriber t q)\<lparr>sub_queue := (sub_queue (new_subscriber t q))\<lparr>bq_queue := map enc xs\<rparr>\<rparr>"
    and "\<forall>x \<in> set xs. parse (enc x) = Some x"
  shows "sub_calls (snd (sub_run parse (subs' s))) = xs"
  using assms(1) by (simp add: sub_run_drains new_subscriber_def map_filter_inverse assms(2))

section \<open>Properties\<close>


lemma tcp_route:
  assumes "net_inv N" "A \<in> set (nw_nodes N)" "up A" "B \<in> set (nw_nodes N)" "up B"
    and "m \<in> ran (active_map (nd_agent A))" "wants_tcp (pl_dp (nd_plane A)) m" "mi_pid m = pid_of B"
  shows "\<exists>r. dp_sinks (pl_dp (nd_plane A)) (match_key m) = Some r \<and> rs_topic r = topic_of m \<and>
    rs_id r \<in> set (te_remote_sinks (entry_at (pl_bus (nd_plane A)) (topic_of m))) \<and>
    ConnStart (rs_conn r) ''127.0.0.1'' (port_of B) \<in> set (pl_calls (nd_plane A)) \<and>
    ConnStop (rs_conn r) \<notin> set (pl_calls (nd_plane A))"
proof -
  from assms(1-3) have A: "tracks (nd_plane A) (ran (active_map (nd_agent A)))" "conns_ok (lives_at N) (nd_plane A)"
    by (auto simp: net_inv_def node_ok_def node_inv_def)
  obtain r where r: "dp_sinks (pl_dp (nd_plane A)) (match_key m) = Some r" "rs_topic r = topic_of m"
    "rs_id r \<in> set (te_remote_sinks (entry_at (pl_bus (nd_plane A)) (topic_of m)))"
    "sm_find (dp_connections (pl_dp (nd_plane A))) (mi_pid m) = Some (rs_conn r)"
    using tracked_tcp [OF A(1) assms(6,7)] by blast
  from A(2) r(4) obtain l where l: "lives_at N (mi_pid m) l"
    "ConnStart (rs_conn r) (loc_ip l) (ucast (loc_port l)) \<in> set (pl_calls (nd_plane A))" "ConnStop (rs_conn r) \<notin> set (pl_calls (nd_plane A))"
    unfolding conns_ok_def by meson
  from l(1) node_of_pid [OF assms(1) _ assms(4)] assms(8) have "l = ag_locator (nd_agent B)" by (auto simp: lives_at_def)
  moreover have "ag_locator (nd_agent B) = \<lparr>loc_ip = ''127.0.0.1'', loc_port = ucast (port_of B)\<rparr>"
    using assms(1,4,5) by (simp add: net_inv_def node_ok_def)
  moreover have "ucast (ucast (port_of B) :: u32) = port_of B" by (simp add: ucast_up_ucast_id is_up)
  ultimately show ?thesis using r l(2,3) by auto
qed

lemma registered_once:
  assumes "net_inv N" "n \<in> set (nw_nodes N)" "up n" "s \<in> set (te_sinks (entry_at (pl_bus (nd_plane n)) t) @ te_remote_sinks (entry_at (pl_bus (nd_plane n)) t))"
  shows "\<exists>e. pl_bus (nd_plane n) t = Some e \<and> entry_at (pl_bus (nd_plane n)) t = e \<and> count_list (te_sinks e @ te_remote_sinks e) s = 1"
    "s \<in> set (te_sinks (entry_at (pl_bus (nd_plane n)) t)) \<Longrightarrow> \<exists>e. pl_bus (nd_plane n) t = Some e \<and> count_list (te_sinks e) s = 1"
proof -
  let ?e = "entry_at (pl_bus (nd_plane n)) t"
  have d: "distinct (te_sinks ?e @ te_remote_sinks ?e)"
    using assms(1-3) by (auto simp: net_inv_def node_ok_def bus_inv_def sinks_ok_def entry_ok_def)
  then have "count_list (te_sinks ?e @ te_remote_sinks ?e) s = 1" using assms(4) by (rule count_list_distinct)
  with assms(4) show "\<exists>e. pl_bus (nd_plane n) t = Some e \<and> entry_at (pl_bus (nd_plane n)) t = e \<and> count_list (te_sinks e @ te_remote_sinks e) s = 1"
    by (auto simp: entry_at_def new_entry_def split: option.splits)
  show "\<exists>e. pl_bus (nd_plane n) t = Some e \<and> count_list (te_sinks e) s = 1" if "s \<in> set (te_sinks ?e)"
    using count_list_distinct [of "te_sinks ?e" s] d that by (auto simp: entry_at_def new_entry_def split: option.splits)
qed


text \<open>Two nodes on one host; the first publishes on a topic to which the second subscribes.\<close>

definition no_shm :: shm_table where
  "no_shm = \<lparr>st_names = (\<lambda>_. None), st_objects = (\<lambda>_. \<lparr>so_size = 0, so_ring = None\<rparr>), st_next = 0\<rparr>"

lemma reach_no_shm: "reachable old (empty_network (\<lambda>_. no_shm))"
  by (rule reach_empty) (simp add: table_ok_def no_shm_def)

definition env_at :: "u64 \<Rightarrow> u16 \<Rightarrow> node_env" where
  "env_at p port = \<lparr>ne_listening = Some port, ne_pid = p, ne_host = ''h'', ne_shm = no_shm, ne_multicast = (\<lambda>g p. True)\<rparr>"

definition meeting :: "bool \<Rightarrow> bool \<Rightarrow> net_event list" where
  "meeting shm shm' = [Join ''a'' (options_with_shm shm) (env_at 1 4001), Join ''b'' (options_with_shm shm') (env_at 2 4002),
     Act 0 (CreatePublisher ''x'' ''T'' default_qos), Act 1 (CreateSubscriber ''x'' ''T'' default_qos),
     Say 0, Hear 1 10 0, Say 1, Hear 0 10 1]"

definition met :: "bool \<Rightarrow> bool \<Rightarrow> unit network option" where
  "met shm shm' = net_run (\<lambda>i j. CHR ''x'') (meeting shm shm') (empty_network (\<lambda>_. no_shm))"

lemmas net_eval = meeting_def empty_network_def env_at_def options_with_shm_def default_options_def make_node_def up_def pid_of_def
  host_of_def port_of_def node_at_def put_node_def with_shm_def announce_def node_create_publisher_def node_create_subscriber_def
  register_def add_entity_def set_bus_def fresh_sink_def create_publisher_def register_publisher_def subscribe_def check_type_def
  entry_at_def new_entry_def agent_start_def default_qos_def x_defs plane_defs handle_match_def tcp_pub_match_def connection_for_def
  add_remote_sink_def server_port_def

definition match_ab :: match_info where
  "match_ab = \<lparr>mi_local = pub_x, mi_remote = sub_x, mi_locator = \<lparr>loc_ip = ''127.0.0.1'', loc_port = 4002\<rparr>, mi_pid = 2, mi_host = ''h''\<rparr>"

lemma met_reachable: "met shm shm' = Some N \<Longrightarrow> reachable (\<lambda>i j. CHR ''x'') N"
  unfolding met_def by (rule net_run_reachable [OF reach_no_shm])

definition sink_ab :: remote_sink where
  "sink_ab = \<lparr>rs_id = 0, rs_topic = ''x'', rs_conn = 0\<rparr>"

lemma met_tcp:
  "\<exists>N A B. met False False = Some N \<and> nw_nodes N = [A, B] \<and> up A \<and> up B \<and> active_map (nd_agent A) (match_key match_ab) = Some match_ab \<and>
     wants_tcp (pl_dp (nd_plane A)) match_ab \<and> pid_of A = 1 \<and> pid_of B = 2 \<and> port_of B = 4002 \<and>
     dp_sinks (pl_dp (nd_plane A)) (match_key match_ab) = Some sink_ab \<and>
     pl_bus (nd_plane A) ''x'' = Some \<lparr>te_type = ''T'', te_sinks = [], te_remote_sinks = [0]\<rparr> \<and>
     0 \<in> set (te_sinks (entry_at (pl_bus (nd_plane B)) ''x'')) \<and>
     ag_endpoints (nd_agent A) = [pub_x] \<and> ag_endpoints (nd_agent B) = [sub_x]"
  by (simp add: met_def net_eval match_ab_def sink_ab_def active_map_def wants_tcp_def)



section \<open>Types across the network\<close>

text \<open>The publishers and subscribers of a topic on a node have one type.\<close>

definition one_type :: "'r node \<Rightarrow> string \<Rightarrow> bool" where
  "one_type n t \<longleftrightarrow> (\<forall>e \<in> set (ag_endpoints (nd_agent n)). \<forall>e' \<in> set (ag_endpoints (nd_agent n)).
     ep_kind e \<in> {PUBLISHER, SUBSCRIBER} \<and> ep_kind e' \<in> {PUBLISHER, SUBSCRIBER} \<and> ep_topic e = t \<and> ep_topic e' = t \<longrightarrow> ep_type e = ep_type e')"

text \<open>
  C16: Types are respected across the network, if each node uses one type per topic: in every reachable network, when a publisher of
  node \<open>A\<close> with type \<open>ty\<close> publishes on a topic on which \<open>A\<close> has a match with node \<open>B\<close>, the subscribers of the topic on the bus of \<open>B\<close> have
  type \<open>ty\<close>, although \<open>B\<close> does not check inbound data.
\<close>

theorem network_type_safe:
  assumes "reachable old N" "A \<in> set (nw_nodes N)" "up A" "B \<in> set (nw_nodes N)" "up B"
    and "m \<in> ran (active_map (nd_agent A))" "mi_pid m = pid_of B" "pubsub_pair (mi_local m) (mi_remote m)" "ep_kind (mi_local m) = PUBLISHER"
    and "e \<in> set (ag_endpoints (nd_agent A))" "ep_kind e = PUBLISHER" "ep_topic e = topic_of m"
    and "one_type A (topic_of m)" "one_type B (topic_of m)" "te_sinks (entry_at (pl_bus (nd_plane B)) (topic_of m)) \<noteq> []"
  shows "te_type (entry_at (pl_bus (nd_plane B)) (topic_of m)) = ep_type e"
proof -
  note inv = reachable_inv [OF assms(1)]
  note a = match_at [OF inv assms(2,3,4,6,7)]
  have "typed_bus (set (ag_endpoints (nd_agent B))) (pl_bus (nd_plane B))" using inv assms(4,5) by (simp add: net_inv_def node_ok_def bus_inv_def)
  with assms(15) obtain e' where e': "e' \<in> set (ag_endpoints (nd_agent B))" "ep_kind e' = SUBSCRIBER" "ep_topic e' = topic_of m"
    "ep_type e' = te_type (entry_at (pl_bus (nd_plane B)) (topic_of m))" unfolding typed_bus_def by blast
  have "ep_kind (mi_remote m) = SUBSCRIBER" using assms(8,9) by (auto simp: pubsub_pair_def)
  with e' a(2,4) assms(14) have "ep_type e' = ep_type (mi_remote m)" unfolding one_type_def by blast
  moreover have "ep_type (mi_local m) = ep_type e" using a(3) assms(9-13) unfolding one_type_def by blast
  ultimately show ?thesis using e'(4) a(5) by simp
qed

theorem network_type_safe_witness:
  "\<exists>N A B. met False False = Some N \<and> nw_nodes N = [A, B] \<and> te_type (entry_at (pl_bus (nd_plane B)) ''x'') = ''T''"
proof -
  obtain N A B where N: "met False False = Some N" "nw_nodes N = [A, B]" "up A" "up B" "active_map (nd_agent A) (match_key match_ab) = Some match_ab"
    "pid_of A = 1" "pid_of B = 2" "ag_endpoints (nd_agent A) = [pub_x]" "ag_endpoints (nd_agent B) = [sub_x]"
    and s: "0 \<in> set (te_sinks (entry_at (pl_bus (nd_plane B)) ''x''))"
    using met_tcp by blast
  from s have "te_sinks (entry_at (pl_bus (nd_plane B)) ''x'') \<noteq> []" by auto
  with network_type_safe [OF met_reachable [OF N(1)], of A B match_ab pub_x] N ranI [of "active_map (nd_agent A)", OF N(5)]
  show ?thesis by (simp add: match_ab_def pubsub_pair_def one_type_def pub_x_def sub_x_def)
qed

text \<open>A node whose second subscriber of a topic has another type than its first.\<close>

definition refused :: "net_event list" where
  "refused = [Join ''a'' (options_with_shm False) (env_at 1 4001), Join ''b'' (options_with_shm False) (env_at 2 4002),
     Act 0 (CreatePublisher ''x'' ''T'' default_qos), Act 1 (CreateSubscriber ''x'' ''U'' default_qos),
     Act 1 (CreateSubscriber ''x'' ''T'' default_qos), Say 1, Hear 0 10 0]"


section \<open>Meeting\<close>

lemma active_key:
  assumes "agent_inv a" "match_key m0 \<in> active_keys a" "ep_topic (mi_local m0) = ep_topic (mi_remote m0)"
  shows "\<exists>m \<in> ran (active_map a). mi_pid m = mi_pid m0 \<and> topic_of m = topic_of m0 \<and> ep_kind (mi_local m) = ep_kind (mi_local m0) \<and>
    ep_kind (mi_remote m) = ep_kind (mi_remote m0)"
proof -
  from assms(2) obtain m where m: "(match_key m0, m) \<in> set (ag_active a)" by (auto simp: active_keys_def)
  with assms(1) have ok: "match_known a (match_key m0) m" "sm_ok (ag_active a)" by (auto simp: agent_inv_def agent_ok_def)
  then have "match_key m = match_key m0" "topic_of m = ep_topic (mi_remote m)" by (auto simp: match_known_def match_pair_Some)
  from match_key_inject [OF this assms(3)] have e: "ep_kind (mi_local m) = ep_kind (mi_local m0)" "ep_kind (mi_remote m) = ep_kind (mi_remote m0)"
    "topic_of m = topic_of m0" "mi_pid m = mi_pid m0" .
  have "active_map a (match_key m0) = Some m" using m sm_find_iff [OF ok(2)] by (simp add: active_map_def)
  then have "m \<in> ran (active_map a)" by (rule ranI)
  with e show ?thesis by blast
qed

lemma hear_connects:
  assumes "net_inv N" "allowed (Hear i now k) N" "ag_running (nd_agent (nw_nodes N ! i))" "an_pid (nw_air N ! k) \<noteq> pid_of (nw_nodes N ! i)"
    and "le \<in> set (ag_endpoints (nd_agent (nw_nodes N ! i)))" "re \<in> set (an_endpoints (nw_air N ! k))"
    and "match_pair (an_pid (nw_air N ! k)) (an_locator (nw_air N ! k)) le re = Some m0"
  shows "\<exists>n'. net_step old (Hear i now k) N = Some (put_node i n' N) \<and> net_inv (put_node i n' N) \<and> same_place (nw_nodes N ! i) n' \<and> up n' \<and>
    ag_running (nd_agent n') \<and>
    (\<exists>m \<in> ran (active_map (nd_agent n')). mi_pid m = an_pid (nw_air N ! k) \<and> topic_of m = ep_topic le \<and> ep_kind (mi_local m) = ep_kind le \<and>
       ep_kind (mi_remote m) = ep_kind re)"
proof -
  let ?op = "Discovery (Announced now (nw_air N ! k))" and ?n = "node_at N i"
  have ok: "node_ok N ?n" "up ?n" using assms(1,2) by (simp_all add: net_inv_def node_at_def node_ok_def)
  then have "node_inv ?n" by (simp add: node_ok_def)
  then obtain n' where n': "node_step old ?op ?n = Some n'" "node_inv n'" using node_step_inv by blast
  have s: "net_step old (Hear i now k) N = Some (put_node i n' N)" using n'(1) by simp
  then have "net_inv (put_node i n' N)" using net_step_inv [OF assms(1,2), of old] by (metis option.inject)
  note i = this
  have p: "same_place (nw_nodes N ! i) n'" using node_step_place(1) [OF n'(1)] by (simp add: node_at_def same_place_def)
  have "nd_agent n' = snd (handle_announcement now (nw_air N ! k) (nd_agent ?n))"
    using n'(1) assms(3) by (auto simp: node_at_def split: prod.splits option.splits)
  then have h: "handle_announcement now (nw_air N ! k) (nd_agent ?n) = (fst (handle_announcement now (nw_air N ! k) (nd_agent ?n)), nd_agent n')" by simp
  have "agent_ok (nd_agent ?n)" using \<open>node_inv ?n\<close> by (simp add: node_inv_def agent_inv_def)
  from handle_announcement_spec(4,6) [OF h this] assms(3-7)
  have "ag_running (nd_agent n')"
    "match_key ` set (match_endpoints (ag_endpoints (nd_agent ?n)) (an_pid (nw_air N ! k)) (an_locator (nw_air N ! k)) (an_endpoints (nw_air N ! k)))
       \<subseteq> active_keys (nd_agent n')" by (auto simp: node_at_def pid_of_def)
  moreover have "m0 \<in> set (match_endpoints (ag_endpoints (nd_agent ?n)) (an_pid (nw_air N ! k)) (an_locator (nw_air N ! k)) (an_endpoints (nw_air N ! k)))"
    using assms(5-7) by (auto simp: node_at_def set_match_endpoints)
  ultimately have r: "ag_running (nd_agent n')" "match_key m0 \<in> active_keys (nd_agent n')" by blast+
  moreover have "mi_pid m0 = an_pid (nw_air N ! k)" "mi_local m0 = le" "mi_remote m0 = re" "topic_of m0 = ep_topic (mi_remote m0)"
    using assms(7) by (auto simp: match_pair_Some)
  ultimately have "\<exists>m \<in> ran (active_map (nd_agent n')). mi_pid m = an_pid (nw_air N ! k) \<and> topic_of m = ep_topic le \<and>
      ep_kind (mi_local m) = ep_kind le \<and> ep_kind (mi_remote m) = ep_kind re"
    using active_key [of "nd_agent n'" m0] n'(2) r(2) by (auto simp: node_inv_def)
  with s i p r(1) node_inv_up [OF n'(2)] show ?thesis by blast
qed


definition alone :: "unit network option" where
  "alone = net_run (\<lambda>i j. CHR ''x'') (take 4 (meeting True True)) (empty_network (\<lambda>_. no_shm))"



end
