(* ===== verification/Network_Rpc.thy ===== *)
theory Network_Rpc
  imports Network
begin

text \<open>
  A remote procedure call between two nodes of a network: \<open>Client::call\<close> publishes the request, the sink of the match sends it over the connection to
  the node of the service, whose worker calls the handler and publishes the reply, and the way back. The steps are
  those of \<open>Rpc\<close>, \<open>Data_Plane\<close>, \<open>Tcp_Client\<close> and \<open>Tcp_Server\<close>, put together; matches, sinks and ports come from the network.
\<close>

section \<open>One connection\<close>

text \<open>
  A connection to \<open>port\<close> hands over \<open>got\<close> for \<open>sent\<close>: some client was started, has accepted \<open>sent\<close> after other payloads and written all its
  bytes, in any interleaving of its threads; the server has read these bytes in any chunks, between events of other connections; \<open>got\<close> is what its callback
  was given after as many payloads as were sent before.
\<close>

definition carries :: "u16 \<Rightarrow> bytes list \<Rightarrow> bytes list \<Rightarrow> bool" where
  "carries port sent got \<longleftrightarrow>
     (\<exists>env ops prior c0 c sv fd es. c0 = started_client ''127.0.0.1'' port env \<and> c = client_steps c0 ops \<and> accepted c0 ops = prior @ sent \<and>
        (\<forall>m \<in> set prior. length m \<le> MAX_PAYLOAD_SIZE) \<and> cl_write_buffer c = [] \<and>
        sv_buffers sv fd = Some [] \<and> sv_callback sv \<and> stays_open sv fd es \<and> concat (reads_on fd es) = cl_sent c \<and>
        got = drop (length prior) (delivered_on fd (snd (server_events sv es))))"

lemma carries_same:
  assumes "carries port sent got" "\<forall>m \<in> set sent. length m \<le> MAX_PAYLOAD_SIZE"
  shows "got = sent"
proof -
  from assms(1) obtain env ops prior c0 c sv fd es where c: "c0 = started_client ''127.0.0.1'' port env" "c = client_steps c0 ops"
    "accepted c0 ops = prior @ sent" "\<forall>m \<in> set prior. length m \<le> MAX_PAYLOAD_SIZE" "cl_write_buffer c = []"
    "sv_buffers sv fd = Some []" "sv_callback sv" "stays_open sv fd es" "concat (reads_on fd es) = cl_sent c"
    "got = drop (length prior) (delivered_on fd (snd (server_events sv es)))"
    unfolding carries_def by blast
  have "\<forall>m \<in> set (accepted c0 ops). length m \<le> MAX_PAYLOAD_SIZE" using c(3,4) assms(2) by auto
  from stream_arrives [OF this [unfolded c(1)] c(5) [unfolded c(1,2)] c(6-8) c(9) [unfolded c(1,2)]]
  show ?thesis using c(1,3,10) by simp
qed

text \<open>Such a connection is possible: one that is used for a single payload.\<close>

lemma carries_one:
  assumes "length x \<le> MAX_PAYLOAD_SIZE"
  shows "carries port [x] [x]"
proof -
  let ?c0 = "started_client ''127.0.0.1'' port env_example" and ?ops = "[OpConnectComplete 0, OpSend x, OpWritable (\<lambda>_. Wrote (length (encode x)))]"
  let ?sv = "(new_server 0)\<lparr>sv_callback := True, sv_buffers := [9 \<mapsto> []]\<rparr>" and ?es = "[read_event 9 [encode x]]"
  have "encode x \<noteq> []" using assms by (simp add: encode_fits write_uint32_be_def)
  then have run: "accepted ?c0 ?ops = [x]" "cl_write_buffer (client_steps ?c0 ?ops) = []" "cl_sent (client_steps ?c0 ?ops) = encode x"
    by (simp_all add: started_client_def client_start_def new_client_def env_example_def client_op_defs client_handle_write_def
        write_loop.simps)
  have sv: "sv_buffers ?sv 9 = Some []" "sv_callback ?sv" "stays_open ?sv 9 ?es" "concat (reads_on 9 ?es) = encode x"
    by (simp_all add: new_server_def read_event_def stays_open_def reads_on_def)
  have "\<forall>m \<in> set (accepted ?c0 ?ops). length m \<le> MAX_PAYLOAD_SIZE" using assms run(1) by simp
  from stream_arrives [OF this run(2) sv(1-3)] run sv(4)
  have d: "delivered_on 9 (snd (server_events ?sv ?es)) = [x]" by simp
  show ?thesis unfolding carries_def
    by (rule exI [of _ env_example], rule exI [of _ ?ops], rule exI [of _ "[]"], rule exI [of _ ?c0], rule exI [of _ "client_steps ?c0 ?ops"],
        rule exI [of _ ?sv], rule exI [of _ 9], rule exI [of _ ?es]) (use run sv d in simp)
qed

section \<open>One hop\<close>

lemma publish_hop:
  assumes "bus (pub_topic p) = Some e" "te_type e = pub_type p" "alive (rs_id r)"
    and "count_list (te_sinks e @ te_remote_sinks e) (rs_id r) = 1"
    and "ser x = Some bs" "env_ser (rs_topic r, bs) = Some out"
  shows "\<exists>ds bus'. publish ser alive p x bus = (True, ds, bus') \<and> sink_sends env_ser r ds = [out] \<and> (\<forall>t. t \<noteq> pub_topic p \<longrightarrow> bus' t = bus t)"
proof -
  let ?p = "bus_publish alive bus (pub_topic p) (pub_type p)"
  have "fst ?p = filter alive (te_sinks e) @ filter alive (te_remote_sinks e)"
    using assms(1,2) by (intro bus_publish_targets) auto
  then have "sink_sends env_ser r (map (\<lambda>t. (t, bs)) (fst ?p)) = [out]"
    using assms(3,4,6) by (intro sink_sends_once) (simp_all add: count_filter_alive)
  moreover have "snd ?p t = bus t" if "t \<noteq> pub_topic p" for t using that by (simp add: bus_publish_def split_beta Let_def split: option.splits)
  ultimately show ?thesis using assms(5) by (simp add: publish_def split_beta)
qed

definition idle :: "'m subscriber \<Rightarrow> bool" where
  "idle s \<longleftrightarrow> bq_queue (sub_queue s) = [] \<and> \<not> bq_closed (sub_queue s)"

lemma sub_next_idle:
  assumes "idle s" "parse bs = Some x"
  shows "fst (sub_next parse (sub_enqueue bs s)) = Some x"
  using assms by (auto simp: idle_def sub_next_def sub_enqueue_def push_def sub_turn_def pop_def Let_def)

lemma inbound_hop:
  assumes "bus t = Some e" "alive s" "count_list (te_sinks e) s = 1" "idle (subs s)" "env_parse out = Some (t, bs)" "parse bs = Some x"
  shows "\<exists>bus' subs'. inbound_all env_parse alive [out] (bus, subs) = (bus', subs') \<and> fst (sub_next parse (subs' s)) = Some x \<and>
    (\<forall>t'. t' \<noteq> t \<longrightarrow> bus' t' = bus t')"
proof -
  let ?ds = "map (\<lambda>t. (t, bs)) (filter alive (te_sinks e))"
  have "on_inbound env_parse alive out bus = (?ds, bus(t \<mapsto> e\<lparr>te_sinks := filter alive (te_sinks e)\<rparr>))"
    using assms(1,5) by (simp add: on_inbound_def deliver_inbound_def)
  moreover have "enqueue_all ?ds subs s = sub_enqueue bs (subs s)"
    using assms(2,3) by (simp add: enqueue_all_at count_filter_alive)
  ultimately show ?thesis using sub_next_idle [where parse = parse, OF assms(4,6)] by simp
qed

text \<open>The sinks of a match and of a subscriber are on the buses once.\<close>

lemma tcp_sink:
  assumes "net_inv N" "A \<in> set (nw_nodes N)" "up A" "B \<in> set (nw_nodes N)" "up B"
    and "m \<in> ran (active_map (nd_agent A))" "wants_tcp (pl_dp (nd_plane A)) m" "mi_pid m = pid_of B"
  obtains r e where "dp_sinks (pl_dp (nd_plane A)) (match_key m) = Some r" "rs_topic r = topic_of m" "node_alive live (nd_plane A) (rs_id r)"
    "ConnStart (rs_conn r) ''127.0.0.1'' (port_of B) \<in> set (pl_calls (nd_plane A))" "ConnStop (rs_conn r) \<notin> set (pl_calls (nd_plane A))"
    "pl_bus (nd_plane A) (topic_of m) = Some e" "entry_at (pl_bus (nd_plane A)) (topic_of m) = e"
    "count_list (te_sinks e @ te_remote_sinks e) (rs_id r) = 1"
proof -
  obtain r where r: "dp_sinks (pl_dp (nd_plane A)) (match_key m) = Some r" "rs_topic r = topic_of m"
    "rs_id r \<in> set (te_remote_sinks (entry_at (pl_bus (nd_plane A)) (topic_of m)))"
    "ConnStart (rs_conn r) ''127.0.0.1'' (port_of B) \<in> set (pl_calls (nd_plane A))" "ConnStop (rs_conn r) \<notin> set (pl_calls (nd_plane A))"
    using tcp_route [OF assms] by blast
  moreover have "node_alive live (nd_plane A) (rs_id r)" using r(1) by (auto simp: node_alive_def dp_alive_def)
  moreover obtain e where "pl_bus (nd_plane A) (topic_of m) = Some e" "entry_at (pl_bus (nd_plane A)) (topic_of m) = e"
    "count_list (te_sinks e @ te_remote_sinks e) (rs_id r) = 1"
    using registered_once [OF assms(1-3), of "rs_id r" "topic_of m"] r(3) by auto
  ultimately show ?thesis using that by blast
qed

section \<open>A call\<close>

text \<open>A client of a service and a service, as their constructors leave them and their operations keep them.\<close>

definition client_of :: "string \<Rightarrow> string \<Rightarrow> 'r client \<Rightarrow> bool" where
  "client_of name cid c \<longleftrightarrow> pub_topic (cl_request_pub c) = rpc_request_topic name \<and> pub_type (cl_request_pub c) = request_type \<and>
     cl_reply_topic c = rpc_reply_topic name cid"

lemma make_client_of: "make_client name cid q s bus = (c, sub, bus') \<Longrightarrow> client_of name cid c"
  by (auto simp: make_client_def create_publisher_def client_of_def Let_def)

lemma call_begin_hop:
  assumes "client_of name cid c" "ser_req codec q = Some pl"
    and "publish (ser_wire_req codec) alive (cl_request_pub c) \<lparr>rq_id = cl_next_request_id c, rq_reply_topic = rpc_reply_topic name cid, rq_payload = pl\<rparr> bus =
      (True, ds, bus')"
  shows "\<exists>c1. call_begin codec alive q c bus = (Some (cl_next_request_id c, length (cl_store c)), ds, c1, bus') \<and>
    sm_find (cl_pending c1) (cl_next_request_id c) = Some (length (cl_store c)) \<and> length (cl_store c1) = Suc (length (cl_store c))"
  using assms by (simp add: call_begin_def client_of_def Let_def map_of_sm_put)

text \<open>The reply to a pending call ends it with the answer.\<close>

lemma reply_ends_call:
  assumes "sm_find (cl_pending c1) i = Some a" "a < length (cl_store c1)" "rp_id rep = i"
  shows "fst (call_return (i, a) (handle_reply codec rep c1)) = parsed_response codec rep"
  using assms by (simp add: handle_reply_def call_return_def erase_pending_def parsed_response_def)

lemma publish_reply_hop:
  assumes "service_pubs_ok sv" "bus t = Some e" "te_type e = reply_type" "alive (rs_id r)"
    and "count_list (te_sinks e @ te_remote_sinks e) (rs_id r) = 1" "rs_topic r = t"
    and "ser_wire_reply codec rep = Some bs" "env_ser (t, bs) = Some out"
  shows "\<exists>ds regs sv' bus'. publish_reply codec alive t rep sv bus = (ds, regs, sv', bus') \<and> sink_sends env_ser r ds = [out]"
proof -
  obtain pub regs sv' bus1 where p: "publisher_for t sv bus = (pub, regs, sv', bus1)" by (metis prod_cases4)
  then have "pub_topic pub = t" "pub_type pub = reply_type" "bus1 t = Some e"
    using assms(1-3) by (auto simp: publisher_for_def service_pubs_ok_def create_publisher_def register_publisher_def check_type_def
        entry_at_def reply_type_def split: option.splits)
  with publish_hop [of bus1 pub e alive r "ser_wire_reply codec" rep bs env_ser out] assms(3-8)
  obtain ds bus' where "publish (ser_wire_reply codec) alive pub rep bus1 = (True, ds, bus')" "sink_sends env_ser r ds = [out]" by auto
  with p show ?thesis by (simp add: publish_reply_def)
qed

text \<open>
  C7: A call to another node is answered. In every reachable network, let the client's node and the service's node have matched each other over TCP, on the request
  topic in one direction and on the reply topic in the other. Then \<open>call\<close> sends its request to the sink of its match, whose connection is
  open to the service's node; whenever the connection has carried it, the service's worker gets the request and sends one reply
  to the sink of the match in the other direction; and whenever that connection has carried it, the client's
  worker gets a reply with which the call returns what the handler's answer to this request amounts to.
\<close>

theorem remote_call_answered:
  assumes "reachable old N" "A \<in> set (nw_nodes N)" "up A" "B \<in> set (nw_nodes N)" "up B"
    and "m \<in> ran (active_map (nd_agent A))" "wants_tcp (pl_dp (nd_plane A)) m" "mi_pid m = pid_of B" "topic_of m = rpc_request_topic name"
    and "m' \<in> ran (active_map (nd_agent B))" "wants_tcp (pl_dp (nd_plane B)) m'" "mi_pid m' = pid_of A" "topic_of m' = rpc_reply_topic name cid"
    and "te_type (entry_at (pl_bus (nd_plane A)) (topic_of m)) = request_type" "te_type (entry_at (pl_bus (nd_plane B)) (topic_of m')) = reply_type"
    and "s \<in> set (te_sinks (entry_at (pl_bus (nd_plane B)) (topic_of m)))" "alive s" "idle (subs s)"
    and "s' \<in> set (te_sinks (entry_at (pl_bus (nd_plane A)) (topic_of m')))" "alive' s'" "idle (subs' s')"
    and "client_of name cid c" "service_pubs_ok sv" "protobuf_ok codec" "ser_req codec q = Some pl"
    and "wr = \<lparr>rq_id = cl_next_request_id c, rq_reply_topic = rpc_reply_topic name cid, rq_payload = pl\<rparr>"
    and "ser_wire_req codec wr = Some b" "env_ser (topic_of m, b) = Some out" "env_parse out = Some (topic_of m, b)" "length out \<le> MAX_PAYLOAD_SIZE"
    and "ser_wire_reply codec (reply_for codec handler wr) = Some b'" "env_ser (topic_of m', b') = Some out'"
      "env_parse out' = Some (topic_of m', b')" "length out' \<le> MAX_PAYLOAD_SIZE"
  shows "\<exists>r r' h ds c1 bus1. call_begin codec (node_alive live (nd_plane A)) q c (pl_bus (nd_plane A)) = (Some h, ds, c1, bus1) \<and>
    dp_sinks (pl_dp (nd_plane A)) (match_key m) = Some r \<and> ConnStart (rs_conn r) ''127.0.0.1'' (port_of B) \<in> set (pl_calls (nd_plane A)) \<and>
    dp_sinks (pl_dp (nd_plane B)) (match_key m') = Some r' \<and> ConnStart (rs_conn r') ''127.0.0.1'' (port_of A) \<in> set (pl_calls (nd_plane B)) \<and>
    sink_sends env_ser r ds = [out] \<and>
    (\<forall>got. carries (port_of B) [out] got \<longrightarrow>
      (\<exists>bus2 subs2 w ds' regs sv' bus3. inbound_all env_parse alive got (pl_bus (nd_plane B), subs) = (bus2, subs2) \<and>
         fst (sub_next (parse_wire_req codec) (subs2 s)) = Some w \<and>
         handle_request codec (node_alive live' (nd_plane B)) handler w sv bus2 = (ds', regs, sv', bus3) \<and>
         sink_sends env_ser r' ds' = [out'] \<and>
         (\<forall>got'. carries (port_of A) [out'] got' \<longrightarrow>
            (\<exists>bus4 subs4 rep. inbound_all env_parse alive' got' (bus1, subs') = (bus4, subs4) \<and>
               fst (sub_next (parse_wire_reply codec) (subs4 s')) = Some rep \<and>
               fst (call_return h (handle_reply codec rep c1)) = rpc_result codec handler q))))"
proof -
  note inv = reachable_inv [OF assms(1)]
  obtain r e where r: "dp_sinks (pl_dp (nd_plane A)) (match_key m) = Some r" "rs_topic r = topic_of m" "node_alive live (nd_plane A) (rs_id r)"
    "ConnStart (rs_conn r) ''127.0.0.1'' (port_of B) \<in> set (pl_calls (nd_plane A))"
    "pl_bus (nd_plane A) (topic_of m) = Some e" "entry_at (pl_bus (nd_plane A)) (topic_of m) = e" "count_list (te_sinks e @ te_remote_sinks e) (rs_id r) = 1"
    using tcp_sink [OF inv assms(2-5,6-8)] by metis
  obtain r' e' where r': "dp_sinks (pl_dp (nd_plane B)) (match_key m') = Some r'" "rs_topic r' = topic_of m'" "node_alive live' (nd_plane B) (rs_id r')"
    "ConnStart (rs_conn r') ''127.0.0.1'' (port_of A) \<in> set (pl_calls (nd_plane B))"
    "pl_bus (nd_plane B) (topic_of m') = Some e'" "entry_at (pl_bus (nd_plane B)) (topic_of m') = e'" "count_list (te_sinks e' @ te_remote_sinks e') (rs_id r') = 1"
    using tcp_sink [OF inv assms(4,5,2,3,10-12)] by metis
  obtain f where f: "pl_bus (nd_plane B) (topic_of m) = Some f" "count_list (te_sinks f) s = 1"
    using registered_once(2) [OF inv assms(4,5), of s "topic_of m"] assms(16) by auto
  obtain f' where f': "pl_bus (nd_plane A) (topic_of m') = Some f'" "count_list (te_sinks f') s' = 1"
    using registered_once(2) [OF inv assms(2,3), of s' "topic_of m'"] assms(19) by auto
  have t: "topic_of m' \<noteq> topic_of m" using assms(9,13) by simp
  have c: "pub_topic (cl_request_pub c) = topic_of m" "pub_type (cl_request_pub c) = request_type" using assms(9,22) by (simp_all add: client_of_def)
  obtain ds bus1 where p: "publish (ser_wire_req codec) (node_alive live (nd_plane A)) (cl_request_pub c) wr (pl_bus (nd_plane A)) = (True, ds, bus1)"
    "sink_sends env_ser r ds = [out]" "bus1 (topic_of m') = Some f'"
    using publish_hop [of "pl_bus (nd_plane A)" "cl_request_pub c" e "node_alive live (nd_plane A)" r "ser_wire_req codec" wr b env_ser out]
      r assms(14,27,28) c t f'(1) by auto
  obtain c1 where c1: "call_begin codec (node_alive live (nd_plane A)) q c (pl_bus (nd_plane A)) = (Some (cl_next_request_id c, length (cl_store c)), ds, c1, bus1)"
    "sm_find (cl_pending c1) (cl_next_request_id c) = Some (length (cl_store c))" "length (cl_store c1) = Suc (length (cl_store c))"
    using call_begin_hop [OF assms(22,25) p(1) [unfolded assms(26)]] by blast
  have pw: "parse_wire_req codec b = Some wr" "parse_wire_reply codec b' = Some (reply_for codec handler wr)"
    using assms(24,27,31) by (auto simp: protobuf_ok_def)
  obtain bus2 subs2 where i: "inbound_all env_parse alive [out] (pl_bus (nd_plane B), subs) = (bus2, subs2)"
    "fst (sub_next (parse_wire_req codec) (subs2 s)) = Some wr" "bus2 (topic_of m') = Some e'"
    using inbound_hop [where parse = "parse_wire_req codec" and bus = "pl_bus (nd_plane B)" and subs = subs and env_parse = env_parse and alive = alive, OF f(1) assms(17) f(2) assms(18,29) pw(1)] t r'(5) by auto
  obtain ds' regs sv' bus3 where h: "handle_request codec (node_alive live' (nd_plane B)) handler wr sv bus2 = (ds', regs, sv', bus3)"
    "sink_sends env_ser r' ds' = [out']"
    using publish_reply_hop [where bus = bus2 and alive = "node_alive live' (nd_plane B)" and env_ser = env_ser and codec = codec,
        OF assms(23) i(3) _ r'(3,7,2) assms(31,32)] assms(13,15,26) r'(6) by (auto simp: handle_request_reply)
  obtain bus4 subs4 where k: "inbound_all env_parse alive' [out'] (bus1, subs') = (bus4, subs4)"
    "fst (sub_next (parse_wire_reply codec) (subs4 s')) = Some (reply_for codec handler wr)"
    using inbound_hop [where parse = "parse_wire_reply codec" and bus = bus1 and subs = subs' and env_parse = env_parse and alive = alive', OF p(3) assms(20) f'(2) assms(21,33) pw(2)] by auto
  have "fst (call_return (cl_next_request_id c, length (cl_store c)) (handle_reply codec (reply_for codec handler wr) c1)) = rpc_result codec handler q"
    using reply_ends_call [OF c1(2), of "reply_for codec handler wr" codec] c1(3) parsed_reply_for [OF assms(24,25), of wr handler] assms(26) by simp
  then have ends: "\<exists>bus4 subs4 rep. inbound_all env_parse alive' got' (bus1, subs') = (bus4, subs4) \<and>
      fst (sub_next (parse_wire_reply codec) (subs4 s')) = Some rep \<and>
      fst (call_return (cl_next_request_id c, length (cl_store c)) (handle_reply codec rep c1)) = rpc_result codec handler q"
    if "carries (port_of A) [out'] got'" for got'
    using carries_same [OF that] assms(34) k by auto
  have "\<exists>bus2 subs2 w ds' regs sv' bus3. inbound_all env_parse alive got (pl_bus (nd_plane B), subs) = (bus2, subs2) \<and>
      fst (sub_next (parse_wire_req codec) (subs2 s)) = Some w \<and>
      handle_request codec (node_alive live' (nd_plane B)) handler w sv bus2 = (ds', regs, sv', bus3) \<and>
      sink_sends env_ser r' ds' = [out'] \<and>
      (\<forall>got'. carries (port_of A) [out'] got' \<longrightarrow>
         (\<exists>bus4 subs4 rep. inbound_all env_parse alive' got' (bus1, subs') = (bus4, subs4) \<and>
            fst (sub_next (parse_wire_reply codec) (subs4 s')) = Some rep \<and>
            fst (call_return (cl_next_request_id c, length (cl_store c)) (handle_reply codec rep c1)) = rpc_result codec handler q))"
    if "carries (port_of B) [out] got" for got
    using carries_same [OF that] assms(30) i(1,2) h ends by auto
  with p(2) c1(1) r(1,4) r'(1,4) show ?thesis by blast
qed

text \<open>
  A client and a service on two nodes, with reliable delivery. They meet; the service has created the publisher for the client's replies (with its first
  reply) and its node has taken up the new endpoint.
\<close>

definition rpc_qos :: qos where
  "rpc_qos = \<lparr>qos_reliability = RELIABLE, qos_history = KEEP_LAST, qos_depth = 16\<rparr>"

definition calling :: "net_event list" where
  "calling = [Join ''a'' default_options (env_at 1 4001), Join ''b'' default_options (env_at 2 4002),
     Act 0 (CreateClient ''echo'' ''Q'' ''R'' rpc_qos), Act 1 (CreateService ''echo'' ''Q'' ''R'' rpc_qos),
     Say 0, Hear 1 10 0, Say 1, Hear 0 10 1, Act 1 (ServiceReplyTopic 0 (rpc_reply_topic ''echo'' ''a-1-0'')), Act 1 (Discovery Rematch)]"

definition talking :: "string network option" where
  "talking = net_run (\<lambda>i j. CHR ''x'') calling (empty_network (\<lambda>_. no_shm))"

lemma echo_topics:
  "rpc_request_topic ''echo'' = ''/_mm/rpc/echo/request''" "rpc_reply_topic ''echo'' ''a-1-0'' = ''/_mm/rpc/echo/reply/a_1_0''"
  "to_string (Suc 0) = ''1''" "to_string 0 = ''0''"
  by code_simp+

definition endpoint_on :: "endpoint_kind \<Rightarrow> string \<Rightarrow> string \<Rightarrow> endpoint_info" where
  "endpoint_on k t ty = \<lparr>ep_kind = k, ep_topic = t, ep_type = ty, ep_reliability = 1, ep_response = []\<rparr>"

definition request_match :: match_info where
  "request_match = \<lparr>mi_local = endpoint_on PUBLISHER (rpc_request_topic ''echo'') request_type, mi_remote = endpoint_on SUBSCRIBER (rpc_request_topic ''echo'') request_type,
     mi_locator = \<lparr>loc_ip = ''127.0.0.1'', loc_port = 4002\<rparr>, mi_pid = 2, mi_host = ''h''\<rparr>"

definition reply_match :: match_info where
  "reply_match = \<lparr>mi_local = endpoint_on PUBLISHER (rpc_reply_topic ''echo'' ''a-1-0'') reply_type,
     mi_remote = endpoint_on SUBSCRIBER (rpc_reply_topic ''echo'' ''a-1-0'') reply_type,
     mi_locator = \<lparr>loc_ip = ''127.0.0.1'', loc_port = 4001\<rparr>, mi_pid = 1, mi_host = ''h''\<rparr>"

definition echo_client :: "string client" where
  "echo_client = fst (make_client ''echo'' ''a-1-0'' rpc_qos 0 (\<lambda>_. None))"

lemmas rpc_eval = talking_def calling_def rpc_qos_def net_eval node_create_client_def node_create_service_def make_client_def make_service_def
  client_id_of_def echo_topics request_type_def reply_type_def publisher_for_def node_registrar_def match_key_def

lemma talking_x:
  "\<exists>N A B sv. talking = Some N \<and> nw_nodes N = [A, B] \<and> up A \<and> up B \<and> pid_of A = 1 \<and> pid_of B = 2 \<and> port_of A = 4001 \<and> port_of B = 4002 \<and>
     active_map (nd_agent A) (match_key request_match) = Some request_match \<and> wants_tcp (pl_dp (nd_plane A)) request_match \<and>
     active_map (nd_agent B) (match_key reply_match) = Some reply_match \<and> wants_tcp (pl_dp (nd_plane B)) reply_match \<and>
     te_type (entry_at (pl_bus (nd_plane A)) (topic_of request_match)) = request_type \<and>
     te_type (entry_at (pl_bus (nd_plane B)) (topic_of reply_match)) = reply_type \<and>
     0 \<in> set (te_sinks (entry_at (pl_bus (nd_plane B)) (topic_of request_match))) \<and>
     0 \<in> set (te_sinks (entry_at (pl_bus (nd_plane A)) (topic_of reply_match))) \<and>
     nd_entities A = [ClientEntity echo_client] \<and> nd_entities B = [ServiceEntity sv] \<and> service_pubs_ok sv"
  by (simp add: rpc_eval request_match_def reply_match_def endpoint_on_def active_map_def wants_tcp_def use_shm_def echo_client_def service_pubs_ok_def)

lemma talking_reachable: "talking = Some N \<Longrightarrow> reachable (\<lambda>i j. CHR ''x'') N"
  unfolding talking_def by (rule net_run_reachable [OF reach_no_shm])

definition field_ser :: "string \<times> bytes \<Rightarrow> bytes option" where
  "field_ser x = Some (put_field (fst x) @ snd x)"

theorem remote_call_answered_witness:
  "\<exists>N A B r r' h ds c1 bus1 bus2 subs2 w ds' regs sv sv' bus3 bus4 subs4 rep. talking = Some N \<and> nw_nodes N = [A, B] \<and>
     nd_entities A = [ClientEntity echo_client] \<and> nd_entities B = [ServiceEntity sv] \<and>
     call_begin field_codec (node_alive (\<lambda>_. True) (nd_plane A)) ''hi'' echo_client (pl_bus (nd_plane A)) = (Some h, ds, c1, bus1) \<and>
     inbound_all get_field (\<lambda>_. True) (sink_sends field_ser r ds) (pl_bus (nd_plane B), \<lambda>_. new_subscriber (rpc_request_topic ''echo'') rpc_qos) = (bus2, subs2) \<and>
     fst (sub_next (parse_wire_req field_codec) (subs2 0)) = Some w \<and>
     handle_request field_codec (node_alive (\<lambda>_. True) (nd_plane B)) shout w sv bus2 = (ds', regs, sv', bus3) \<and>
     inbound_all get_field (\<lambda>_. True) (sink_sends field_ser r' ds') (bus1, \<lambda>_. new_subscriber (rpc_reply_topic ''echo'' ''a-1-0'') rpc_qos) = (bus4, subs4) \<and>
     fst (sub_next (parse_wire_reply field_codec) (subs4 0)) = Some rep \<and>
     fst (call_return h (handle_reply field_codec rep c1)) = rpc_result field_codec shout ''hi''"
proof -
  obtain N A B sv where N: "talking = Some N" "nw_nodes N = [A, B]" "up A" "up B" "pid_of A = 1" "pid_of B = 2" "port_of A = 4001" "port_of B = 4002"
    "active_map (nd_agent A) (match_key request_match) = Some request_match" "wants_tcp (pl_dp (nd_plane A)) request_match"
    "active_map (nd_agent B) (match_key reply_match) = Some reply_match" "wants_tcp (pl_dp (nd_plane B)) reply_match"
    "te_type (entry_at (pl_bus (nd_plane A)) (topic_of request_match)) = request_type"
    "te_type (entry_at (pl_bus (nd_plane B)) (topic_of reply_match)) = reply_type"
    "0 \<in> set (te_sinks (entry_at (pl_bus (nd_plane B)) (topic_of request_match)))"
    "0 \<in> set (te_sinks (entry_at (pl_bus (nd_plane A)) (topic_of reply_match)))"
    "nd_entities A = [ClientEntity echo_client]" "nd_entities B = [ServiceEntity sv]" "service_pubs_ok sv"
    using talking_x by blast
  define wr where "wr = \<lparr>rq_id = cl_next_request_id echo_client, rq_reply_topic = rpc_reply_topic ''echo'' ''a-1-0'', rq_payload = ''hi''\<rparr>"
  define b where "b = the (ser_wire_req field_codec wr)"
  define b' where "b' = the (ser_wire_reply field_codec (reply_for field_codec shout wr))"
  define out where "out = put_field (topic_of request_match) @ b"
  define out' where "out' = put_field (topic_of reply_match) @ b'"
  have "length out < 100" "length out' < 100"
    unfolding out_def out'_def b_def b'_def wr_def by code_simp+
  then have len: "length out \<le> MAX_PAYLOAD_SIZE" "length out' \<le> MAX_PAYLOAD_SIZE" by (simp_all add: MAX_PAYLOAD_SIZE_def)
  have m: "mi_pid request_match = pid_of B" "mi_pid reply_match = pid_of A" "topic_of request_match = rpc_request_topic ''echo''"
    "topic_of reply_match = rpc_reply_topic ''echo'' ''a-1-0''"
    by (simp_all add: N(5,6) request_match_def reply_match_def endpoint_on_def)
  have id: "idle (new_subscriber t rpc_qos)" for t by (simp add: idle_def new_subscriber_def new_queue_def)
  have c: "client_of ''echo'' ''a-1-0'' echo_client" unfolding echo_client_def by (metis make_client_of prod.collapse)
  have ser: "ser_wire_req field_codec wr = Some b" "ser_wire_reply field_codec (reply_for field_codec shout wr) = Some b'"
    "field_ser (topic_of request_match, b) = Some out" "field_ser (topic_of reply_match, b') = Some out'"
    "get_field out = Some (topic_of request_match, b)" "get_field out' = Some (topic_of reply_match, b')" "ser_req field_codec ''hi'' = Some ''hi''"
    by (simp_all add: b_def b'_def field_codec_def field_ser_def out_def out'_def)
  have AB: "A \<in> set (nw_nodes N)" "B \<in> set (nw_nodes N)" by (simp_all add: N(2))
  from remote_call_answered [where env_ser = field_ser and env_parse = get_field and alive = "\<lambda>_. True" and alive' = "\<lambda>_. True" and live = "\<lambda>_. True"
      and live' = "\<lambda>_. True" and subs = "\<lambda>_. new_subscriber (rpc_request_topic ''echo'') rpc_qos" and subs' = "\<lambda>_. new_subscriber (rpc_reply_topic ''echo'' ''a-1-0'') rpc_qos",
      OF talking_reachable [OF N(1)] AB(1) N(3) AB(2) N(4) ranI [of "active_map (nd_agent A)", OF N(9)] N(10) m(1,3)
        ranI [of "active_map (nd_agent B)", OF N(11)] N(12) m(2,4) N(13-15) TrueI id N(16) TrueI id c N(19) field_codec_ok(1) ser(7) wr_def ser(1,3,5) len(1) ser(2,4,6) len(2)]
  show ?thesis using carries_one [OF len(1), of "port_of B"] carries_one [OF len(2), of "port_of A"] N(1,2,17,18) by metis
qed

end
