(* ===== verification/Network_Shm.thy ===== *)
theory Network_Shm
  imports Network
begin

text \<open>
  Shared memory between the nodes of a network: when both ends of a match choose the same channel, that the segment of a writer is where
  its readers look for it and what it holds, delivery through it, and the histories in which readers are left without data.
\<close>

section \<open>The ring of a new segment\<close>

lemma seg_name_nonempty: "seg_name p t \<noteq> []"
  by (simp add: seg_name_def)

abbreviation fresh_ring :: "(nat \<Rightarrow> nat \<Rightarrow> char) \<Rightarrow> shm_ring" where
  "fresh_ring old \<equiv> ring_init old kShmSlotCount kShmSlotCapacity"

lemma fresh_ring_facts:
  "ring_holds (fresh_ring old) []" "drain ring_read (fresh_ring old) (make_reader (Some (fresh_ring old))) kMaxDrainPerReader =
     Some ([], make_reader (Some (fresh_ring old)))" "\<not> bytes_needed kShmSlotCount kShmSlotCapacity < 24" "ring_attach (fresh_ring old) = Some (fresh_ring old)"
proof -
  show h: "ring_holds (fresh_ring old) []" by (rule ring_init_holds [where k = 5]) (simp_all add: kShmSlotCount_def)
  have "ring_read (fresh_ring old) (make_reader (Some (fresh_ring old))) = Some (None, make_reader (Some (fresh_ring old)))"
    by (rule ring_read_none [OF h]) (simp_all add: make_reader_def ring_init_def)
  moreover obtain k where "kMaxDrainPerReader = Suc k" by (metis kMaxDrainPerReader_def num.exhaust numeral_eq_Suc)
  ultimately show "drain ring_read (fresh_ring old) (make_reader (Some (fresh_ring old))) kMaxDrainPerReader = Some ([], make_reader (Some (fresh_ring old)))"
    unfolding \<open>kMaxDrainPerReader = Suc k\<close>
    by simp
  show "\<not> bytes_needed kShmSlotCount kShmSlotCapacity < 24"
    by (simp add: bytes_needed_def header_bytes_value slot_stride_def align_up_def kCacheLine_def kShmSlotCount_def kShmSlotCapacity_def)
  show "ring_attach (fresh_ring old) = Some (fresh_ring old)" by (simp add: ring_attach_def ring_init_def)
qed

section \<open>Names of segments\<close>

definition sanitised :: "string \<Rightarrow> string" where
  "sanitised t = map (\<lambda>c. if c = CHR ''/'' \<or> c = CHR ''.'' \<or> c = CHR '' '' then CHR ''_'' else c) t"

lemma bar_dot: "\<not> isdigit (CHR ''.'')"
  by (simp add: isdigit_def)

lemma seg_name_inject: "seg_name p t = seg_name p' t' \<longleftrightarrow> p = p' \<and> sanitised t = sanitised t'"
proof
  assume "seg_name p t = seg_name p' t'"
  then have e: "to_string (unat p) @ CHR ''.'' # sanitised t = to_string (unat p') @ CHR ''.'' # sanitised t'"
    by (simp add: seg_name_def sanitised_def)
  have d: "takeWhile isdigit (to_string n @ CHR ''.'' # x) = to_string n" for n x
    using to_string_digits [where n = n] bar_dot by (simp add: takeWhile_append)
  have "to_string (unat p) = to_string (unat p')" using d [of "unat p" "sanitised t"] d [of "unat p'" "sanitised t'"] e by simp
  with e show "p = p' \<and> sanitised t = sanitised t'" by (simp add: word_unat_eq_iff)
qed (simp add: seg_name_def sanitised_def)

section \<open>The table of a host\<close>

text \<open>A segment in use: its name leads to it, and it holds a ring with its messages.\<close>

definition ring_ok :: "shm_object \<Rightarrow> bool" where
  "ring_ok x \<longleftrightarrow> 24 \<le> so_size x \<and> (\<exists>r h. so_ring x = Some r \<and> ring_holds r h \<and> rg_magic r = kMagic \<and>
     rg_slot_count r = kShmSlotCount \<and> rg_slot_size r = kShmSlotCapacity)"

definition in_use :: "shm_table \<Rightarrow> segment \<Rightarrow> bool" where
  "in_use t s \<longleftrightarrow> sg_owner s \<and> st_names t (sg_name s) = Some (sg_object s) \<and> ring_ok (st_objects t (sg_object s))"

text \<open>A change of the table that keeps the segments whose names are not in \<open>X\<close>.\<close>

definition keeps_but :: "string set \<Rightarrow> shm_table \<Rightarrow> shm_table \<Rightarrow> bool" where
  "keeps_but X t t' \<longleftrightarrow> (table_ok t \<longrightarrow> table_ok t' \<and> (\<forall>s. in_use t s \<longrightarrow> sg_name s \<notin> X \<longrightarrow> in_use t' s))"

lemma keeps_but_refl [simp]: "keeps_but X t t"
  by (simp add: keeps_but_def)

lemma keeps_but_trans: "keeps_but X t t' \<Longrightarrow> keeps_but Y t' t'' \<Longrightarrow> keeps_but (X \<union> Y) t t''"
  by (auto simp: keeps_but_def)

lemma keeps_but_mono: "keeps_but X t t' \<Longrightarrow> X \<subseteq> Y \<Longrightarrow> keeps_but Y t t'"
  by (auto simp: keeps_but_def)

lemma fresh_ring_ok: "ring_ok \<lparr>so_size = bytes_needed kShmSlotCount kShmSlotCapacity, so_ring = Some (fresh_ring old)\<rparr>"
  using fresh_ring_facts(1) [of old] fresh_ring_facts(3) by (auto simp: ring_ok_def not_less ring_init_def)

lemma create_table:
  assumes "segment_create all_ok old n kShmSlotCount kShmSlotCapacity t = (x, t')"
  shows "keeps_but {n} t t'" "\<exists>s. x = Some s \<and> sg_name s = n \<and> in_use t' s"
proof -
  obtain i u where o: "shm_open_create n t = (i, u)" by fastforce
  let ?x = "\<lparr>so_size = bytes_needed kShmSlotCount kShmSlotCapacity, so_ring = Some (fresh_ring old)\<rparr>"
  have x: "x = Some \<lparr>sg_name = n, sg_object = i, sg_size = bytes_needed kShmSlotCount kShmSlotCapacity, sg_owner = True\<rparr>"
    and t': "st_names t' = st_names u" "st_next t' = st_next u" "st_objects t' = (st_objects u)(i := ?x)"
    using assms o by (auto simp: segment_create_def all_ok_def Let_def)
  have u: "st_names u = (st_names t)(n \<mapsto> i)" "st_names t n = None \<longrightarrow> i = st_next t \<and> st_next u = Suc (st_next t)"
    "\<And>j. st_names t n = Some j \<Longrightarrow> j = i \<and> st_next u = st_next t" "\<And>j. j \<noteq> i \<Longrightarrow> st_objects u j = st_objects t j"
    using o by (auto simp: shm_open_create_def split: option.splits)
  show "\<exists>s. x = Some s \<and> sg_name s = n \<and> in_use t' s" by (simp add: x in_use_def t' u(1) fresh_ring_ok)
  show "keeps_but {n} t t'" unfolding keeps_but_def
  proof (intro impI conjI allI)
    assume ok: "table_ok t"
    have bound: "st_names t m = Some j \<Longrightarrow> j < st_next t" for m j using ok by (simp add: table_ok_def)
    have other: "st_names t m = Some j \<Longrightarrow> m \<noteq> n \<Longrightarrow> j \<noteq> i" for m j
      using ok bound [of m j] u(2,3) by (cases "st_names t n") (auto simp: table_ok_def)
    have "i < st_next u" "st_next t \<le> st_next u" using bound [of n] u(2,3) by (cases "st_names t n"; force)+
    with other bound ok show "table_ok t'" unfolding table_ok_def t' u(1) by (fastforce split: if_splits)
    show "in_use t' s" if "in_use t s" "sg_name s \<notin> {n}" for s
      using that other [of "sg_name s" "sg_object s"] by (simp add: in_use_def t' u)
  qed
qed

lemma destroy_table: "keeps_but {sg_name s} t (segment_destroy s t)"
  by (auto simp: keeps_but_def segment_destroy_def shm_unlink_def table_ok_def in_use_def)

lemma ring_write_fields: "rg_magic (snd (ring_write r bs)) = rg_magic r \<and> rg_slot_count (snd (ring_write r bs)) = rg_slot_count r \<and>
    rg_slot_size (snd (ring_write r bs)) = rg_slot_size r"
  by (simp add: ring_write_def ring_write_raw_def claim_pos_def store_defs map_slot_def Let_def)

lemma ring_write_keeps:
  assumes "ring_holds r h" "length bs < 2 ^ 32" "Suc (unat (rg_write_seq r)) < pos_limit"
  shows "\<exists>h'. ring_holds (snd (ring_write r bs)) h'"
proof (cases "length bs \<le> unat (rg_slot_size r)")
  case True
  have "Suc (length h) < pos_limit" using assms(1,3) by (simp add: ring_holds_def)
  with ring.put_holds [OF assms(1) True] show ?thesis by blast
next
  case False
  with assms(2) have "(of_nat (length bs) :: u32) > rg_slot_size r" by (simp add: word_less_nat_alt unat_of_nat)
  with assms(1) show ?thesis by (auto simp: ring_write_def ring_write_raw_def)
qed

lemma enqueue_table:
  assumes "length bs < 2 ^ 32" "\<And>r. ring_of t s = Some r \<Longrightarrow> Suc (unat (rg_write_seq r)) < pos_limit"
  shows "keeps_but {} t (snd (shm_sink_enqueue s bs t))"
proof (cases "ring_of t s")
  case (Some r)
  let ?t = "snd (shm_sink_enqueue s bs t)" and ?i = "sg_object s"
  have t: "st_names ?t = st_names t" "st_next ?t = st_next t" "\<And>j. j \<noteq> ?i \<Longrightarrow> st_objects ?t j = st_objects t j"
    "st_objects ?t ?i = (st_objects t ?i)\<lparr>so_ring := Some (snd (ring_write r bs))\<rparr>"
    using Some by (simp_all add: shm_sink_enqueue_def split_beta)
  have "ring_ok (st_objects ?t ?i)" if "ring_ok (st_objects t ?i)"
    using that ring_write_keeps [OF _ assms(1) assms(2) [OF Some]] ring_write_fields [of r bs] Some
    by (auto simp: ring_ok_def t(4) ring_of_def)
  then have "ring_ok (st_objects t j) \<Longrightarrow> ring_ok (st_objects ?t j)" for j using t(3) by (cases "j = ?i") simp_all
  then show ?thesis by (simp add: keeps_but_def table_ok_def in_use_def t(1,2))
qed (simp add: shm_sink_enqueue_def)

section \<open>The writers and readers of a node\<close>

text \<open>\<open>T\<close> is the set of topics of the node.\<close>

definition writers_ok :: "string set \<Rightarrow> plane \<Rightarrow> bool" where
  "writers_ok T w \<longleftrightarrow> (\<forall>t p. (t, p) \<in> set (dp_shm_pub (pl_dp w)) \<longrightarrow>
     t \<in> T \<and> sg_name (sp_seg p) = seg_name (dp_pid (pl_dp w)) t \<and> in_use (pl_shm w) (sp_seg p))"

definition readers_ok :: "string set \<Rightarrow> plane \<Rightarrow> bool" where
  "readers_ok T w \<longleftrightarrow> (\<forall>rm k e. dp_readers (pl_dp w) = Some rm \<longrightarrow> (k, e) \<in> set (rm_readers rm) \<longrightarrow>
     en_seg_name e = k \<and> en_topic e \<in> T \<and> (\<exists>p. k = seg_name p (en_topic e)))"

abbreviation own_names :: "data_plane \<Rightarrow> string set" where
  "own_names d \<equiv> range (seg_name (dp_pid d))"

lemma shm_pub_match_writers:
  assumes "writers_ok T w" "table_ok (pl_shm w)" "inj_on sanitised T" "topic_of m \<in> T"
  shows "writers_ok T (shm_pub_match all_ok old m w) \<and> keeps_but (own_names (pl_dp w)) (pl_shm w) (pl_shm (shm_pub_match all_ok old m w))"
proof (cases "sm_find (dp_shm_pub (pl_dp w)) (topic_of m)")
  case None
  let ?n = "seg_name (dp_pid (pl_dp w)) (topic_of m)"
  obtain x t' where c: "segment_create all_ok old ?n kShmSlotCount kShmSlotCapacity (pl_shm w) = (x, t')" by fastforce
  note ct = create_table [OF c]
  then obtain sg where sg: "x = Some sg" "sg_name sg = ?n" "in_use t' sg" by blast
  let ?w = "shm_pub_match all_ok old m w"
  have w: "pl_shm ?w = t'" "dp_pid (pl_dp ?w) = dp_pid (pl_dp w)"
    "dp_shm_pub (pl_dp ?w) = sm_put (topic_of m) \<lparr>sp_id = dp_next_sink (pl_dp w), sp_seg = sg, sp_ref = 1\<rparr> (dp_shm_pub (pl_dp w))"
    by (simp_all add: shm_pub_match_def None c sg(1) Let_def)
  have "in_use t' (sp_seg p)" if "(t, p) \<in> set (dp_shm_pub (pl_dp w))" for t p
  proof -
    have "t \<noteq> topic_of m" using None that by (auto simp: map_of_eq_None_iff image_iff)
    from assms(1) that have p: "t \<in> T" "sg_name (sp_seg p) = seg_name (dp_pid (pl_dp w)) t" "in_use (pl_shm w) (sp_seg p)"
      by (auto simp: writers_ok_def)
    with assms(3,4) \<open>t \<noteq> topic_of m\<close> have "sg_name (sp_seg p) \<noteq> ?n" by (auto simp: seg_name_inject inj_on_def)
    with ct(1) assms(2) p(3) show ?thesis by (simp add: keeps_but_def)
  qed
  with assms(1,4) sg(2,3) have "writers_ok T ?w" by (auto simp: writers_ok_def w dest!: sm_put_mem)
  moreover have "keeps_but (own_names (pl_dp w)) (pl_shm w) (pl_shm ?w)" unfolding w(1) by (rule keeps_but_mono [OF ct(1)]) simp
  ultimately show ?thesis by blast
next
  case (Some p)
  with assms(1) map_of_SomeD [OF Some] show ?thesis by (auto simp: shm_pub_match_def writers_ok_def Let_def dest!: sm_put_mem)
qed

lemma shm_pub_unmatch_writers:
  assumes "writers_ok T w" "table_ok (pl_shm w)" "inj_on sanitised T"
  shows "writers_ok T (shm_pub_unmatch m w) \<and> keeps_but (own_names (pl_dp w)) (pl_shm w) (pl_shm (shm_pub_unmatch m w))"
proof (cases "sm_find (dp_shm_pub (pl_dp w)) (topic_of m)")
  case (Some p)
  let ?w = "shm_pub_unmatch m w"
  from assms(1) map_of_SomeD [OF Some] have p: "topic_of m \<in> T" "sg_name (sp_seg p) = seg_name (dp_pid (pl_dp w)) (topic_of m)" by (auto simp: writers_ok_def)
  show ?thesis
  proof (cases "sp_ref p - 1 > 0")
    case True
    with assms(1) Some map_of_SomeD [OF Some] show ?thesis by (auto simp: shm_pub_unmatch_def writers_ok_def Let_def dest!: sm_put_mem)
  next
    case False
    have w: "pl_shm ?w = segment_destroy (sp_seg p) (pl_shm w)" "dp_pid (pl_dp ?w) = dp_pid (pl_dp w)"
      "dp_shm_pub (pl_dp ?w) = sm_erase (topic_of m) (dp_shm_pub (pl_dp w))"
      using False by (simp_all add: shm_pub_unmatch_def Some Let_def)
    note k = destroy_table [of "sp_seg p" "pl_shm w"]
    have "in_use (pl_shm ?w) (sp_seg q)" if "(t, q) \<in> set (dp_shm_pub (pl_dp w))" "t \<noteq> topic_of m" for t q
    proof -
      from assms(1) that(1) have q: "t \<in> T" "sg_name (sp_seg q) = seg_name (dp_pid (pl_dp w)) t" "in_use (pl_shm w) (sp_seg q)"
        by (auto simp: writers_ok_def)
      with assms(3) p that(2) have "sg_name (sp_seg q) \<noteq> sg_name (sp_seg p)" by (auto simp: seg_name_inject inj_on_def)
      with k assms(2) q(3) show ?thesis by (simp add: keeps_but_def w)
    qed
    with assms(1) have "writers_ok T ?w" by (auto simp: writers_ok_def w sm_erase_def)
    moreover have "keeps_but (own_names (pl_dp w)) (pl_shm w) (pl_shm ?w)" unfolding w(1) by (rule keeps_but_mono [OF k]) (simp add: p(2))
    ultimately show ?thesis by blast
  qed
qed (use assms in \<open>simp add: shm_pub_unmatch_def\<close>)

definition shm_ok :: "string set \<Rightarrow> plane \<Rightarrow> bool" where
  "shm_ok T w \<longleftrightarrow> writers_ok T w \<and> readers_ok T w \<and> table_ok (pl_shm w)"

text \<open>A step of a node that leaves the segments of others alone.\<close>

definition shm_step :: "string set \<Rightarrow> plane \<Rightarrow> plane \<Rightarrow> bool" where
  "shm_step T w w' \<longleftrightarrow> (shm_ok T w \<longrightarrow> shm_ok T w') \<and> dp_pid (pl_dp w') = dp_pid (pl_dp w) \<and>
     (shm_ok T w \<longrightarrow> keeps_but (own_names (pl_dp w)) (pl_shm w) (pl_shm w'))"

lemma shm_step_trans:
  assumes "shm_step T w w'" "shm_step T w' w''"
  shows "shm_step T w w''"
  using assms keeps_but_trans [of "own_names (pl_dp w)" "pl_shm w" "pl_shm w'" "own_names (pl_dp w)" "pl_shm w''"]
  by (auto simp: shm_step_def)

lemma shm_step_same:
  "dp_shm_pub (pl_dp w') = dp_shm_pub (pl_dp w) \<Longrightarrow> dp_readers (pl_dp w') = dp_readers (pl_dp w) \<Longrightarrow> pl_shm w' = pl_shm w \<Longrightarrow>
   dp_pid (pl_dp w') = dp_pid (pl_dp w) \<Longrightarrow> shm_step T w w'"
  by (simp add: shm_step_def shm_ok_def writers_ok_def readers_ok_def)

lemma tcp_shm_step: "shm_step T w (tcp_pub_match m w)" "shm_step T w (tcp_pub_unmatch m w)"
  by (rule shm_step_same; simp add: tcp_pub_match_def tcp_pub_unmatch_def connection_for_def Let_def split: option.splits prod.splits)+

lemma pub_shm_step:
  assumes "inj_on sanitised T"
  shows "topic_of m \<in> T \<Longrightarrow> shm_step T w (shm_pub_match all_ok old m w)" "shm_step T w (shm_pub_unmatch m w)"
proof -
  have f: "dp_pid (pl_dp (shm_pub_match oc old m w)) = dp_pid (pl_dp w)" "dp_readers (pl_dp (shm_pub_match oc old m w)) = dp_readers (pl_dp w)"
    "dp_pid (pl_dp (shm_pub_unmatch m w)) = dp_pid (pl_dp w)" "dp_readers (pl_dp (shm_pub_unmatch m w)) = dp_readers (pl_dp w)" for oc
    by (simp_all add: shm_pub_match_def shm_pub_unmatch_def Let_def split: option.splits prod.splits)
  show "shm_step T w (shm_pub_match all_ok old m w)" if "topic_of m \<in> T"
    using shm_pub_match_writers [OF _ _ assms that, where w = w and old = old] by (auto simp: shm_step_def shm_ok_def readers_ok_def f keeps_but_def)
  show "shm_step T w (shm_pub_unmatch m w)"
    using shm_pub_unmatch_writers [OF _ _ assms, where w = w and m = m] by (auto simp: shm_step_def shm_ok_def readers_ok_def f keeps_but_def)
qed

lemma sub_shm_step:
  "shm_sub_match m w = Some w' \<Longrightarrow> topic_of m \<in> T \<Longrightarrow> shm_step T w w'"
  "shm_sub_unmatch m w = Some w' \<Longrightarrow> shm_step T w w'"
proof -
  assume w: "shm_sub_match m w = Some w'" and t: "topic_of m \<in> T"
  have f: "pl_shm w' = pl_shm w" "dp_shm_pub (pl_dp w') = dp_shm_pub (pl_dp w)" "dp_pid (pl_dp w') = dp_pid (pl_dp w)"
    using w by (auto simp: shm_sub_match_def Let_def split: option.splits)
  have "readers_ok T w'" if "readers_ok T w"
    using w that t by (fastforce simp: shm_sub_match_def add_reader_def readers_ok_def Let_def split: option.splits if_splits dest!: sm_put_mem)
  with f show "shm_step T w w'" by (simp add: shm_step_def shm_ok_def writers_ok_def)
next
  assume w: "shm_sub_unmatch m w = Some w'"
  have f: "pl_shm w' = pl_shm w" "dp_shm_pub (pl_dp w') = dp_shm_pub (pl_dp w)" "dp_pid (pl_dp w') = dp_pid (pl_dp w)"
    using w by (auto simp: shm_sub_unmatch_def Let_def split: option.splits if_splits)
  have "readers_ok T w'" if "readers_ok T w"
    using w that by (auto simp: shm_sub_unmatch_def remove_reader_def sm_erase_def readers_ok_def Let_def split: option.splits if_splits)
  with f show "shm_step T w w'" by (simp add: shm_step_def shm_ok_def writers_ok_def)
qed

lemma callback_shm_step:
  assumes "inj_on sanitised T"
  shows "handle_match all_ok old m w = Some w' \<Longrightarrow> topic_of m \<in> T \<Longrightarrow> shm_step T w w'" "handle_unmatch m w = Some w' \<Longrightarrow> shm_step T w w'"
  using tcp_shm_step pub_shm_step [OF assms] sub_shm_step shm_step_same [of w w T]
  by (auto simp: handle_match_def handle_unmatch_def Let_def split: if_splits)

lemma plane_events_shm_step:
  assumes "inj_on sanitised T"
  shows "plane_events all_ok old evs w = Some w' \<Longrightarrow> \<forall>m. OnMatch m \<in> set evs \<longrightarrow> topic_of m \<in> T \<Longrightarrow> shm_step T w w'"
proof (induction all_ok old evs w rule: plane_events.induct)
  case (2 old m evs w)
  then obtain v where "handle_match all_ok old m w = Some v" "plane_events all_ok old evs v = Some w'" by (auto simp: bind_eq_Some_conv)
  with 2 callback_shm_step(1) [OF assms] shm_step_trans show ?case by (metis list.set_intros)
next
  case (3 old m evs w)
  then obtain v where "handle_unmatch m w = Some v" "plane_events all_ok old evs v = Some w'" by (auto simp: bind_eq_Some_conv)
  with 3 callback_shm_step(2) [OF assms] shm_step_trans show ?case by (metis list.set_intros(2))
qed (simp add: shm_step_same)

section \<open>Steps of a node\<close>

definition topics_of :: "'r node \<Rightarrow> string set" where
  "topics_of n = ep_topic ` set (ag_endpoints (nd_agent n))"

lemma node_shm_parts [simp]:
  "pl_shm (nd_plane (register k t ty q r n)) = pl_shm (nd_plane n)" "pl_shm (nd_plane (add_entity e n)) = pl_shm (nd_plane n)"
  "pl_shm (nd_plane (set_bus b n)) = pl_shm (nd_plane n)" "pl_shm (nd_plane (snd (fresh_sink n))) = pl_shm (nd_plane n)"
  "dp_shm_pub (pl_dp (nd_plane (snd (fresh_sink n)))) = dp_shm_pub (pl_dp (nd_plane n))"
  "dp_readers (pl_dp (nd_plane (snd (fresh_sink n)))) = dp_readers (pl_dp (nd_plane n))"
  "dp_pid (pl_dp (nd_plane (snd (fresh_sink n)))) = dp_pid (pl_dp (nd_plane n))"
  by (simp_all add: register_def add_entity_def set_bus_def fresh_sink_def Let_def)

lemma registrar_shm [simp]: "pl_shm (nd_plane (foldl (\<lambda>n r. node_registrar q r n) n rs)) = pl_shm (nd_plane n)"
  by (induction rs arbitrary: n) (simp_all add: node_registrar_def)

lemma try_match_local: "OnMatch m \<in> set (fst (try_match i r a)) \<Longrightarrow> mi_local m \<in> set (ag_endpoints a)"
  using note_matches_events [of m "rp_host r" "match_endpoints (ag_endpoints a) i (rp_locator r) (rp_endpoints r)" a]
  by (auto simp: try_match_def set_match_endpoints match_pair_Some)

lemma match_remotes_local: "OnMatch m \<in> set (fst (match_remotes rs a)) \<Longrightarrow> mi_local m \<in> set (ag_endpoints a)"
proof (induction rs arbitrary: a)
  case (Cons x rs)
  obtain i r where x: "x = (i, r)" by (cases x)
  from Cons.prems x consider "OnMatch m \<in> set (fst (try_match i r a))" | "OnMatch m \<in> set (fst (match_remotes rs (snd (try_match i r a))))"
    by (auto simp: split_beta)
  then show ?case
    using try_match_local Cons.IH [of "snd (try_match i r a)"] by cases (auto simp: try_match_def agent_keeps)
qed simp

lemma agent_step_local: "OnMatch m \<in> set (fst (agent_step op a)) \<Longrightarrow> mi_local m \<in> set (ag_endpoints a)"
  by (cases op)
    (auto simp: handle_announcement_def Let_def rematch_if_dirty_def rematch_all_def reap_dead_def reap_no_match
      dest!: try_match_local match_remotes_local split: if_splits)

lemma node_step_shm:
  assumes "node_step old op n = Some n'" "inj_on sanitised T" "topics_of n \<subseteq> T"
  shows "shm_step T (nd_plane n) (nd_plane n')"
  using assms(1)
proof (cases rule: node_step_agent)
  case adds
  have "dp_shm_pub (pl_dp (nd_plane n')) = dp_shm_pub (pl_dp (nd_plane n)) \<and> dp_readers (pl_dp (nd_plane n')) = dp_readers (pl_dp (nd_plane n)) \<and>
    pl_shm (nd_plane n') = pl_shm (nd_plane n) \<and> dp_pid (pl_dp (nd_plane n')) = dp_pid (pl_dp (nd_plane n))"
    using assms(1) adds(2)
    by (cases op) (auto simp: node_create_publisher_def node_create_subscriber_def node_create_service_def node_create_client_def
        Let_def split_beta split: if_splits entity.splits prod.splits)
  then show ?thesis by (intro shm_step_same) simp_all
next
  case (steps o')
  have "\<forall>m. OnMatch m \<in> set (fst (agent_step o' (nd_agent n))) \<longrightarrow> topic_of m \<in> T"
    using agent_step_local [of _ o' "nd_agent n"] assms(3) by (auto simp: topics_of_def)
  with plane_events_shm_step [OF assms(2) steps(4)] show ?thesis by blast
qed (simp add: shm_step_same)

lemma poll_entries_ids:
  "poll_entries oc t es = Some (ds, es') \<Longrightarrow> (k, e') \<in> set es' \<Longrightarrow> \<exists>e. (k, e) \<in> set es \<and> en_seg_name e' = en_seg_name e \<and> en_topic e' = en_topic e"
proof (induction es arbitrary: ds es')
  case (Cons x es)
  obtain k1 e1 where x: "x = (k1, e1)" by (cases x)
  have o: "poll_entry oc t e1 = Some (ms, e2) \<Longrightarrow> en_seg_name e2 = en_seg_name e1 \<and> en_topic e2 = en_topic e1" for ms e2
    by (auto simp: poll_entry_def poll_open_def Let_def split: option.splits)
  from Cons.prems(1) x obtain ms1 e1' ds1 es1 where
    p: "poll_entry oc t e1 = Some (ms1, e1')" "poll_entries oc t es = Some (ds1, es1)" "es' = (k1, e1') # es1" by (auto split: option.splits)
  with Cons.prems(2) x o [OF p(1)] Cons.IH [OF p(2)] show ?case by auto
qed simp

lemma poll_node_shm:
  assumes "poll_node oc live n = Some (ds, n')"
  shows "shm_step T (nd_plane n) (nd_plane n')"
proof -
  note p = poll_node_parts [OF assms]
  have "readers_ok T (nd_plane n')" if "readers_ok T (nd_plane n)"
    using assms that unfolding readers_ok_def
    by (fastforce simp: poll_node_def poll_once_def Let_def split: option.splits dest!: poll_entries_ids)
  with p show ?thesis by (simp add: shm_step_def shm_ok_def writers_ok_def)
qed

section \<open>Every reachable network\<close>

text \<open>The topics of a node give different names of segments.\<close>

definition separate :: "'r node \<Rightarrow> bool" where
  "separate n \<longleftrightarrow> inj_on sanitised (topics_of n)"

definition plane_at :: "'r network \<Rightarrow> 'r node \<Rightarrow> plane" where
  "plane_at N n = (nd_plane n)\<lparr>pl_shm := nw_shm N (host_of n)\<rparr>"

definition shm_inv :: "'r network \<Rightarrow> bool" where
  "shm_inv N \<longleftrightarrow> (\<forall>h. table_ok (nw_shm N h)) \<and> (\<forall>n \<in> set (nw_nodes N). up n \<longrightarrow> shm_ok (topics_of n) (plane_at N n))"

lemma shm_ok_mono: "shm_ok T w \<Longrightarrow> T \<subseteq> T' \<Longrightarrow> shm_ok T' w"
  unfolding shm_ok_def writers_ok_def readers_ok_def by blast

lemma same_place_topics: "same_place n n' \<Longrightarrow> topics_of n \<subseteq> topics_of n'"
  unfolding same_place_def topics_of_def using set_mono_prefix by blast

lemma same_place_separate: "same_place n n' \<Longrightarrow> separate n' \<Longrightarrow> separate n"
  using inj_on_subset [OF _ same_place_topics, of sanitised n' n] by (simp add: separate_def)

text \<open>The segments of a node survive what others do to theirs.\<close>

lemma shm_ok_other:
  assumes "shm_ok T w" "keeps_but (range (seg_name p)) (pl_shm w) t'" "p \<noteq> dp_pid (pl_dp w)"
  shows "shm_ok T (w\<lparr>pl_shm := t'\<rparr>)"
proof -
  have "in_use t' s" if "in_use (pl_shm w) s" "sg_name s = seg_name (dp_pid (pl_dp w)) x" for s x
    using assms that by (auto simp: keeps_but_def shm_ok_def seg_name_inject)
  with assms show ?thesis unfolding shm_ok_def writers_ok_def readers_ok_def keeps_but_def by simp
qed

lemma shm_inv_put:
  assumes "net_inv N" "shm_inv N" "i < length (nw_nodes N)" "up (nw_nodes N ! i)" "host_of n' = host_of (nw_nodes N ! i)"
    and "up n' \<Longrightarrow> shm_ok (topics_of n') (nd_plane n')"
    and "keeps_but (range (seg_name (pid_of (nw_nodes N ! i)))) (nw_shm N (host_of n')) (pl_shm (nd_plane n'))"
  shows "shm_inv (put_node i n' N)"
proof -
  let ?N = "put_node i n' N" and ?h = "host_of n'" and ?t = "pl_shm (nd_plane n')"
  have N: "nw_nodes ?N = (nw_nodes N)[i := n']" "nw_shm ?N = (nw_shm N)(?h := ?t)" by (simp_all add: put_node_def)
  have "table_ok (nw_shm ?N h)" for h using assms(2,7) by (auto simp: N shm_inv_def keeps_but_def)
  moreover have "shm_ok (topics_of n) (plane_at ?N n)" if n: "n \<in> set (nw_nodes ?N)" "up n" for n
  proof -
    from n(1) obtain j where j: "j < length (nw_nodes N)" "n = (nw_nodes N)[i := n'] ! j" unfolding N by (auto simp: in_set_conv_nth)
    then consider "n = n'" | "j \<noteq> i" "n = nw_nodes N ! j" using assms(3) by (cases "j = i") simp_all
    then show ?thesis
    proof cases
      case 1
      with assms(6) n(2) show ?thesis by (simp add: plane_at_def N)
    next
      case 2
      have o: "shm_ok (topics_of n) (plane_at N n)" using assms(2) 2 j(1) n(2) by (simp add: shm_inv_def)
      have p: "pid_of n \<noteq> pid_of (nw_nodes N ! i)" "dp_pid (pl_dp (nd_plane n)) = pid_of n"
        using assms(1,3) 2 j(1) n(2) by (auto simp: net_inv_def distinct_conv_nth node_ok_def)
      show ?thesis
      proof (cases "host_of n = ?h")
        case True
        from shm_ok_other [OF o, of "pid_of (nw_nodes N ! i)" ?t] assms(7) p True show ?thesis by (simp add: plane_at_def N)
      next
        case False
        with o show ?thesis by (simp add: plane_at_def N)
      qed
    qed
  qed
  ultimately show ?thesis by (simp add: shm_inv_def)
qed

lemma release_table: "\<forall>(t, p) \<in> set ps. sg_name (sp_seg p) \<in> X \<Longrightarrow> keeps_but X u (release_segments ps u)"
proof (induction ps arbitrary: u)
  case (Cons x ps)
  obtain t p where x: "x = (t, p)" by (cases x)
  have "keeps_but X u (segment_destroy (sp_seg p) u)" using keeps_but_mono [OF destroy_table] Cons.prems x by auto
  from keeps_but_trans [OF this Cons.IH] Cons.prems x show ?case by (simp add: release_segments_def)
qed (simp add: release_segments_def)

lemma shm_inv_table:
  assumes "shm_inv N" "nw_nodes N' = nw_nodes N" "\<And>h. keeps_but {} (nw_shm N h) (nw_shm N' h)"
  shows "shm_inv N'"
proof -
  have t: "table_ok (nw_shm N h)" "table_ok (nw_shm N' h)" "in_use (nw_shm N h) s \<Longrightarrow> in_use (nw_shm N' h) s" for h s
    using assms(1) assms(3) [of h] by (auto simp: shm_inv_def keeps_but_def)
  have "shm_ok T (plane_at N' n)" if "shm_ok T (plane_at N n)" for T n
    using that t unfolding shm_ok_def writers_ok_def readers_ok_def plane_at_def by simp
  with assms(1,2) t(2) show ?thesis by (simp add: shm_inv_def)
qed

lemma leave_table:
  assumes "net_inv N" "shm_inv N" "i < length (nw_nodes N)" "up (nw_nodes N ! i)"
  shows "shm_inv (put_node i (destroy_node (node_at N i)) N)"
proof (rule shm_inv_put [OF assms])
  let ?n = "nw_nodes N ! i" and ?n' = "destroy_node (node_at N i)"
  show h: "host_of ?n' = host_of ?n" by (simp add: host_of_def destroy_node_def dp_stop_def node_at_def Let_def)
  show "up ?n' \<Longrightarrow> shm_ok (topics_of ?n') (nd_plane ?n')" using destroy_ok(3) by blast
  have "shm_ok (topics_of ?n) (plane_at N ?n)" "dp_pid (pl_dp (nd_plane ?n)) = pid_of ?n"
    using assms by (simp_all add: shm_inv_def net_inv_def node_ok_def)
  then have "\<forall>(t, p) \<in> set (dp_shm_pub (pl_dp (nd_plane ?n))). sg_name (sp_seg p) \<in> range (seg_name (pid_of ?n))"
    by (auto simp: shm_ok_def writers_ok_def plane_at_def)
  from release_table [OF this, of "nw_shm N (host_of ?n)"]
  show "keeps_but (range (seg_name (pid_of ?n))) (nw_shm N (host_of ?n')) (pl_shm (nd_plane ?n'))"
    unfolding h by (simp add: destroy_node_def dp_stop_def node_at_def Let_def)
qed

lemma net_step_shm:
  assumes "net_inv N" "shm_inv N" "allowed e N" "net_step old e N = Some N'" "\<forall>n \<in> set (nw_nodes N'). separate n"
  shows "shm_inv N'"
proof -
  have acts: "shm_inv (put_node i n' N)"
    if i: "i < length (nw_nodes N)" "up (nw_nodes N ! i)" and n': "same_place (node_at N i) n'" "put_node i n' N = N'"
      "inj_on sanitised (topics_of n') \<Longrightarrow> shm_step (topics_of n') (nd_plane (node_at N i)) (nd_plane n')" for i n'
  proof (rule shm_inv_put [OF assms(1,2) i])
    have "n' \<in> set (nw_nodes N')" using i(1) n'(2) by (auto simp: put_node_def set_update_memI)
    with assms(5) have s: "shm_step (topics_of n') (nd_plane (node_at N i)) (nd_plane n')" using n'(3) by (simp add: separate_def)
    have pl: "nd_plane (node_at N i) = plane_at N (nw_nodes N ! i)" by (simp add: node_at_def with_shm_def plane_at_def)
    have "shm_ok (topics_of (nw_nodes N ! i)) (plane_at N (nw_nodes N ! i))" using assms(2) i by (simp add: shm_inv_def)
    moreover have "topics_of (nw_nodes N ! i) \<subseteq> topics_of n'" using same_place_topics [OF n'(1)] by (simp add: node_at_def topics_of_def)
    ultimately have o: "shm_ok (topics_of n') (nd_plane (node_at N i))" using shm_ok_mono pl by simp
    with s show "shm_ok (topics_of n') (nd_plane n')" by (simp add: shm_step_def)
    show h: "host_of n' = host_of (nw_nodes N ! i)" using n'(1) by (simp add: same_place_def node_at_def)
    have "dp_pid (pl_dp (nd_plane (node_at N i))) = pid_of (nw_nodes N ! i)" using assms(1) i by (simp add: net_inv_def node_ok_def node_at_def)
    with s o h show "keeps_but (range (seg_name (pid_of (nw_nodes N ! i)))) (nw_shm N (host_of n')) (pl_shm (nd_plane n'))"
      by (simp add: shm_step_def node_at_def)
  qed
  have step: "shm_inv N'" if "i < length (nw_nodes N)" "up (nw_nodes N ! i)" "node_step old op (node_at N i) = Some n'" "put_node i n' N = N'" for i op n'
    using acts [OF that(1,2) node_step_place(1) [OF that(3)] that(4)] node_step_shm [OF that(3)]
      same_place_topics [OF node_step_place(1) [OF that(3)]] that(4) by blast
  show ?thesis
  proof (cases e)
    case (Join name options env)
    let ?n = "make_node name options env"
    have N': "nw_nodes N' = nw_nodes N @ [?n]" "nw_shm N' = nw_shm N" using assms(4) Join by auto
    have "shm_ok T (plane_at N' ?n)" for T
      using assms(2) by (auto simp: shm_ok_def writers_ok_def readers_ok_def plane_at_def N' shm_inv_def make_node_def Let_def
          set_local_identity_def dp_start_def new_data_plane_def new_manager_def split: option.splits)
    moreover have "plane_at N' n = plane_at N n" for n by (simp add: plane_at_def N')
    ultimately show ?thesis using assms(2) by (simp add: shm_inv_def N')
  next
    case (Act i op)
    then show ?thesis using assms(3,4) step [of i op] by auto
  next
    case (Say i)
    then show ?thesis using assms(2,4) by (intro shm_inv_table [OF assms(2)]) auto
  next
    case (Hear i now k)
    then show ?thesis using assms(3,4) step [of i "Discovery (Announced now (nw_air N ! k))"] by auto
  next
    case (ShmWrite i t bs)
    let ?n = "nw_nodes N ! i"
    consider "N' = N" | p where "sm_find (dp_shm_pub (pl_dp (nd_plane ?n))) t = Some p"
      "N' = N\<lparr>nw_shm := (nw_shm N)(host_of ?n := snd (shm_sink_enqueue (sp_seg p) bs (nw_shm N (host_of ?n))))\<rparr>"
      using assms(4) ShmWrite by (auto simp: Let_def split: option.splits)
    then show ?thesis
    proof cases
      case 2
      have "keeps_but {} (nw_shm N (host_of ?n)) (snd (shm_sink_enqueue (sp_seg p) bs (nw_shm N (host_of ?n))))"
        using assms(3) ShmWrite 2(1) by (intro enqueue_table) auto
      with 2(2) show ?thesis by (intro shm_inv_table [OF assms(2)]) auto
    qed (use assms(2) in simp)
  next
    case (Poll i oc live)
    then obtain ds n' where n': "poll_node oc live (node_at N i) = Some (ds, n')" "put_node i n' N = N'" using assms(4) by auto
    with acts [OF _ _ poll_node_parts(3) [OF n'(1)] n'(2) poll_node_shm [OF n'(1)]] assms(3) Poll show ?thesis by simp
  next
    case (Leave i)
    then show ?thesis using leave_table [OF assms(1,2)] assms(3,4) by auto
  qed
qed

lemma net_step_evolves:
  assumes "net_inv N" "allowed e N" "net_step old e N = Some N'"
  shows "evolves N N'"
proof -
  have put: "evolves N (put_node i n' N)" if "i < length (nw_nodes N)" "same_place (node_at N i) n'" for i n'
    using evolves_put [OF that(1)] that(2) by (simp add: node_at_def same_place_def)
  have same: "nw_nodes N' = nw_nodes N \<Longrightarrow> evolves N N'" by (auto simp: evolves_def intro: same_place_refl)
  show ?thesis
  proof (cases e)
    case (Join name options env)
    then show ?thesis using assms(3) by (auto simp: evolves_def intro: same_place_refl)
  next
    case (Act i op)
    then show ?thesis using assms(2,3) put node_step_place(1) by fastforce
  next
    case (Hear i now k)
    then obtain n' where n': "node_step old (Discovery (Announced now (nw_air N ! k))) (node_at N i) = Some n'" "N' = put_node i n' N"
      using assms(3) unfolding Hear net_step.simps map_option_eq_Some by blast
    from put [OF _ node_step_place(1) [OF n'(1)]] n'(2) Hear assms(2) show ?thesis by simp
  next
    case (Poll i oc live)
    then show ?thesis using assms(2,3) put poll_node_parts(3) by fastforce
  next
    case (Leave i)
    then show ?thesis using assms(2,3) put destroy_ok(2) by auto
  qed (use assms(3) same in \<open>auto simp: Let_def split: option.splits\<close>)
qed

lemma reachable_shm: "reachable old N \<Longrightarrow> \<forall>n \<in> set (nw_nodes N). separate n \<Longrightarrow> shm_inv N"
proof (induction rule: reachable.induct)
  case (reach_empty shm)
  then show ?case by (simp add: shm_inv_def empty_network_def)
next
  case (reach_step N e N')
  note inv = reachable_inv [OF reach_step(1)]
  have "separate n" if "n \<in> set (nw_nodes N)" for n
    using that net_step_evolves [OF inv reach_step(2,3)] reach_step(5) same_place_separate unfolding evolves_def by blast
  with reach_step(4) have "shm_inv N" by blast
  from net_step_shm [OF inv this reach_step(2,3,5)] show ?case .
qed

section \<open>Attaching and reading\<close>

lemma attach_fresh:
  assumes "in_use t s" "en_seg e = None" "en_seg_name e = sg_name s"
  obtains r h s' where "ring_of t s = Some r" "ring_holds r h" "rg_slot_count r = kShmSlotCount" "rg_slot_size r = kShmSlotCapacity"
    "sg_object s' = sg_object s" "poll_entry (\<lambda>_. all_ok) t e = Some ([], e\<lparr>en_seg := Some s', en_reader := make_reader (Some r)\<rparr>)"
proof -
  from assms(1) obtain r h where r: "ring_of t s = Some r" "ring_holds r h" "rg_magic r = kMagic" "rg_slot_count r = kShmSlotCount"
    "rg_slot_size r = kShmSlotCapacity" "24 \<le> so_size (st_objects t (sg_object s))" "st_names t (sg_name s) = Some (sg_object s)"
    by (auto simp: in_use_def ring_ok_def ring_of_def)
  define s' where "s' = \<lparr>sg_name = sg_name s, sg_object = sg_object s, sg_size = so_size (st_objects t (sg_object s)), sg_owner = False\<rparr>"
  have o: "segment_open all_ok (sg_name s) t = Some s'"
    using r by (simp add: segment_open_def all_ok_def ring_attach_def ring_of_def s'_def not_less)
  have r': "ring_of t s' = Some r" using r(1) by (simp add: ring_of_def s'_def)
  have "cursor_at (make_reader (Some r)) (length h)" using r(2) by (simp add: cursor_at_def make_reader_def ring_holds_def)
  from ring.drain_reads [OF r(2) this, of kMaxDrainPerReader] have "\<exists>rd. drain ring_read r (make_reader (Some r)) kMaxDrainPerReader = Some ([], rd)" by auto
  moreover have "ring_read r (make_reader (Some r)) = Some (None, make_reader (Some r))"
    using ring_read_none [OF r(2)] r(2) by (simp add: make_reader_def ring_holds_def)
  moreover obtain k where k: "kMaxDrainPerReader = Suc k" by (metis kMaxDrainPerReader_def num.exhaust numeral_eq_Suc)
  ultimately have "drain ring_read r (make_reader (Some r)) kMaxDrainPerReader = Some ([], make_reader (Some r))" unfolding k by simp
  then have "poll_entry (\<lambda>_. all_ok) t e = Some ([], e\<lparr>en_seg := Some s', en_reader := make_reader (Some r)\<rparr>)"
    using assms(2,3) o r' by (simp add: poll_entry_def poll_open_def)
  with that [of r h s'] r show thesis by (simp add: s'_def)
qed

lemma burst_polled:
  assumes "ring_of t s = Some r" "ring_holds r h" "sg_object s' = sg_object s" "en_seg e = Some s'" "en_reader e = make_reader (Some r)"
    and "length ms \<le> unat (rg_slot_count r)" "\<forall>b \<in> set ms. length b \<le> unat (rg_slot_size r)" "unat (rg_write_seq r) + length ms < pos_limit"
    and "length ms \<le> kMaxDrainPerReader"
  shows "\<exists>e'. poll_entry oc (sink_all s ms t) e = Some (ms, e')"
proof -
  have "ring_of (sink_all s ms t) s' = Some (put_all ring_write r ms)"
    using sink_all_ring [OF assms(1), of ms] assms(3) by (simp add: ring_of_def)
  moreover have "cursor_at (en_reader e) (length h)" using assms(2,5) by (simp add: cursor_at_def make_reader_def ring_holds_def)
  then have "\<exists>rd. drain ring_read (put_all ring_write r ms) (en_reader e) kMaxDrainPerReader = Some (ms, rd)"
    using ring.burst_is_read [OF assms(2)] assms by (simp add: ring_holds_def)
  ultimately show ?thesis using assms(4) by (auto simp: poll_entry_def poll_open_def)
qed

lemma tracked_reader:
  assumes "tracks w S" "finite S" "m \<in> S" "wants_reader (pl_dp w) m"
  shows "\<exists>rm e. dp_readers (pl_dp w) = Some rm \<and> (reader_name m, e) \<in> set (rm_readers rm)"
proof -
  have "tally (\<lambda>x. wants_reader (pl_dp w) x \<and> reader_name x = reader_name m) S \<noteq> 0" using assms by (auto simp: tally_0)
  with assms(1) obtain rm e where rm: "dp_readers (pl_dp w) = Some rm" "sm_find (rm_readers rm) (reader_name m) = Some e"
    by (fastforce simp: tracks_def reader_tracks_def count_opt_def)
  from rm(1) map_of_SomeD [OF rm(2)] show ?thesis by blast
qed

lemma poll_twice:
  assumes "in_use t s" "en_seg e = None" "en_seg_name e = sg_name s" "(k, e) \<in> set (rm_readers rm)"
    and "poll_once (\<lambda>_. all_ok) t rm = Some (d0, ds0, rm1)" "ring_of t s = Some r" "length ms \<le> 32" "\<forall>b \<in> set ms. length b \<le> 256 * 1024"
    and "unat (rg_write_seq r) + length ms < pos_limit" "poll_once oc (sink_all s ms t) rm1 = Some (d, ds, rm2)"
  shows "\<exists>ds1 ds2. ds = ds1 @ map (Pair (en_topic e)) ms @ ds2"
proof -
  obtain r' h s' where r: "ring_of t s = Some r'" "ring_holds r' h" "rg_slot_count r' = kShmSlotCount" "rg_slot_size r' = kShmSlotCapacity"
    "sg_object s' = sg_object s" "poll_entry (\<lambda>_. all_ok) t e = Some ([], e\<lparr>en_seg := Some s', en_reader := make_reader (Some r')\<rparr>)"
    by (rule attach_fresh [OF assms(1-3)])
  let ?e = "e\<lparr>en_seg := Some s', en_reader := make_reader (Some r)\<rparr>"
  have "r' = r" using r(1) assms(6) by simp
  obtain es where es: "poll_entries (\<lambda>_. all_ok) t (rm_readers rm) = Some (ds0, es)" "rm_readers rm1 = es"
    using assms(5) by (auto simp: poll_once_def split: option.splits)
  from poll_entries_one [OF assms(4) es(1)] r(6) \<open>r' = r\<close> es(2) have e: "(k, ?e) \<in> set (rm_readers rm1)" by auto
  have "\<exists>e'. poll_entry oc (sink_all s ms t) ?e = Some (ms, e')"
    using r(2-5) assms(6-9) \<open>r' = r\<close>
    by (intro burst_polled [where r = r and h = h and s' = s']) (auto simp: kShmSlotCount_def kShmSlotCapacity_def kMaxDrainPerReader_def)
  moreover obtain es' where "poll_entries oc (sink_all s ms t) (rm_readers rm1) = Some (ds, es')"
    using assms(10) by (auto simp: poll_once_def split: option.splits)
  ultimately show ?thesis using poll_entries_one [OF e] by fastforce
qed


text \<open>The two nodes of \<open>meeting\<close> with shared memory.\<close>

definition match_ba :: match_info where
  "match_ba = \<lparr>mi_local = sub_x, mi_remote = pub_x, mi_locator = \<lparr>loc_ip = ''127.0.0.1'', loc_port = 4001\<rparr>, mi_pid = 1, mi_host = ''h''\<rparr>"

lemma met_shm:
  "\<exists>N A B. met True shm = Some N \<and> nw_nodes N = [A, B] \<and> up A \<and> up B \<and> active_map (nd_agent A) (match_key match_ab) = Some match_ab \<and>
     active_map (nd_agent B) (match_key match_ba) = Some match_ba \<and> pid_of A = 1 \<and> pid_of B = 2 \<and> host_of A = ''h'' \<and> host_of B = ''h'' \<and>
     dp_shm_enabled (pl_dp (nd_plane A)) \<and> dp_shm_enabled (pl_dp (nd_plane B)) = shm \<and>
     wants_writer (pl_dp (nd_plane A)) match_ab \<and> ag_endpoints (nd_agent B) = [sub_x] \<and> 0 \<in> set (te_sinks (entry_at (pl_bus (nd_plane B)) ''x''))"
  by (cases shm) (simp_all add: met_def net_eval match_ab_def match_ba_def active_map_def wants_writer_def shm_pub_match_def shm_sub_match_def
      add_reader_def segment_create_def shm_open_create_def all_ok_def no_shm_def)

definition seg_ab :: "nat \<Rightarrow> bool \<Rightarrow> segment" where
  "seg_ab i own = \<lparr>sg_name = seg_name 1 ''x'', sg_object = i, sg_size = bytes_needed kShmSlotCount kShmSlotCapacity, sg_owner = own\<rparr>"

lemma met_segment:
  "\<exists>N A B w rm. met True True = Some N \<and> nw_nodes N = [A, B] \<and> sm_find (dp_shm_pub (pl_dp (nd_plane A))) ''x'' = Some w \<and> sp_seg w = seg_ab 0 True \<and>
     in_use (nw_shm N ''h'') (seg_ab 0 True) \<and> dp_readers (pl_dp (nd_plane B)) = Some rm \<and>
     rm_readers rm = [(seg_name 1 ''x'', \<lparr>en_topic = ''x'', en_seg_name = seg_name 1 ''x'', en_seg = None, en_reader = make_reader None\<rparr>)] \<and>
     ring_of (nw_shm N ''h'') (seg_ab 0 True) = Some (fresh_ring (\<lambda>i j. CHR ''x'')) \<and> wants_reader (pl_dp (nd_plane B)) match_ba \<and>
     ag_endpoints (nd_agent A) = [pub_x]"
  by (simp add: met_def net_eval match_ba_def wants_reader_def shm_pub_match_def shm_sub_match_def
      add_reader_def segment_create_def shm_open_create_def all_ok_def no_shm_def seg_ab_def in_use_def fresh_ring_ok ring_of_def)


section \<open>Choosing the channel\<close>



text \<open>
  Switching shared memory off on one side only loses messages. In every reachable network, if two nodes on one host match on a topic with a
  best-effort subscriber, and \<open>enable_shm\<close> is on for the publisher's node and off for the subscriber's, then the publisher's node has only
  a segment to write into, no sink over TCP, and the subscriber's node reads no segment at all.
\<close>

theorem one_sided_shm_loses:
  assumes "reachable old N" "A \<in> set (nw_nodes N)" "up A" "B \<in> set (nw_nodes N)" "up B"
    and "m \<in> ran (active_map (nd_agent A))" "mi_pid m = pid_of B" "pubsub_pair (mi_local m) (mi_remote m)" "ep_kind (mi_local m) = PUBLISHER"
    and "ep_reliability (mi_remote m) = 0" "host_of A = host_of B" "host_of A \<noteq> []"
    and "dp_shm_enabled (pl_dp (nd_plane A))" "\<not> dp_shm_enabled (pl_dp (nd_plane B))"
  shows "dp_sinks (pl_dp (nd_plane A)) (match_key m) = None \<and> (\<exists>w. sm_find (dp_shm_pub (pl_dp (nd_plane A))) (topic_of m) = Some w) \<and>
    (\<exists>rm. dp_readers (pl_dp (nd_plane B)) = Some rm \<and> rm_readers rm = [])"
proof -
  note inv = reachable_inv [OF assms(1)]
  note tA = node_tracks [OF inv assms(2,3)] and tB = node_tracks [OF inv assms(4,5)]
  have u: "use_shm (pl_dp (nd_plane A)) m"
    using match_at(1) [OF inv assms(2,3,4,6,7)] assms(9-13) by (simp add: use_shm_def same_host_def host_of_def)
  then have "\<exists>w. sm_find (dp_shm_pub (pl_dp (nd_plane A))) (topic_of m) = Some w"
    using tracked_writer [OF tA assms(6)] assms(8,9) by (auto simp: wants_writer_def)
  moreover have "dp_sinks (pl_dp (nd_plane A)) (match_key m) = None"
  proof (rule ccontr)
    assume "dp_sinks (pl_dp (nd_plane A)) (match_key m) \<noteq> None"
    then obtain r where "dp_sinks (pl_dp (nd_plane A)) (match_key m) = Some r" by blast
    then obtain m1 where m1: "m1 \<in> ran (active_map (nd_agent A))" "wants_tcp (pl_dp (nd_plane A)) m1" "match_key m1 = match_key m"
      using tA(1) unfolding tracks_def tcp_tracks_def by blast
    have "agent_inv (nd_agent A)" using inv assms(2,3) by (simp add: net_inv_def node_ok_def node_inv_def)
    from keyed_match_set [OF agent_inv_keyed [OF this]] have "m1 = m"
      using m1(1,3) assms(6) by (auto simp: match_set_def inj_on_def)
    with m1(2) u show False by (simp add: wants_tcp_def)
  qed
  moreover have "\<exists>rm. dp_readers (pl_dp (nd_plane B)) = Some rm \<and> rm_readers rm = []"
    by (rule tracked_no_shm(2) [OF tB(1)]) (simp add: use_shm_def same_host_def assms(14))
  ultimately show ?thesis by blast
qed

theorem one_sided_shm_loses_witness:
  "\<exists>N A B. met True False = Some N \<and> nw_nodes N = [A, B] \<and> 0 \<in> set (te_sinks (entry_at (pl_bus (nd_plane B)) ''x'')) \<and>
     dp_sinks (pl_dp (nd_plane A)) (match_key match_ab) = None \<and> (\<exists>rm. dp_readers (pl_dp (nd_plane B)) = Some rm \<and> rm_readers rm = [])"
proof -
  obtain N A B where N: "met True False = Some N" "nw_nodes N = [A, B]" "up A" "up B" "active_map (nd_agent A) (match_key match_ab) = Some match_ab"
    "pid_of A = 1" "pid_of B = 2" "host_of A = ''h''" "host_of B = ''h''" "dp_shm_enabled (pl_dp (nd_plane A))" "\<not> dp_shm_enabled (pl_dp (nd_plane B))"
    "0 \<in> set (te_sinks (entry_at (pl_bus (nd_plane B)) ''x''))" using met_shm [of False] by auto
  from one_sided_shm_loses [OF met_reachable [OF N(1)], of A B match_ab] N ranI [of "active_map (nd_agent A)", OF N(5)]
  show ?thesis by (simp add: match_ab_def pubsub_pair_def pub_x_def sub_x_def)
qed

text \<open>A node with a best-effort and a reliable publisher, and one with a reliable and a best-effort subscriber.\<close>

definition reliable_qos :: qos where
  "reliable_qos = default_qos\<lparr>qos_reliability := RELIABLE\<rparr>"

definition crossing :: "net_event list" where
  "crossing = [Join ''a'' default_options (env_at 1 4001), Join ''b'' default_options (env_at 2 4002),
     Act 0 (CreatePublisher ''x'' ''T'' default_qos), Act 0 (CreatePublisher ''x'' ''T'' reliable_qos),
     Act 1 (CreateSubscriber ''x'' ''T'' reliable_qos), Act 1 (CreateSubscriber ''x'' ''T'' default_qos),
     Say 0, Hear 1 10 0, Say 1, Hear 0 10 1, Act 0 (Discovery Rematch), Act 1 (Discovery Rematch)]"

text \<open>
  Compatible endpoints can miss each other altogether. Each side goes through its own endpoints first and keeps one match per topic and
  participant. With a best-effort and a reliable publisher on one side and a reliable and a best-effort subscriber on the other, on one
  host, the publishers' node settles on the best-effort subscriber and shared memory, the subscribers' node on the reliable one
  and TCP: the first has only a segment to write into, which the second does not read, although both subscribers match a publisher.
\<close>

theorem mixed_reliability_loses:
  "\<exists>N A B rm. net_run (\<lambda>i j. CHR ''x'') crossing (empty_network (\<lambda>_. no_shm)) = Some (N :: unit network) \<and> nw_nodes N = [A, B] \<and>
     list_all (\<lambda>re. list_ex (\<lambda>le. match_pair 2 (ag_locator (nd_agent B)) le re \<noteq> None) (ag_endpoints (nd_agent A))) (ag_endpoints (nd_agent B)) \<and>
     te_sinks (entry_at (pl_bus (nd_plane B)) ''x'') = [0, 1] \<and>
     (\<exists>w. sm_find (dp_shm_pub (pl_dp (nd_plane A))) ''x'' = Some w \<and> te_remote_sinks (entry_at (pl_bus (nd_plane A)) ''x'') = [sp_id w]) \<and>
     dp_readers (pl_dp (nd_plane B)) = Some rm \<and> rm_readers rm = []"
  by (simp add: crossing_def reliable_qos_def net_eval match_key_def shm_pub_match_def shm_sub_match_def
      add_reader_def segment_create_def shm_open_create_def all_ok_def no_shm_def)

section \<open>A reader left behind\<close>

text \<open>
  Two nodes on one host meet and the subscriber's poller attaches to the publisher's segment. Then the publisher's node does not hear
  the other for longer than the timeout, while the other keeps hearing it; they hear each other again.
\<close>

definition one_sided :: "net_event list" where
  "one_sided = meeting True True @ [Poll 1 (\<lambda>_. all_ok) (\<lambda>_. True), Act 0 (Discovery (Reap 6000)), Say 1, Hear 0 6000 2, Say 0, Hear 1 6000 3]"

definition after_silence :: "unit network option" where
  "after_silence = net_run (\<lambda>i j. CHR ''x'') one_sided (empty_network (\<lambda>_. no_shm))"

lemma after_silence_x:
  "\<exists>N A B w rm. after_silence = Some N \<and> nw_nodes N = [A, B] \<and> up A \<and> up B \<and>
     active_map (nd_agent A) (match_key match_ab) = Some match_ab \<and> active_map (nd_agent B) (match_key match_ba) = Some match_ba \<and>
     sm_find (dp_shm_pub (pl_dp (nd_plane A))) ''x'' = Some w \<and> sp_seg w = seg_ab 1 True \<and> dp_readers (pl_dp (nd_plane B)) = Some rm \<and>
     rm_readers rm = [(seg_name 1 ''x'', \<lparr>en_topic = ''x'', en_seg_name = seg_name 1 ''x'', en_seg = Some (seg_ab 0 False),
       en_reader = make_reader (Some (fresh_ring (\<lambda>i j. CHR ''x'')))\<rparr>)] \<and>
     ring_of (nw_shm N ''h'') (seg_ab 0 False) = Some (fresh_ring (\<lambda>i j. CHR ''x'')) \<and>
     te_sinks (entry_at (pl_bus (nd_plane B)) ''x'') = [0]"
  by (simp add: after_silence_def one_sided_def net_eval match_key_def active_map_def shm_pub_match_def shm_sub_match_def shm_pub_unmatch_def
      handle_unmatch_def remove_remote_sink_def sm_erase_def seg_name_nonempty fresh_ring_facts ring_of_def
      add_reader_def segment_create_def shm_open_create_def segment_destroy_def shm_unlink_def all_ok_def no_shm_def
      poll_node_def poll_once_def poll_entry_def poll_open_def segment_open_def match_ab_def match_ba_def seg_ab_def)

lemma sink_all_other: "sg_object s \<noteq> sg_object s' \<Longrightarrow> ring_of (sink_all s ms t) s' = ring_of t s'"
  by (induction ms arbitrary: t) (simp_all add: shm_sink_enqueue_def ring_of_def split_beta split: option.splits)


end
