(* ===== verification/Queue_Test.thy ===== *)
theory Queue_Test
  imports Blocking_Queue
begin

text \<open>
  Threads that wait. \<open>Blocking_Queue\<close> has a \<open>pop\<close> that cannot go on as a value; here the condition variable of
  common/include/common/blocking_queue.h is modelled: who sleeps in \<open>cv_.wait\<close>, that \<open>push\<close> and \<open>close\<close> notify after they have released the
  mutex, that \<open>notify_one\<close> wakes one of the sleepers (any), and that a sleeper may wake for no reason. The program around it is
  examples/queue_test.cpp: one producer that pushes numbers and closes the queue, and consumers that pop until the queue is
  closed and empty. The numbers of items and consumers are arguments (20 and 2 in the source).
\<close>

section \<open>The program\<close>

datatype producer = ToPush nat | ToNotify nat | ToNotifyAll | ProducerDone

datatype consumer = Awake | Asleep | Exited

text \<open>\<open>qt_log\<close> is who took what, in the order in which the items were taken.\<close>

record queue_test =
  qt_queue :: "nat blocking_queue"
  qt_producer :: producer
  qt_consumers :: "consumer list"
  qt_log :: "(nat \<times> nat) list"

definition queue_test_start :: "nat \<Rightarrow> queue_test" where
  "queue_test_start consumers =
     \<lparr>qt_queue = new_queue 0, qt_producer = ToPush 0, qt_consumers = replicate consumers Awake, qt_log = []\<rparr>"

definition wake :: "nat \<Rightarrow> queue_test \<Rightarrow> queue_test" where
  "wake c s = s\<lparr>qt_consumers := (qt_consumers s)[c := Awake]\<rparr>"

definition wake_all :: "queue_test \<Rightarrow> queue_test" where
  "wake_all s = s\<lparr>qt_consumers := map (\<lambda>k. if k = Asleep then Awake else k) (qt_consumers s)\<rparr>"

definition sleeps :: "queue_test \<Rightarrow> nat \<Rightarrow> bool" where
  "sleeps s c \<longleftrightarrow> c < length (qt_consumers s) \<and> qt_consumers s ! c = Asleep"

text \<open>
  A turn of the producer; \<open>who\<close> is the sleeper that \<open>notify_one\<close> picks, if there is one.
\<close>

fun producer_turn :: "nat \<Rightarrow> nat option \<Rightarrow> queue_test \<Rightarrow> queue_test option" where
  "producer_turn items who s =
     (case qt_producer s of
        ToPush i \<Rightarrow>
          if i < items then Some (s\<lparr>qt_queue := snd (push (qt_queue s) i), qt_producer := ToNotify i\<rparr>)
          else Some (s\<lparr>qt_queue := close_queue (qt_queue s), qt_producer := ToNotifyAll\<rparr>)
      | ToNotify i \<Rightarrow>
          (case who of
             None \<Rightarrow> if Asleep \<in> set (qt_consumers s) then None else Some (s\<lparr>qt_producer := ToPush (Suc i)\<rparr>)
           | Some c \<Rightarrow> if sleeps s c then Some (wake c s\<lparr>qt_producer := ToPush (Suc i)\<rparr>) else None)
      | ToNotifyAll \<Rightarrow> Some (wake_all s\<lparr>qt_producer := ProducerDone\<rparr>)
      | ProducerDone \<Rightarrow> None)"

text \<open>
  A turn of a consumer that is awake: it holds the mutex and looks at the queue, in its call of \<open>pop\<close> or after waking up in it.
\<close>

definition consumer_turn :: "nat \<Rightarrow> queue_test \<Rightarrow> queue_test option" where
  "consumer_turn c s =
     (if c < length (qt_consumers s) \<and> qt_consumers s ! c = Awake then
        Some (case pop (qt_queue s) of
            None \<Rightarrow> s\<lparr>qt_consumers := (qt_consumers s)[c := Asleep]\<rparr>
          | Some (None, q) \<Rightarrow> s\<lparr>qt_queue := q, qt_consumers := (qt_consumers s)[c := Exited]\<rparr>
          | Some (Some v, q) \<Rightarrow> s\<lparr>qt_queue := q, qt_log := qt_log s @ [(c, v)]\<rparr>)
      else None)"

definition spurious :: "nat \<Rightarrow> queue_test \<Rightarrow> queue_test option" where
  "spurious c s = (if sleeps s c then Some (wake c s) else None)"

datatype turn = Producer "nat option" | Consumer nat | Spurious nat

fun queue_test_turn :: "nat \<Rightarrow> turn \<Rightarrow> queue_test \<Rightarrow> queue_test option" where
  "queue_test_turn items (Producer who) s = producer_turn items who s"
| "queue_test_turn items (Consumer c) s = consumer_turn c s"
| "queue_test_turn items (Spurious c) s = spurious c s"

fun queue_test_run :: "nat \<Rightarrow> turn list \<Rightarrow> queue_test \<Rightarrow> queue_test option" where
  "queue_test_run items [] s = Some s"
| "queue_test_run items (t # ts) s = Option.bind (queue_test_turn items t s) (queue_test_run items ts)"

text \<open>\<open>main\<close> joins all threads and then prints the size of the queue.\<close>

definition all_joined :: "queue_test \<Rightarrow> bool" where
  "all_joined s \<longleftrightarrow> qt_producer s = ProducerDone \<and> set (qt_consumers s) \<subseteq> {Exited}"

definition final_size :: "queue_test \<Rightarrow> nat option" where
  "final_size s = (if all_joined s then Some (queue_size (qt_queue s)) else None)"

section \<open>The invariant\<close>

definition pushed :: "nat \<Rightarrow> producer \<Rightarrow> nat" where
  "pushed items p = (case p of ToPush i \<Rightarrow> i | ToNotify i \<Rightarrow> Suc i | ToNotifyAll \<Rightarrow> items | ProducerDone \<Rightarrow> items)"

definition owed :: "producer \<Rightarrow> nat" where
  "owed p = (case p of ToNotify i \<Rightarrow> 1 | _ \<Rightarrow> 0)"

text \<open>
  Nothing is lost; whoever sleeps has enough awake or about to be woken for what is queued; after the last notification nobody
  sleeps; and consumers leave only a closed and empty queue.
\<close>

definition qt_inv :: "nat \<Rightarrow> queue_test \<Rightarrow> bool" where
  "qt_inv items s \<longleftrightarrow>
     bq_capacity (qt_queue s) = 0 \<and> pushed items (qt_producer s) \<le> items \<and>
     map snd (qt_log s) @ bq_queue (qt_queue s) = [0..<pushed items (qt_producer s)] \<and>
     (\<forall>(c, v) \<in> set (qt_log s). c < length (qt_consumers s)) \<and>
     (bq_closed (qt_queue s) \<longleftrightarrow> qt_producer s \<in> {ToNotifyAll, ProducerDone}) \<and>
     (Asleep \<in> set (qt_consumers s) \<longrightarrow>
        length (bq_queue (qt_queue s)) \<le> count_list (qt_consumers s) Awake + owed (qt_producer s)) \<and>
     (qt_producer s = ProducerDone \<longrightarrow> Asleep \<notin> set (qt_consumers s)) \<and>
     (Exited \<in> set (qt_consumers s) \<longrightarrow> bq_closed (qt_queue s) \<and> bq_queue (qt_queue s) = [])"

lemma count_list_update:
  "i < length xs \<Longrightarrow> count_list (xs[i := x]) y + (if xs ! i = y then 1 else 0) = count_list xs y + (if x = y then 1 else 0)"
proof (induction xs arbitrary: i)
  case (Cons z xs)
  show ?case
  proof (cases i)
    case (Suc j)
    with Cons.IH [of j] Cons.prems show ?thesis by (cases "z = y") simp_all
  qed simp
qed simp

lemma set_update_member: "x \<in> set (xs[i := y]) \<Longrightarrow> x = y \<or> x \<in> set xs"
  using set_update_subset_insert by fastforce

lemma sleeps_member: "sleeps s c \<Longrightarrow> Asleep \<in> set (qt_consumers s)"
  by (metis sleeps_def nth_mem)

text \<open>Waking a sleeper adds one that is awake, and changes nobody else.\<close>

lemma wake_awake: "sleeps s c \<Longrightarrow> count_list (qt_consumers (wake c s)) Awake = Suc (count_list (qt_consumers s) Awake)"
  using count_list_update [of c "qt_consumers s" Awake Awake] by (simp add: sleeps_def wake_def)

lemma wake_members:
  "Asleep \<in> set (qt_consumers (wake c s)) \<Longrightarrow> Asleep \<in> set (qt_consumers s)"
  "Exited \<in> set (qt_consumers (wake c s)) \<Longrightarrow> Exited \<in> set (qt_consumers s)"
  using set_update_member by (fastforce simp: wake_def)+

lemma wake_keeps [simp]:
  "qt_queue (wake c s) = qt_queue s" "qt_producer (wake c s) = qt_producer s" "qt_log (wake c s) = qt_log s"
  "length (qt_consumers (wake c s)) = length (qt_consumers s)"
  by (simp_all add: wake_def)

lemma spurious_inv:
  assumes "qt_inv items s" "spurious c s = Some s'"
  shows "qt_inv items s'"
proof -
  from assms(2) have c: "sleeps s c" and s': "s' = wake c s" by (auto simp: spurious_def split: if_splits)
  show ?thesis
    using assms(1) sleeps_member [OF c] wake_awake [OF c] wake_members [of c s] by (auto simp: qt_inv_def s')
qed

lemma producer_turn_inv:
  assumes "qt_inv items s" "producer_turn items who s = Some s'"
  shows "qt_inv items s'"
proof (cases "qt_producer s")
  case (ToPush i)
  with assms show ?thesis
    by (auto simp: qt_inv_def pushed_def owed_def push_def Let_def close_queue_def split: if_splits)
next
  case (ToNotify i)
  show ?thesis
  proof (cases who)
    case None
    with assms ToNotify show ?thesis by (auto simp: qt_inv_def pushed_def owed_def split: if_splits)
  next
    case (Some c)
    with assms(2) ToNotify have c: "sleeps s c" and s': "s' = wake c s\<lparr>qt_producer := ToPush (Suc i)\<rparr>" by (auto split: if_splits)
    show ?thesis
      using assms(1) ToNotify sleeps_member [OF c] wake_awake [OF c] wake_members [of c s]
      by (auto simp: qt_inv_def s' pushed_def owed_def)
  qed
next
  case ToNotifyAll
  with assms show ?thesis by (auto simp: qt_inv_def pushed_def owed_def wake_all_def)
qed (use assms in simp)

lemma consumer_turn_inv:
  assumes "qt_inv items s" "consumer_turn c s = Some s'"
  shows "qt_inv items s'"
proof -
  from assms(2) have c: "c < length (qt_consumers s)" "qt_consumers s ! c = Awake" by (auto simp: consumer_turn_def split: if_splits)
  show ?thesis
  proof (cases "bq_queue (qt_queue s)")
    case Nil
    with assms c show ?thesis
      by (auto simp: consumer_turn_def pop_def qt_inv_def dest: set_update_member split: if_splits)
  next
    case (Cons v vs)
    with assms c show ?thesis
      by (auto simp: consumer_turn_def pop_def qt_inv_def)
  qed
qed

lemma queue_test_turn_inv: "qt_inv items s \<Longrightarrow> queue_test_turn items t s = Some s' \<Longrightarrow> qt_inv items s'"
  by (cases t) (auto intro: spurious_inv producer_turn_inv consumer_turn_inv simp del: producer_turn.simps)

lemma queue_test_run_inv: "qt_inv items s \<Longrightarrow> queue_test_run items ts s = Some s' \<Longrightarrow> qt_inv items s'"
  by (induction ts arbitrary: s) (auto simp: bind_eq_Some_conv dest: queue_test_turn_inv)

lemma queue_test_start_inv: "qt_inv items (queue_test_start consumers)"
  by (auto simp: qt_inv_def queue_test_start_def pushed_def new_queue_def)

lemma queue_test_turn_consumers: "queue_test_turn items t s = Some s' \<Longrightarrow> length (qt_consumers s') = length (qt_consumers s)"
  by (cases t) (auto simp: spurious_def consumer_turn_def wake_all_def split: if_splits producer.splits option.splits prod.splits)

lemma queue_test_run_consumers: "queue_test_run items ts s = Some s' \<Longrightarrow> length (qt_consumers s') = length (qt_consumers s)"
  by (induction ts arbitrary: s) (auto simp: bind_eq_Some_conv dest: queue_test_turn_consumers)

section \<open>How long it can go on\<close>

text \<open>What is left to do: every turn uses up some of it, except that a spurious wake-up adds one.\<close>

definition producer_work :: "nat \<Rightarrow> nat \<Rightarrow> producer \<Rightarrow> nat" where
  "producer_work items k p = (case p of
     ToPush i \<Rightarrow> 4 * (items - i) + k + 2 | ToNotify i \<Rightarrow> 4 * (items - i) + k | ToNotifyAll \<Rightarrow> k + 1 | ProducerDone \<Rightarrow> 0)"

definition work :: "nat \<Rightarrow> queue_test \<Rightarrow> nat" where
  "work items s = length (bq_queue (qt_queue s)) + count_list (qt_consumers s) Awake +
     producer_work items (length (qt_consumers s)) (qt_producer s)"

fun is_spurious :: "turn \<Rightarrow> bool" where
  "is_spurious (Spurious c) = True"
| "is_spurious t = False"

lemma producer_turn_work:
  assumes "qt_inv items s" "producer_turn items who s = Some s'"
  shows "work items s' < work items s"
proof (cases "qt_producer s")
  case (ToPush i)
  with assms show ?thesis
    by (auto simp: qt_inv_def pushed_def work_def producer_work_def push_def Let_def close_queue_def split: if_splits)
next
  case (ToNotify i)
  with assms(1) have i: "i < items" by (simp add: qt_inv_def pushed_def)
  with assms ToNotify show ?thesis
    by (cases who) (auto simp: work_def producer_work_def wake_awake split: if_splits)
next
  case ToNotifyAll
  with assms show ?thesis
    using count_le_length [of "map (\<lambda>k. if k = Asleep then Awake else k) (qt_consumers s)" Awake]
    by (auto simp: work_def producer_work_def wake_all_def)
qed (use assms in simp)

lemma consumer_turn_work:
  assumes "consumer_turn c s = Some s'"
  shows "work items s' < work items s"
proof -
  from assms have c: "c < length (qt_consumers s)" "qt_consumers s ! c = Awake" by (auto simp: consumer_turn_def split: if_splits)
  then have "count_list ((qt_consumers s)[c := k]) Awake < count_list (qt_consumers s) Awake" if "k \<noteq> Awake" for k
    using count_list_update [of c "qt_consumers s" k Awake] that by simp
  with assms c show ?thesis
    by (cases "bq_queue (qt_queue s)") (auto simp: consumer_turn_def pop_def work_def split: if_splits)
qed

lemma queue_test_turn_work:
  assumes "qt_inv items s" "queue_test_turn items t s = Some s'"
  shows "work items s' + 1 \<le> work items s + (if is_spurious t then 2 else 0)"
proof (cases t)
  case (Producer who)
  with assms producer_turn_work [OF assms(1)] show ?thesis by (simp add: Suc_le_eq del: producer_turn.simps)
next
  case (Consumer c)
  with assms consumer_turn_work [of c s s' items] show ?thesis by (simp add: Suc_le_eq)
next
  case (Spurious c)
  with assms show ?thesis by (auto simp: spurious_def work_def wake_awake split: if_splits)
qed

lemma queue_test_run_work:
  "qt_inv items s \<Longrightarrow> queue_test_run items ts s = Some s' \<Longrightarrow>
    work items s' + length ts \<le> work items s + 2 * length (filter is_spurious ts)"
proof (induction ts arbitrary: s)
  case (Cons t ts)
  then obtain s1 where s1: "queue_test_turn items t s = Some s1" "queue_test_run items ts s1 = Some s'"
    by (auto simp: bind_eq_Some_conv)
  from Cons.IH [OF queue_test_turn_inv [OF Cons.prems(1) s1(1)] s1(2)] queue_test_turn_work [OF Cons.prems(1) s1(1)]
  show ?case by auto
qed simp

section \<open>Progress\<close>

definition can_move :: "nat \<Rightarrow> queue_test \<Rightarrow> bool" where
  "can_move items s \<longleftrightarrow> (\<exists>t. \<not> is_spurious t \<and> queue_test_turn items t s \<noteq> None)"

lemma producer_moves:
  assumes "qt_producer s \<noteq> ProducerDone"
  shows "\<exists>who. producer_turn items who s \<noteq> None"
proof (cases "Asleep \<in> set (qt_consumers s)")
  case True
  then obtain c where "sleeps s c" by (auto simp: sleeps_def in_set_conv_nth)
  with assms have "producer_turn items (Some c) s \<noteq> None" by (cases "qt_producer s") simp_all
  then show ?thesis ..
next
  case False
  with assms have "producer_turn items None s \<noteq> None" by (cases "qt_producer s") simp_all
  then show ?thesis ..
qed

lemma consumer_moves: "Awake \<in> set (qt_consumers s) \<Longrightarrow> \<exists>c. consumer_turn c s \<noteq> None"
  by (auto simp: consumer_turn_def in_set_conv_nth)

lemma unfinished_moves:
  assumes "qt_inv items s" "\<not> all_joined s"
  shows "can_move items s"
proof (cases "qt_producer s = ProducerDone")
  case True
  with assms obtain k where "k \<in> set (qt_consumers s)" "k \<noteq> Exited" "Asleep \<notin> set (qt_consumers s)"
    by (auto simp: all_joined_def qt_inv_def)
  then have "Awake \<in> set (qt_consumers s)" by (metis consumer.exhaust)
  then obtain c where "queue_test_turn items (Consumer c) s \<noteq> None" using consumer_moves by fastforce
  then show ?thesis unfolding can_move_def by (metis is_spurious.simps(3))
next
  case False
  then obtain who where "queue_test_turn items (Producer who) s \<noteq> None"
    using producer_moves by (fastforce simp del: producer_turn.simps)
  then show ?thesis unfolding can_move_def by (metis is_spurious.simps(2))
qed

lemma joined_stuck:
  assumes "all_joined s"
  shows "\<not> can_move items s"
proof -
  have "is_spurious t \<or> queue_test_turn items t s = None" for t
  proof (cases t)
    case (Consumer c)
    then have "qt_consumers s ! c = Exited" if "c < length (qt_consumers s)" using assms that nth_mem by (fastforce simp: all_joined_def)
    with Consumer show ?thesis by (auto simp: consumer_turn_def)
  qed (use assms in \<open>simp_all add: all_joined_def\<close>)
  then show ?thesis by (auto simp: can_move_def)
qed

text \<open>Once all threads have been joined, everything has been taken.\<close>

lemma joined_all_taken:
  assumes "qt_inv items s" "all_joined s" "qt_consumers s \<noteq> []"
  shows "bq_queue (qt_queue s) = []" "map snd (qt_log s) = [0..<items]"
proof -
  from assms(2,3) have "Exited \<in> set (qt_consumers s)" "qt_producer s = ProducerDone"
    by (cases "qt_consumers s"; simp add: all_joined_def)+
  with assms(1) show "bq_queue (qt_queue s) = []" "map snd (qt_log s) = [0..<items]" by (auto simp: qt_inv_def pushed_def)
qed

lemma sorted_wrt_filter_map: "sorted_wrt r (map f xs) \<Longrightarrow> sorted_wrt r (map f (filter P xs))"
  by (simp add: sorted_wrt_map sorted_wrt_filter)

lemma some_awake: "n \<le> count_list xs x \<Longrightarrow> 0 < n \<Longrightarrow> x \<in> set xs"
  by (metis count_notin not_le)

section \<open>Properties\<close>

text \<open>
  C13: No wake-up is lost. After any history of the program, with spurious wake-ups or without: while there is something in the queue and a
  consumer sleeps, another is awake or the producer has yet to notify for its last push; once the producer is done nobody sleeps; and
  unless all threads can be joined, some thread can go on by itself.
\<close>

theorem no_lost_wakeup:
  assumes "queue_test_run items ts (queue_test_start consumers) = Some s"
  shows "(sleeps s c \<and> bq_queue (qt_queue s) \<noteq> [] \<longrightarrow>
      Awake \<in> set (qt_consumers s) \<or> (\<exists>i. qt_producer s = ToNotify i)) \<and>
    (qt_producer s = ProducerDone \<longrightarrow> \<not> sleeps s c) \<and>
    (all_joined s \<or> can_move items s)"
proof -
  have inv: "qt_inv items s" using queue_test_run_inv [OF queue_test_start_inv assms] .
  then have "Awake \<in> set (qt_consumers s) \<or> (\<exists>i. qt_producer s = ToNotify i)" if "sleeps s c" "bq_queue (qt_queue s) \<noteq> []"
    using that sleeps_member [OF that(1)] some_awake [of "length (bq_queue (qt_queue s))" "qt_consumers s" Awake]
    by (cases "qt_producer s") (auto simp: qt_inv_def owed_def)
  moreover have "\<not> sleeps s c" if "qt_producer s = ProducerDone"
    using inv that sleeps_member by (auto simp: qt_inv_def)
  ultimately show ?thesis using unfinished_moves [OF inv] by blast
qed

definition two_asleep :: "turn list" where
  "two_asleep = [Consumer 0, Consumer 1, Producer None, Producer (Some 1)]"

lemma two_asleep_run:
  "queue_test_run 2 two_asleep (queue_test_start 2) =
     Some \<lparr>qt_queue = snd (push (new_queue 0) 0), qt_producer = ToPush 1, qt_consumers = [Asleep, Awake], qt_log = []\<rparr>"
  by (simp add: two_asleep_def queue_test_start_def consumer_turn_def pop_def new_queue_def push_def Let_def numeral_2_eq_2 wake_def
      sleeps_def)

theorem no_lost_wakeup_witness:
  "\<exists>s. queue_test_run 2 two_asleep (queue_test_start 2) = Some s \<and> sleeps s 0 \<and> bq_queue (qt_queue s) = [0] \<and>
     (Awake \<in> set (qt_consumers s) \<or> (\<exists>i. qt_producer s = ToNotify i)) \<and> can_move 2 s"
  using no_lost_wakeup [OF two_asleep_run, of 0] two_asleep_run
  by (simp add: sleeps_def push_def new_queue_def all_joined_def)

text \<open>
  C39: The program ends with its work done. A history has at most \<open>4 * items + 2 * consumers + 2\<close> turns and two more for every
  spurious wake-up in it; where no thread can go on by itself all threads have ended, \<open>main\<close> prints the size 0, every number has
  been taken exactly once and in order, and what each single consumer got is in order.
\<close>

theorem queue_test_completes:
  assumes "queue_test_run items ts (queue_test_start consumers) = Some s" "0 < consumers"
  shows "length ts \<le> 4 * items + 2 * consumers + 2 + 2 * length (filter is_spurious ts) \<and>
    (\<not> can_move items s \<longrightarrow> final_size s = Some 0 \<and> map snd (qt_log s) = [0..<items] \<and>
       sorted_wrt (<) (map snd (filter (\<lambda>x. fst x = c) (qt_log s))))"
proof -
  have inv: "qt_inv items s" using queue_test_run_inv [OF queue_test_start_inv assms(1)] .
  have "length (qt_consumers s) = consumers" using queue_test_run_consumers [OF assms(1)] by (simp add: queue_test_start_def)
  with assms(2) have k: "qt_consumers s \<noteq> []" by auto
  have "count_list (replicate n Awake) Awake = n" for n by (induction n) simp_all
  then have "work items (queue_test_start consumers) = 4 * items + 2 * consumers + 2"
    by (simp add: work_def producer_work_def queue_test_start_def new_queue_def)
  with queue_test_run_work [OF queue_test_start_inv assms(1)]
  have "length ts \<le> 4 * items + 2 * consumers + 2 + 2 * length (filter is_spurious ts)" by simp
  moreover have "final_size s = Some 0 \<and> map snd (qt_log s) = [0..<items] \<and>
      sorted_wrt (<) (map snd (filter (\<lambda>x. fst x = c) (qt_log s)))" if "\<not> can_move items s"
  proof -
    from that unfinished_moves [OF inv] have j: "all_joined s" by blast
    from joined_all_taken [OF inv j k] show ?thesis
      using j sorted_wrt_filter_map [of "(<)" snd "qt_log s" "\<lambda>x. fst x = c"]
      by (simp add: final_size_def queue_size_def)
  qed
  ultimately show ?thesis by blast
qed

text \<open>A sleeper wakes for no reason and takes the item before the one that is notified for it.\<close>

definition one_item :: "turn list" where
  "one_item = [Consumer 0, Consumer 1, Producer None, Spurious 0, Consumer 0, Producer (Some 1), Consumer 1, Consumer 0,
     Producer None, Producer None, Consumer 0, Consumer 1]"

lemma one_item_run:
  "queue_test_run 1 one_item (queue_test_start 2) =
     Some \<lparr>qt_queue = close_queue (new_queue 0), qt_producer = ProducerDone, qt_consumers = [Exited, Exited], qt_log = [(0, 0)]\<rparr>"
  by (simp add: one_item_def queue_test_start_def consumer_turn_def pop_def new_queue_def push_def Let_def numeral_2_eq_2 wake_def wake_all_def
      sleeps_def spurious_def close_queue_def)

theorem queue_test_completes_witness:
  "\<exists>s. queue_test_run 1 one_item (queue_test_start 2) = Some s \<and> length one_item \<le> 12 \<and>
     final_size s = Some 0 \<and> map snd (qt_log s) = [0]"
proof -
  let ?s = "\<lparr>qt_queue = close_queue (new_queue 0), qt_producer = ProducerDone, qt_consumers = [Exited, Exited], qt_log = [(0, 0)]\<rparr>"
  have "\<not> can_move 1 ?s" by (rule joined_stuck) (simp add: all_joined_def)
  with queue_test_completes [OF one_item_run, of 0] one_item_run show ?thesis by (auto simp: one_item_def)
qed

end
