(* ===== verification/Demos.thy ===== *)
theory Demos
  imports Network_Shm Queue_Test
begin

text \<open>
  The demonstrations under examples/ that run a node: \<open>intra_process_demo\<close>, one publisher and two subscribers in one process, and the pairs of a
  talker and a listener in two processes (\<open>tcp_pubsub_demo\<close>, \<open>shm_pubsub_demo\<close>, \<open>qos_demo\<close>). The text of a \<open>StringMsg\<close> stands for the message;
  its type name, serialisation and parsing are arguments. Sleeping is not modelled; where threads run in between, the turns they
  take are arguments.
\<close>

section \<open>One process\<close>

text \<open>Turns of the subscribers' workers, in the order they are scheduled.\<close>

definition worker_turns :: "(bytes \<Rightarrow> 'm option) \<Rightarrow> sink_id list \<Rightarrow> (sink_id \<Rightarrow> 'm subscriber) \<Rightarrow> sink_id \<Rightarrow> 'm subscriber" where
  "worker_turns parse ss subs = foldl (\<lambda>subs s. subs(s := snd (sub_turn parse (subs s)))) subs ss"

definition hello :: "nat \<Rightarrow> string" where
  "hello i = ''hello '' @ to_string i"

text \<open>The loop of \<open>main\<close>; \<open>turns i\<close> are the workers' turns from the \<open>i\<close>-th publication to the next.\<close>

fun hello_loop :: "(string \<Rightarrow> bytes option) \<Rightarrow> (bytes \<Rightarrow> string option) \<Rightarrow> publisher \<Rightarrow> (nat \<Rightarrow> sink_id list) \<Rightarrow> nat list \<Rightarrow>
    local_bus \<times> (sink_id \<Rightarrow> string subscriber) \<Rightarrow> local_bus \<times> (sink_id \<Rightarrow> string subscriber)" where
  "hello_loop ser parse pub turns [] (bus, subs) = (bus, subs)"
| "hello_loop ser parse pub turns (i # is) (bus, subs) =
     (let (ok, ds, bus) = publish ser (\<lambda>_. True) pub (hello i) bus
      in hello_loop ser parse pub turns is (bus, worker_turns parse (turns i) (enqueue_all ds subs)))"

text \<open>At the end the node is destroyed and with it the two subscribers; the result is what their destructors leave.\<close>

definition intra_process_demo :: "(string \<Rightarrow> bytes option) \<Rightarrow> (bytes \<Rightarrow> string option) \<Rightarrow> string \<Rightarrow> (nat \<Rightarrow> sink_id list) \<Rightarrow> node_env \<Rightarrow>
    (worker \<times> string subscriber) \<times> (worker \<times> string subscriber)" where
  "intra_process_demo ser parse type_name turns env =
     (let n = (make_node ''demo_node'' default_options env :: unit node);
          ((s1, sub1), n) = node_create_subscriber ''/chatter'' type_name default_qos n;
          ((s2, sub2), n) = node_create_subscriber ''/chatter'' type_name default_qos n;
          (pub, n) = node_create_publisher ''/chatter'' type_name default_qos n;
          (bus, subs) = hello_loop ser parse pub turns [0..<5] (pl_bus (nd_plane n), \<lambda>s. if s = s1 then sub1 else sub2)
      in (sub_destroy parse (subs s1), sub_destroy parse (subs s2)))"

section \<open>Nothing is dropped below the depth\<close>

text \<open>What a subscriber has handled and what waits for it, decoded, as long as its queue has never been full.\<close>

definition has_seen :: "(bytes \<Rightarrow> 'm option) \<Rightarrow> 'm list \<Rightarrow> 'm subscriber \<Rightarrow> bool" where
  "has_seen parse ms s \<longleftrightarrow> \<not> bq_closed (sub_queue s) \<and> length (bq_queue (sub_queue s)) \<le> length ms \<and>
     sub_calls s @ List.map_filter parse (bq_queue (sub_queue s)) = ms"

lemma has_seen_enqueue:
  assumes "has_seen parse ms s" "length ms < bq_capacity (sub_queue s)" "parse bs = Some m"
  shows "has_seen parse (ms @ [m]) (sub_enqueue bs s)"
  using assms by (auto simp: has_seen_def sub_enqueue_def push_def Let_def List.map_filter_def)

lemma has_seen_turn:
  "has_seen parse ms s \<Longrightarrow> has_seen parse ms (snd (sub_turn parse s))"
  "bq_capacity (sub_queue (snd (sub_turn parse s))) = bq_capacity (sub_queue s)"
  by (cases "bq_queue (sub_queue s)";
      auto simp: has_seen_def sub_turn_def pop_def List.map_filter_def split: option.splits if_splits)+

lemma has_seen_turns: "has_seen parse ms (subs s) \<Longrightarrow> has_seen parse ms (worker_turns parse ss subs s)"
  unfolding worker_turns_def
proof (induction ss arbitrary: subs)
  case (Cons a ss)
  from Cons.prems have "has_seen parse ms ((subs(a := snd (sub_turn parse (subs a)))) s)" by (auto simp: has_seen_turn(1))
  then show ?case unfolding foldl_Cons by (rule Cons.IH)
qed simp

lemma worker_turns_capacity: "bq_capacity (sub_queue (worker_turns parse ss subs s)) = bq_capacity (sub_queue (subs s))"
  unfolding worker_turns_def by (induction ss arbitrary: subs) (simp_all add: has_seen_turn(2))

lemma has_seen_destroy:
  assumes "has_seen parse ms s"
  shows "fst (sub_destroy parse s) = Ended" "sub_calls (snd (sub_destroy parse s)) = ms"
  using assms by (simp_all add: has_seen_def sub_destroy_def sub_run_drains close_queue_def)

lemma enqueue_capacity [simp]: "bq_capacity (sub_queue (sub_enqueue bs s)) = bq_capacity (sub_queue s)"
  by (simp add: sub_enqueue_def)

lemma hello_loop_seen:
  assumes "hello_loop ser parse pub turns is (bus, subs) = (bus', subs')"
    and "bus (pub_topic pub) = Some \<lparr>te_type = pub_type pub, te_sinks = ss, te_remote_sinks = []\<rparr>" "count_list ss s = 1"
    and "\<forall>i \<in> set is. ser (hello i) = Some (enc i) \<and> parse (enc i) = Some (hello i)"
    and "has_seen parse ms (subs s)" "length ms + length is \<le> bq_capacity (sub_queue (subs s))"
  shows "has_seen parse (ms @ map hello is) (subs' s)"
  using assms
proof (induction "is" arbitrary: bus subs ms)
  case (Cons i "is")
  let ?ds = "map (\<lambda>t. (t, enc i)) ss"
  have b: "bus_publish (\<lambda>_. True) bus (pub_topic pub) (pub_type pub) =
      (ss, bus(pub_topic pub \<mapsto> \<lparr>te_type = pub_type pub, te_sinks = ss, te_remote_sinks = []\<rparr>))"
    using Cons.prems(2) by (simp add: bus_publish_def check_type_def Let_def)
  have e: "enqueue_all ?ds subs s = sub_enqueue (enc i) (subs s)" using Cons.prems(3) by (simp add: enqueue_all_at)
  have r: "hello_loop ser parse pub turns is
      (bus(pub_topic pub \<mapsto> \<lparr>te_type = pub_type pub, te_sinks = ss, te_remote_sinks = []\<rparr>), worker_turns parse (turns i) (enqueue_all ?ds subs)) = (bus', subs')"
    using Cons.prems(1,4) b by (simp add: publish_def)
  have "has_seen parse ((ms @ [hello i]) @ map hello is) (subs' s)"
    by (rule Cons.IH [OF r])
      (use Cons.prems(3-6) e in \<open>simp_all add: has_seen_turns worker_turns_capacity has_seen_enqueue\<close>)
  then show ?case by simp
qed simp

text \<open>The endpoints of the demonstration on its bus.\<close>

lemmas factory_defs = node_create_subscriber_def node_create_publisher_def fresh_sink_def set_bus_def register_def add_entity_def
  create_publisher_def bus_defs

lemma chatter_bus:
  fixes n :: "'r node"
  assumes "n = make_node name options env"
    and "node_create_subscriber topic type_name q n = ((s1, sub1), n1)" "node_create_subscriber topic type_name q n1 = ((s2, sub2), n2)"
    and "node_create_publisher topic type_name q n2 = (pub, n3)"
  shows "s1 = 0" "s2 = 1" "sub1 = new_subscriber topic q" "sub2 = new_subscriber topic q"
    "pub = \<lparr>pub_topic = topic, pub_type = type_name, pub_qos = q\<rparr>"
    "pl_bus (nd_plane n3) = (Map.empty)(topic \<mapsto> \<lparr>te_type = type_name, te_sinks = [0, 1], te_remote_sinks = []\<rparr>)"
proof -
  have n: "dp_next_sink (pl_dp (nd_plane n)) = 0" "pl_bus (nd_plane n) = Map.empty"
    by (simp_all add: assms(1) make_node_def Let_def dp_start_def new_data_plane_def set_local_identity_def split: option.splits)
  show "s1 = 0" "s2 = 1" "sub1 = new_subscriber topic q" "sub2 = new_subscriber topic q"
    "pub = \<lparr>pub_topic = topic, pub_type = type_name, pub_qos = q\<rparr>"
    "pl_bus (nd_plane n3) = (Map.empty)(topic \<mapsto> \<lparr>te_type = type_name, te_sinks = [0, 1], te_remote_sinks = []\<rparr>)"
    using assms(2-4) n by (auto simp: factory_defs Let_def)
qed

text \<open>
  Publishing inside one process loses nothing, whatever the scheduling: in \<open>intra_process_demo\<close> each of the two subscribers has handled exactly
  the five messages, in order, when it is destroyed, whenever its worker runs before that (even never: the pause at the end of
  \<open>main\<close> is not needed).
\<close>

theorem intra_process_demo_delivers:
  assumes "\<forall>i < 5. ser (hello i) = Some (enc i) \<and> parse (enc i) = Some (hello i)"
  shows "\<exists>r1 r2. intra_process_demo ser parse type_name turns env = ((Ended, r1), (Ended, r2)) \<and>
    sub_calls r1 = map hello [0..<5] \<and> sub_calls r2 = map hello [0..<5]"
proof -
  define n :: "unit node" where "n = make_node ''demo_node'' default_options env"
  obtain s1 sub1 n1 where n1: "node_create_subscriber ''/chatter'' type_name default_qos n = ((s1, sub1 :: string subscriber), n1)" by (metis prod.exhaust)
  obtain s2 sub2 n2 where n2: "node_create_subscriber ''/chatter'' type_name default_qos n1 = ((s2, sub2 :: string subscriber), n2)" by (metis prod.exhaust)
  obtain pub n3 where n3: "node_create_publisher ''/chatter'' type_name default_qos n2 = (pub, n3)" by (metis prod.exhaust)
  obtain bus subs where l: "hello_loop ser parse pub turns [0..<5] (pl_bus (nd_plane n3), \<lambda>s. if s = s1 then sub1 else sub2) = (bus, subs)"
    by (metis prod.exhaust)
  note e = chatter_bus [OF n_def n1 n2 n3]
  have seen: "has_seen parse ([] @ map hello [0..<5]) (subs s)" if "s = s1 \<or> s = s2" for s
  proof (rule hello_loop_seen [OF l])
    show "pl_bus (nd_plane n3) (pub_topic pub) = Some \<lparr>te_type = pub_type pub, te_sinks = [0, 1], te_remote_sinks = []\<rparr>" by (simp add: e)
    show "count_list [0, 1] s = 1" using that by (auto simp: e)
    show "\<forall>i \<in> set [0..<5]. ser (hello i) = Some (enc i) \<and> parse (enc i) = Some (hello i)" using assms by simp
  qed (simp_all add: e has_seen_def new_subscriber_def new_queue_def queue_bound_def default_qos_def List.map_filter_def)
  have "intra_process_demo ser parse type_name turns env = (sub_destroy parse (subs s1), sub_destroy parse (subs s2))"
    unfolding intra_process_demo_def Let_def n_def [symmetric] n1 n2 n3 l prod.case ..
  then show ?thesis using has_seen_destroy [OF seen [of s1]] has_seen_destroy [OF seen [of s2]] unfolding append_Nil
    by (metis prod.collapse)
qed

theorem intra_process_demo_delivers_witness:
  "\<exists>r1 r2. intra_process_demo Some Some ''mm.StringMsg'' (\<lambda>i. if i = 2 then [0, 0] else []) env_x = ((Ended, r1), (Ended, r2)) \<and>
     sub_calls r1 = [''hello 0'', ''hello 1'', ''hello 2'', ''hello 3'', ''hello 4'']"
proof -
  have "map hello [0..<5] = [''hello 0'', ''hello 1'', ''hello 2'', ''hello 3'', ''hello 4'']"
    by code_simp
  with intra_process_demo_delivers [of Some hello Some] show ?thesis by metis
qed

section \<open>Two processes\<close>

text \<open>
  The mains of the three pairs up to their endless loops, as events of the network for the process that becomes its \<open>i\<close>-th node: the arguments choose
  the role, which is the node's name, and with it the endpoint. Arguments are \<open>argv\<close> without the program's name.
\<close>

definition demo_role :: "string list \<Rightarrow> string" where
  "demo_role args = (case args of [] \<Rightarrow> ''talker'' | a # _ \<Rightarrow> a)"

definition demo_endpoint :: "string \<Rightarrow> string \<Rightarrow> string \<Rightarrow> qos \<Rightarrow> node_op" where
  "demo_endpoint role topic type_name q =
     (if role = ''listener'' then CreateSubscriber topic type_name q else CreatePublisher topic type_name q)"

definition tcp_pubsub_demo :: "nat \<Rightarrow> string \<Rightarrow> string list \<Rightarrow> node_env \<Rightarrow> net_event list" where
  "tcp_pubsub_demo i type_name args env =
     [Join (demo_role args) default_options env, Act i (demo_endpoint (demo_role args) ''/chatter'' type_name default_qos)]"

definition shm_pubsub_demo :: "nat \<Rightarrow> string \<Rightarrow> string list \<Rightarrow> node_env \<Rightarrow> net_event list" where
  "shm_pubsub_demo i type_name args env =
     [Join (demo_role args) default_options env, Act i (demo_endpoint (demo_role args) ''/chatter'' type_name default_qos)]"

definition demo_reliable :: "string list \<Rightarrow> bool" where
  "demo_reliable args \<longleftrightarrow> length args > 1 \<and> args ! 1 = ''reliable''"

definition qos_demo_qos :: "bool \<Rightarrow> qos" where
  "qos_demo_qos reliable = \<lparr>qos_reliability = (if reliable then RELIABLE else BEST_EFFORT), qos_history = KEEP_LAST, qos_depth = 8\<rparr>"

definition qos_demo :: "nat \<Rightarrow> string \<Rightarrow> string list \<Rightarrow> node_env \<Rightarrow> net_event list" where
  "qos_demo i type_name args env =
     [Join (demo_role args) default_options env,
      Act i (demo_endpoint (demo_role args) ''/qos_chatter'' type_name (qos_demo_qos (demo_reliable args)))]"

text \<open>The mode that \<open>qos_demo\<close> prints at its start.\<close>

definition qos_demo_mode :: "string list \<Rightarrow> string" where
  "qos_demo_mode args = (if demo_reliable args then ''RELIABLE(TCP)'' else ''BEST_EFFORT(SHM if same host)'')"

definition string_msg :: string where
  "string_msg = ''mm.StringMsg''"

text \<open>What a listener prints for a message, and the first \<open>k\<close> turns of a talker's loop: what it prints and what it hands to the sinks.\<close>

definition listener_line :: "string \<Rightarrow> string" where
  "listener_line m = ''[listener] recv: '' @ m"

definition numbered :: "nat \<Rightarrow> string" where
  "numbered n = ''msg #'' @ to_string n"

fun talker_loop :: "(string \<Rightarrow> bytes option) \<Rightarrow> (sink_id \<Rightarrow> bool) \<Rightarrow> publisher \<Rightarrow> nat \<Rightarrow> nat \<Rightarrow> local_bus \<Rightarrow>
    string list \<times> (sink_id \<times> bytes) list \<times> local_bus" where
  "talker_loop ser alive pub 0 n bus = ([], [], bus)"
| "talker_loop ser alive pub (Suc k) n bus =
     (let (ok, ds, bus) = publish ser alive pub (numbered n) bus; (ls, ds', bus) = talker_loop ser alive pub k (Suc n) bus
      in ((''[talker] sent: '' @ numbered n) # ls, ds @ ds', bus))"

text \<open>
  Every live sink on the topic gets the numbered messages in order, each once for each of its registrations. (The lines do not depend on it.)
\<close>

lemma filter_replicates: "filter (\<lambda>x. x = s) xs = replicate (count_list xs s) s"
  by (induction xs) simp_all

lemma talker_loop_sends:
  assumes "bus (pub_topic pub) = Some e" "te_type e = pub_type pub" "alive s" "\<And>i. ser (numbered i) = Some (enc i)"
    and "count_list (te_sinks e @ te_remote_sinks e) s = 1" "talker_loop ser alive pub k n bus = (ls, ds, bus')"
  shows "map snd (filter (\<lambda>d. fst d = s) ds) = map enc [n..<n + k]" "ls = map (\<lambda>i. ''[talker] sent: '' @ numbered i) [n..<n + k]"
proof -
  have "map snd (filter (\<lambda>d. fst d = s) ds) = map enc [n..<n + k] \<and> ls = map (\<lambda>i. ''[talker] sent: '' @ numbered i) [n..<n + k]"
    using assms
  proof (induction k arbitrary: n bus e ls ds bus')
    case (Suc k)
    let ?p = "bus_publish alive bus (pub_topic pub) (pub_type pub)"
    note t = bus_publish_targets [of bus "pub_topic pub" e "pub_type pub" alive]
    from t(2) Suc.prems(1,2) obtain e' where e': "snd ?p (pub_topic pub) = Some e'" "te_type e' = pub_type pub"
      "te_sinks e' = filter alive (te_sinks e)" "te_remote_sinks e' = filter alive (te_remote_sinks e)" by auto
    have c: "count_list (fst ?p) s = 1" using t(1) Suc.prems(1-3,5) by (simp add: count_filter_alive)
    obtain ls1 ds1 bus1 where r: "talker_loop ser alive pub k (Suc n) (snd ?p) = (ls1, ds1, bus1)" by (metis prod.exhaust)
    have "count_list (te_sinks e' @ te_remote_sinks e') s = 1" using Suc.prems(3,5) e' by (simp add: count_filter_alive)
    note ih = Suc.IH [OF e'(1,2) Suc.prems(3,4) this r]
    have "filter (\<lambda>d. fst d = s) (map (\<lambda>t. (t, enc n)) (fst ?p)) = map (\<lambda>t. (t, enc n)) (filter (\<lambda>x. x = s) (fst ?p))"
      by (simp add: filter_map comp_def)
    then have f: "filter (\<lambda>d. fst d = s) (map (\<lambda>t. (t, enc n)) (fst ?p)) = [(s, enc n)]" using c by (simp add: filter_replicates)
    have "ds = map (\<lambda>t. (t, enc n)) (fst ?p) @ ds1" "ls = (''[talker] sent: '' @ numbered n) # ls1"
      using Suc.prems(4,6) r by (simp_all add: publish_def split_beta)
    with f ih show ?case by (simp add: upt_conv_Cons del: upt.simps)
  qed simp
  then show "map snd (filter (\<lambda>d. fst d = s) ds) = map enc [n..<n + k]" "ls = map (\<lambda>i. ''[talker] sent: '' @ numbered i) [n..<n + k]"
    by simp_all
qed

text \<open>Both processes run on one host, announce themselves and hear each other.\<close>

definition on_one_host :: "(nat \<Rightarrow> node_env \<Rightarrow> net_event list) \<Rightarrow> (nat \<Rightarrow> node_env \<Rightarrow> net_event list) \<Rightarrow> unit network option" where
  "on_one_host talker listener = net_run (\<lambda>i j. CHR ''x'')
     (talker 0 (env_at 1 4001) @ listener 1 (env_at 2 4002) @ [Say 0, Hear 1 10 0, Say 1, Hear 0 10 1]) (empty_network (\<lambda>_. no_shm))"

text \<open>What carries a topic from one node to the other: a segment that the other reads, or a connection.\<close>

definition linked_by_shm :: "'r node \<Rightarrow> 'r node \<Rightarrow> string \<Rightarrow> bool" where
  "linked_by_shm a b t \<longleftrightarrow> (\<exists>p rm. sm_find (dp_shm_pub (pl_dp (nd_plane a))) t = Some p \<and> dp_readers (pl_dp (nd_plane b)) = Some rm \<and>
     sg_name (sp_seg p) \<in> fst ` set (rm_readers rm))"

definition linked_by_tcp :: "'r node \<Rightarrow> string \<Rightarrow> bool" where
  "linked_by_tcp a t \<longleftrightarrow> (\<exists>k r. dp_sinks (pl_dp (nd_plane a)) k = Some r \<and> rs_topic r = t)"

definition mode_args :: "string \<Rightarrow> bool \<Rightarrow> string list" where
  "mode_args role reliable = role # (if reliable then [''reliable''] else [])"

lemmas demo_eval = string_msg_def on_one_host_def tcp_pubsub_demo_def shm_pubsub_demo_def qos_demo_def qos_demo_qos_def demo_endpoint_def demo_role_def
  demo_reliable_def mode_args_def linked_by_shm_def linked_by_tcp_def net_eval match_key_def shm_pub_match_def shm_sub_match_def
  add_reader_def segment_create_def shm_open_create_def all_ok_def no_shm_def

text \<open>
  What \<open>qos_demo\<close> shows on one host. A reliable talker and listener are linked by TCP, best-effort ones by shared memory, and a best-effort
  talker and a reliable listener not at all, as its comments say. A reliable talker and a best-effort listener are linked by
  shared memory, although the talker says it is using TCP.
\<close>

theorem qos_demo_links:
  "\<exists>N T L. on_one_host (\<lambda>i. qos_demo i string_msg (mode_args ''talker'' rt)) (\<lambda>i. qos_demo i string_msg (mode_args ''listener'' rl)) = Some N \<and>
     nw_nodes N = [T, L] \<and> linked_by_shm T L ''/qos_chatter'' = (\<not> rl) \<and> linked_by_tcp T ''/qos_chatter'' = (rl \<and> rt) \<and>
     qos_demo_mode (mode_args ''talker'' rt) = (if rt then ''RELIABLE(TCP)'' else ''BEST_EFFORT(SHM if same host)'')"
  by (cases rt; cases rl) (simp_all add: demo_eval qos_demo_mode_def)

text \<open>\<open>tcp_pubsub_demo\<close> and \<open>shm_pubsub_demo\<close> do the same: on one host both use shared memory and no TCP.\<close>

theorem tcp_demo_uses_shm:
  "\<exists>N T L. on_one_host (\<lambda>i. tcp_pubsub_demo i string_msg [''talker'']) (\<lambda>i. tcp_pubsub_demo i string_msg [''listener'']) = Some N \<and>
     nw_nodes N = [T, L] \<and> linked_by_shm T L ''/chatter'' \<and> \<not> linked_by_tcp T ''/chatter'' \<and>
     on_one_host (\<lambda>i. shm_pubsub_demo i string_msg [''talker'']) (\<lambda>i. shm_pubsub_demo i string_msg [''listener'']) = Some N"
  by (simp add: demo_eval)

section \<open>A callback of one's own\<close>

text \<open>
  \<open>discovery_demo\<close> sets a callback for matches on the agent of its node. The agent has one such callback, so this replaces the one by which the
  constructor of \<open>Node\<close> had connected the data plane (core/src/node.cpp, line 40); that for lost matches stays.
\<close>

definition match_line :: "match_info \<Rightarrow> string" where
  "match_line m = ''MATCH: local(kind='' @ to_string (kind_nat (ep_kind (mi_local m))) @ '',topic='' @ ep_topic (mi_local m) @
     '') <-> remote(kind='' @ to_string (kind_nat (ep_kind (mi_remote m))) @ '',topic='' @ ep_topic (mi_remote m) @ '') @ '' @
     loc_ip (mi_locator m) @ '':'' @ to_string (unat (loc_port (mi_locator m))) @ '' pid='' @ to_string (unat (mi_pid m))"

fun demo_callbacks :: "match_event list \<Rightarrow> string list \<times> plane \<Rightarrow> (string list \<times> plane) option" where
  "demo_callbacks [] (ls, w) = Some (ls, w)"
| "demo_callbacks (OnMatch m # evs) (ls, w) = demo_callbacks evs (ls @ [match_line m], w)"
| "demo_callbacks (OnUnmatch m # evs) (ls, w) = Option.bind (handle_unmatch m w) (\<lambda>w. demo_callbacks evs (ls, w))"

definition demo_discovery_role :: "string list \<Rightarrow> string" where
  "demo_discovery_role args = (case args of [] \<Rightarrow> ''pub'' | a # _ \<Rightarrow> a)"

definition discovery_demo :: "string list \<Rightarrow> node_env \<Rightarrow> 'r node" where
  "discovery_demo args env =
     (let role = demo_discovery_role args; n = make_node (''discovery_demo_'' @ role) default_options env;
          n = n\<lparr>nd_agent := on_match (nd_agent n)\<rparr>
      in if role = ''pub'' then snd (node_create_publisher ''/chatter'' string_msg default_qos n)
         else snd (node_create_subscriber ''/chatter'' string_msg default_qos n :: (sink_id \<times> bytes subscriber) \<times> 'r node))"

text \<open>A turn of the discovery thread of this node: what is printed, and the node after it.\<close>

definition demo_discovery_step :: "agent_op \<Rightarrow> string list \<times> 'r node \<Rightarrow> (string list \<times> 'r node) option" where
  "demo_discovery_step op x =
     (case x of (ls, n) \<Rightarrow>
        if \<not> ag_running (nd_agent n) then Some (ls, n)
        else
          (case agent_step op (nd_agent n) of
             (evs, a) \<Rightarrow> map_option (\<lambda>(ls, w). (ls, n\<lparr>nd_agent := a, nd_plane := w\<rparr>)) (demo_callbacks evs (ls, nd_plane n))))"

fun demo_discovery_run :: "agent_op list \<Rightarrow> string list \<times> 'r node \<Rightarrow> (string list \<times> 'r node) option" where
  "demo_discovery_run [] x = Some x"
| "demo_discovery_run (op # ops) x = Option.bind (demo_discovery_step op x) (demo_discovery_run ops)"

text \<open>A data plane without channels; losing a match changes nothing in it.\<close>

definition no_channels :: "plane \<Rightarrow> bool" where
  "no_channels w \<longleftrightarrow> (\<forall>k. dp_sinks (pl_dp w) k = None) \<and> dp_shm_pub (pl_dp w) = [] \<and> (\<forall>k. dp_shm_sub_ref (pl_dp w) k = None) \<and>
     dp_connections (pl_dp w) = []"

lemma no_channels_unmatch: "no_channels w \<Longrightarrow> handle_unmatch m w = Some w"
  by (simp add: no_channels_def handle_unmatch_def tcp_pub_unmatch_def shm_pub_unmatch_def shm_sub_unmatch_def Let_def)

lemma demo_callbacks_inert:
  "no_channels w \<Longrightarrow> demo_callbacks evs (ls, w) =
     Some (ls @ List.map_filter (\<lambda>e. case e of OnMatch m \<Rightarrow> Some (match_line m) | OnUnmatch m \<Rightarrow> None) evs, w)"
proof (induction evs arbitrary: ls)
  case (Cons e evs)
  then show ?case by (cases e) (simp_all add: no_channels_unmatch List.map_filter_def)
qed (simp add: List.map_filter_def)

lemma demo_discovery_step_inert:
  assumes "no_channels (nd_plane n)"
  shows "\<exists>ls' n'. demo_discovery_step op (ls, n) = Some (ls', n') \<and> nd_plane n' = nd_plane n \<and> nd_entities n' = nd_entities n \<and>
    (ag_running (nd_agent n) \<longrightarrow> nd_agent n' = snd (agent_step op (nd_agent n)) \<and>
       (\<forall>m. OnMatch m \<in> set (fst (agent_step op (nd_agent n))) \<longrightarrow> match_line m \<in> set ls'))"
proof (cases "ag_running (nd_agent n)")
  case True
  obtain evs a where "agent_step op (nd_agent n) = (evs, a)" by (cases "agent_step op (nd_agent n)")
  with True assms show ?thesis
    by (auto simp: demo_discovery_step_def demo_callbacks_inert List.map_filter_def image_iff split: match_event.splits)
qed (simp add: demo_discovery_step_def)

lemma demo_discovery_run_inert:
  "no_channels (nd_plane n) \<Longrightarrow> \<exists>ls' n'. demo_discovery_run ops (ls, n) = Some (ls', n') \<and> nd_plane n' = nd_plane n"
proof (induction ops arbitrary: ls n)
  case (Cons op ops)
  obtain ls1 n1 where s: "demo_discovery_step op (ls, n) = Some (ls1, n1)" "nd_plane n1 = nd_plane n"
    using demo_discovery_step_inert [OF Cons.prems] by blast
  with Cons.IH [of n1 ls1] Cons.prems show ?case by auto
qed simp

lemma discovery_demo_no_channels: "no_channels (nd_plane (discovery_demo args env))"
  by (simp add: no_channels_def discovery_demo_def factory_defs make_node_def dp_start_def new_data_plane_def set_local_identity_def
      split: option.splits)


definition heard_chatter :: announcement where
  "heard_chatter = \<lparr>an_pid = 2, an_node = ''b'', an_locator = \<lparr>loc_ip = ''127.0.0.1'', loc_port = 4002\<rparr>,
     an_endpoints = [\<lparr>ep_kind = SUBSCRIBER, ep_topic = ''/chatter'', ep_type = string_msg, ep_reliability = 0, ep_response = []\<rparr>], an_host = ''h''\<rparr>"

lemma discovery_demo_example:
  "\<exists>n. demo_discovery_run [Announced 10 heard_chatter] ([], discovery_demo [] (env_at 1 4001) :: unit node) =
     Some ([''MATCH: local(kind=0,topic=/chatter) <-> remote(kind=1,topic=/chatter) @ 127.0.0.1:4002 pid=2''], n) \<and>
     length (ag_active (nd_agent n)) = 1 \<and> no_channels (nd_plane n)"
proof -
  have "char_of (48 :: nat) = CHR ''0''" "char_of (49 :: nat) = CHR ''1''" "char_of (50 :: nat) = CHR ''2''" "char_of (52 :: nat) = CHR ''4''"
    by code_simp+
  then show ?thesis
    by (simp add: discovery_demo_def demo_discovery_role_def demo_discovery_step_def heard_chatter_def string_msg_def net_eval match_key_def
      match_line_def no_channels_def to_string.simps digit_char_def)
qed

end
