(* ===== verification/Rpc_Demo.thy ===== *)
theory Rpc_Demo
  imports Network_Rpc Demos
begin

text \<open>
  examples/rpc_demo.cpp: a server with one service that echoes, and a client that calls it once a second and prints the answer or that
  the time has run out. The two mains up to their endless loops are events of the network, as in \<open>Demos\<close>; the text of a \<open>StringMsg\<close> stands for the message.
\<close>

definition rpc_demo_role :: "string list \<Rightarrow> string" where
  "rpc_demo_role args = (case args of [] \<Rightarrow> ''client'' | a # _ \<Rightarrow> a)"

definition rpc_demo_qos :: qos where
  "rpc_demo_qos = default_qos\<lparr>qos_reliability := RELIABLE\<rparr>"

definition rpc_demo_handler :: "string \<Rightarrow> string handler_result" where
  "rpc_demo_handler req = Response (''echo: '' @ req)"

definition rpc_demo :: "nat \<Rightarrow> string list \<Rightarrow> node_env \<Rightarrow> net_event list" where
  "rpc_demo i args env =
     (let role = rpc_demo_role args
      in [Join (''rpc_'' @ role) default_options env, Act i (Discovery (SetTiming 200 5000)),
          Act i (if role = ''server'' then CreateService ''/echo'' string_msg string_msg rpc_demo_qos
                 else CreateClient ''/echo'' string_msg string_msg rpc_demo_qos)])"

definition rpc_demo_line :: "string option \<Rightarrow> string" where
  "rpc_demo_line resp = (case resp of Some r \<Rightarrow> ''[client] recv: '' @ r | None \<Rightarrow> ''[client] timeout'')"

text \<open>A turn of the client's loop: the call with its wait, and the line printed; \<open>meanwhile\<close> is what the other threads do while the caller waits.\<close>

definition rpc_demo_turn :: "(string, string) rpc_codec \<Rightarrow> (sink_id \<Rightarrow> bool) \<Rightarrow>
    ((sink_id \<times> bytes) list \<Rightarrow> string client \<times> local_bus \<Rightarrow> string client \<times> local_bus) \<Rightarrow> nat \<Rightarrow> string client \<Rightarrow> local_bus \<Rightarrow>
    string \<times> string client \<times> local_bus" where
  "rpc_demo_turn codec alive meanwhile n c bus =
     (let (resp, c, bus) = call codec alive meanwhile (numbered n) c bus in (rpc_demo_line resp, c, bus))"

definition demo_request :: "string client \<Rightarrow> bytes \<Rightarrow> rpc_request" where
  "demo_request c pl = \<lparr>rq_id = cl_next_request_id c, rq_reply_topic = cl_reply_topic c, rq_payload = pl\<rparr>"

lemma demo_call_begin:
  assumes "client_of ''/echo'' cid c" "ser_req codec (numbered n) = Some pl" "ser_wire_req codec (demo_request c pl) \<noteq> None"
  obtains ds c1 bus1 where
    "call_begin codec alive (numbered n) c bus = (Some (cl_next_request_id c, length (cl_store c)), ds, c1, bus1)"
    "sm_find (cl_pending c1) (cl_next_request_id c) = Some (length (cl_store c))" "length (cl_store c1) = Suc (length (cl_store c))"
    "cl_store c1 ! length (cl_store c) = \<lparr>pd_done = False, pd_response = None\<rparr>"
proof -
  let ?c1 = "c\<lparr>cl_next_request_id := cl_next_request_id c + 1, cl_store := cl_store c @ [\<lparr>pd_done = False, pd_response = None\<rparr>],
     cl_pending := sm_put (cl_next_request_id c) (length (cl_store c)) (cl_pending c)\<rparr>"
  obtain ds bus1 where "publish (ser_wire_req codec) alive (cl_request_pub c) (demo_request c pl) bus = (True, ds, bus1)"
    using assms(3) by (auto simp: publish_def split_beta)
  then have "call_begin codec alive (numbered n) c bus = (Some (cl_next_request_id c, length (cl_store c)), ds, ?c1, bus1)"
    using assms(2) by (simp add: call_begin_def demo_request_def Let_def)
  then show ?thesis by (rule that) (simp_all add: map_of_sm_put)
qed

text \<open>
  What the client prints. If no reply to this call is handled while it waits, it prints that the time has run out; and if the reply that the server's
  handler makes for this request is handled, it prints the echo of its number. (The first call of a client in another process is of the first kind:
  \<open>first_remote_reply_lost\<close>.)
\<close>

theorem rpc_demo_prints:
  assumes "client_of ''/echo'' cid c" "ser_req codec (numbered n) = Some pl" "ser_wire_req codec (demo_request c pl) \<noteq> None"
    and "protobuf_ok codec" "ser_resp codec (''echo: '' @ numbered n) \<noteq> None"
  shows "fst (rpc_demo_turn codec alive (\<lambda>ds x. x) n c bus) = ''[client] timeout'' \<and>
    fst (rpc_demo_turn codec alive (\<lambda>ds (c', bus'). (handle_reply codec (reply_for codec rpc_demo_handler (demo_request c pl)) c', bus')) n c bus) =
      ''[client] recv: echo: msg #'' @ to_string n"
proof -
  let ?h = "(cl_next_request_id c, length (cl_store c))" and ?rep = "reply_for codec rpc_demo_handler (demo_request c pl)"
  obtain ds c1 bus1 where b: "call_begin codec alive (numbered n) c bus = (Some ?h, ds, c1, bus1)"
    and c1: "sm_find (cl_pending c1) (cl_next_request_id c) = Some (length (cl_store c))" "length (cl_store c1) = Suc (length (cl_store c))"
      "cl_store c1 ! length (cl_store c) = \<lparr>pd_done = False, pd_response = None\<rparr>"
    using demo_call_begin [OF assms(1-3)] by metis
  have "fst (call_return ?h c1) = None" using c1(3) by (simp add: call_return_def Let_def)
  moreover have "fst (call_return ?h (handle_reply codec ?rep c1)) = Some (''echo: '' @ numbered n)"
    using reply_ends_call [OF c1(1), of ?rep codec] c1(2) parsed_reply_for [OF assms(4,2), of "demo_request c pl" rpc_demo_handler] assms(5)
    by (simp add: demo_request_def rpc_result_def rpc_demo_handler_def)
  ultimately show ?thesis using b by (simp add: rpc_demo_turn_def call_def rpc_demo_line_def numbered_def split_beta)
qed

theorem rpc_demo_prints_witness:
  "fst (rpc_demo_turn field_codec (\<lambda>_. True) (\<lambda>ds x. x) 7 (fst (make_client ''/echo'' ''rpc_client-1-0'' rpc_demo_qos 0 (\<lambda>_. None))) (\<lambda>_. None)) =
     ''[client] timeout''"
proof -
  let ?c = "fst (make_client ''/echo'' ''rpc_client-1-0'' rpc_demo_qos 0 (\<lambda>_. None)) :: string client"
  have "client_of ''/echo'' ''rpc_client-1-0'' ?c" by (metis make_client_of prod.collapse)
  from rpc_demo_prints [OF this, of field_codec 7 "numbered 7"] field_codec_ok(1) show ?thesis by (simp add: field_codec_def)
qed

end
