(* ===== verification/Tcp_Demos.thy ===== *)
theory Tcp_Demos
  imports Demos
begin

text \<open>
  The two demonstrations of the bare transports: examples/tcp_client_demo.cpp connects to port 9000, sends five greetings and stops;
  examples/tcp_server_demo.cpp listens there and prints what it receives. What the event thread of the client does while \<open>main\<close> sleeps, and the
  events of the server, are arguments, as are the results of system calls.
\<close>

section \<open>The client\<close>

definition sent_line :: "bool \<Rightarrow> string \<Rightarrow> string" where
  "sent_line ok m = (if ok then ''sent: '' @ m else ''send failed'')"

text \<open>\<open>during i\<close> are the steps of the event thread between the \<open>i\<close>-th greeting and the next.\<close>

fun greeting_loop :: "(nat \<Rightarrow> client_op list) \<Rightarrow> nat list \<Rightarrow> tcp_client \<Rightarrow> string list \<times> tcp_client" where
  "greeting_loop during [] c = ([], c)"
| "greeting_loop during (i # is) c =
     (let (ok, c) = client_send c (hello i); (ls, c) = greeting_loop during is (client_steps c (during i))
      in (sent_line ok (hello i) # ls, c))"

text \<open>The exit code, the lines printed and the client at the end; \<open>waiting\<close> is what its event thread does before the first greeting.\<close>

definition tcp_client_demo :: "client_start_env \<Rightarrow> client_op list \<Rightarrow> (nat \<Rightarrow> client_op list) \<Rightarrow> int \<times> string list \<times> tcp_client" where
  "tcp_client_demo env waiting during =
     (case client_start (client_on_message (new_client ''127.0.0.1'' 9000)) env of
        (False, c) \<Rightarrow> (1, [''start failed''], c)
      | (True, c) \<Rightarrow>
          (let (ls, c) = greeting_loop during [0..<5] (client_steps c waiting) in (0, ls, client_stop c)))"

section \<open>The server\<close>

definition received_line :: "bytes \<Rightarrow> string" where
  "received_line m = ''received message: '' @ [CHR 0x27] @ m @ [CHR 0x27] @ '' (size='' @ to_string (length m) @ '')''"

definition tcp_server_demo :: "server_start_env \<Rightarrow> server_wait list \<Rightarrow> int \<times> string list \<times> tcp_server" where
  "tcp_server_demo env waits =
     (case server_start (server_on_message (new_server 9000)) env of
        (False, s) \<Rightarrow> (1, [''------------'', ''server failed to start''], s)
      | (True, s) \<Rightarrow>
          (let (s, ms) = server_event_loop s waits
           in (0, [''------------'', ''server running. Press Ctrl+C to stop.''] @ map (received_line \<circ> snd) ms @ [''stopping server...''], server_stop s)))"

section \<open>What the client sends\<close>

text \<open>Steps of the event thread that only write.\<close>

fun writes_only :: "client_op \<Rightarrow> bool" where
  "writes_only (OpWritable os) = True"
| "writes_only op = False"

definition open_client :: "tcp_client \<Rightarrow> bool" where
  "open_client c \<longleftrightarrow> cl_state c = CONNECTED \<and> \<not> cl_stopped c"

lemma writes_only_steps:
  assumes "list_all writes_only ops" "open_client c"
  shows "open_client (client_steps c ops)" "accepted c ops = []"
proof -
  have "open_client (client_steps c ops) \<and> accepted c ops = []"
    using assms
  proof (induction ops arbitrary: c)
    case (Cons op ops)
    then obtain os where op: "op = OpWritable os" by (cases op) simp_all
    have "open_client (client_step c op)"
      using Cons.prems(2) by (auto simp: op open_client_def client_handle_write_def split: prod.split) (metis fst_conv write_loop_frame)+
    with Cons op show ?case by simp
  qed simp
  then show "open_client (client_steps c ops)" "accepted c ops = []" by simp_all
qed

text \<open>The loop is a history of the client, with the greetings as its sends.\<close>

definition greeting_ops :: "(nat \<Rightarrow> client_op list) \<Rightarrow> nat list \<Rightarrow> client_op list" where
  "greeting_ops during is = concat (map (\<lambda>i. OpSend (hello i) # during i) is)"

lemma client_steps_append: "client_steps c (xs @ ys) = client_steps (client_steps c xs) ys"
  by (induction xs arbitrary: c) simp_all

lemma greeting_loop_steps: "snd (greeting_loop during is c) = client_steps c (greeting_ops during is)"
  by (induction "is" arbitrary: c) (simp_all add: greeting_ops_def client_steps_append split_beta)

lemma greetings_accepted:
  assumes "open_client c" "\<And>i. list_all writes_only (during i)"
  shows "fst (greeting_loop during ns c) = map (\<lambda>i. ''sent: '' @ hello i) ns" "accepted c (greeting_ops during ns) = map hello ns"
proof -
  have "fst (greeting_loop during ns c) = map (\<lambda>i. ''sent: '' @ hello i) ns \<and> accepted c (greeting_ops during ns) = map hello ns"
    using assms(1)
  proof (induction ns arbitrary: c)
    case (Cons i ns)
    have s: "fst (client_send c (hello i))" "open_client (snd (client_send c (hello i)))"
      using Cons.prems by (simp_all add: open_client_def client_send_def)
    note w = writes_only_steps [OF assms(2) [of i] s(2)]
    from Cons.IH [OF w(1)] w(2) s(1) show ?case by (simp add: greeting_ops_def split_beta sent_line_def)
  qed (simp add: greeting_ops_def)
  then show "fst (greeting_loop during ns c) = map (\<lambda>i. ''sent: '' @ hello i) ns" "accepted c (greeting_ops during ns) = map hello ns"
    by simp_all
qed

section \<open>What the server prints\<close>

lemma server_events_running: "sv_running (fst (server_events s es)) = sv_running s"
proof (induction es arbitrary: s)
  case (Cons e es)
  have "sv_running (handle_accept s' as) = sv_running s'" for s' as
    by (induction s' as rule: handle_accept.induct) (simp_all add: close_fd_def)
  moreover have "sv_running (fst (server_handle_read s' fd bs r)) = sv_running s'" for s' fd bs r
    by (simp add: server_handle_read_def close_connection_def close_fd_def Let_def split: option.splits prod.splits)
  ultimately show ?case using Cons.IH by (simp add: split_beta)
qed simp

lemma server_events_append:
  "server_events s (es @ fs) = (let (s1, ms) = server_events s es; (s2, ms') = server_events s1 fs in (s2, ms @ ms'))"
  by (induction es arbitrary: s) (simp_all add: split_beta)

lemma server_event_loop_batches: "sv_running s \<Longrightarrow> server_event_loop s (map SWaitEvents ess) = server_events s (concat ess)"
proof (induction ess arbitrary: s)
  case (Cons es ess)
  have "sv_running (fst (server_events s es))" using Cons.prems by (simp add: server_events_running)
  from Cons.IH [OF this] Cons.prems show ?case by (simp add: server_events_append split_beta)
qed simp

lemma only_one_connection:
  "list_all (\<lambda>e. se_fd e = fd) es \<Longrightarrow> map snd (snd (server_events s es)) = delivered_on fd (snd (server_events s es))"
  by (induction es arbitrary: s) (simp_all add: split_beta delivered_on_def filter_map comp_def)

lemma server_start_ready:
  assumes "server_start (server_on_message (new_server port)) env = (True, s)"
  shows "sv_running s" "sv_callback s" "sv_buffers s = Map.empty"
  using assms by (auto simp: server_start_def server_on_message_def new_server_def Let_def split: if_splits option.splits)

lemma client_start_clean:
  assumes "client_start (client_on_message (new_client h p)) env = (True, c)"
  shows "outstream c = []"
  using assms by (auto simp: client_start_def client_on_message_def new_client_def outstream_def Let_def split: if_splits)

text \<open>
  The two demonstrations together. If both start, the client is connected when it begins to send, its event thread has written everything by the
  end, and the server accepts the connection and reads those bytes, in any pieces and any batches of events, then
  both return 0, the client has reported five greetings as sent and the server has printed these five, in order, with their sizes.
\<close>

theorem tcp_demos_meet:
  assumes "client_start (client_on_message (new_client ''127.0.0.1'' 9000)) env = (True, c0)" "accepted c0 waiting = []"
    and "open_client (client_steps c0 waiting)" "\<And>i. list_all writes_only (during i)"
    and "tcp_client_demo env waiting during = (code, ls, c)" "cl_write_buffer c = []"
    and "server_start (server_on_message (new_server 9000)) senv = (True, s0)" "concat ess = acc # es"
    and "se_fd acc = sv_listen_fd s0" "se_accepts acc = [(fd, True)]" "stays_open s0 fd es" "list_all (\<lambda>e. se_fd e = fd) es"
    and "concat (reads_on fd es) = cl_sent c"
  shows "code = 0 \<and> ls = map (\<lambda>i. ''sent: '' @ hello i) [0..<5] \<and>
    (\<exists>s. tcp_server_demo senv (map SWaitEvents ess) =
      (0, [''------------'', ''server running. Press Ctrl+C to stop.''] @ map (received_line \<circ> hello) [0..<5] @ [''stopping server...''], s))"
proof -
  let ?ops = "waiting @ greeting_ops during [0..<5]"
  obtain ls1 c1 where l: "greeting_loop during [0..<5] (client_steps c0 waiting) = (ls1, c1)" by (metis prod.exhaust)
  then have d: "code = 0" "ls = ls1" "c = client_stop c1"
    using assms(1,5) by (simp_all add: tcp_client_demo_def del: upt.simps upt_rec_numeral)
  note g = greetings_accepted [where ns = "[0..<5]" and during = during, OF assms(3,4)]
  have c1: "c1 = client_steps c0 ?ops"
    using greeting_loop_steps [of during "[0..<5]" "client_steps c0 waiting"] l by (simp only: client_steps_append snd_conv)
  have acc: "accepted c0 ?ops = map hello [0..<5]" using assms(2) g(2) by (simp only: accepted_append append_Nil)
  have "list_all (\<lambda>m. length m < 10) (map hello [0..<5])" by code_simp
  then have small: "\<forall>m \<in> set (accepted c0 ?ops). length m \<le> MAX_PAYLOAD_SIZE"
    unfolding acc by (fastforce simp: list_all_iff MAX_PAYLOAD_SIZE_def simp del: upt.simps upt_rec_numeral)
  have c: "cl_write_buffer c1 = []" "cl_sent c1 = cl_sent c" using assms(6) d(3) by (simp_all add: client_stop_def split: if_splits)
  note s0 = server_start_ready [OF assms(7)]
  define s1 where "s1 = s0\<lparr>sv_buffers := [fd \<mapsto> []]\<rparr>"
  have e: "server_events s0 (acc # es) = server_events s1 es" using assms(9,10) s0(3) by (simp add: s1_def split_beta)
  have "stays_open s1 fd es" using assms(11) by (simp add: s1_def stays_open_def)
  then have "delivered_on fd (snd (server_events s1 es)) = map hello [0..<5]"
    using stream_arrives_from [OF client_start_clean [OF assms(1)] small, of s1 fd es] c c1 s0(2) assms(13)
    unfolding acc by (simp add: s1_def del: upt.simps upt_rec_numeral)
  then have "map snd (snd (server_events s0 (concat ess))) = map hello [0..<5]"
    using only_one_connection [OF assms(12)] e assms(8) by simp
  then have p: "map (received_line \<circ> snd) (snd (server_events s0 (concat ess))) = map (received_line \<circ> hello) [0..<5]"
    by (metis list.map_comp)
  obtain s2 ms where ev: "server_event_loop s0 (map SWaitEvents ess) = (s2, ms)" by (metis prod.exhaust)
  have t: "tcp_server_demo senv (map SWaitEvents ess) =
      (0, [''------------'', ''server running. Press Ctrl+C to stop.''] @ map (received_line \<circ> snd) ms @ [''stopping server...''], server_stop s2)"
    by (simp add: tcp_server_demo_def assms(7) ev)
  have q: "map (received_line \<circ> snd) ms = map (received_line \<circ> hello) [0..<5]"
    using p ev server_event_loop_batches [OF s0(1), of ess] by (metis snd_conv)
  from t [unfolded q] have "\<exists>s. tcp_server_demo senv (map SWaitEvents ess) =
      (0, [''------------'', ''server running. Press Ctrl+C to stop.''] @ map (received_line \<circ> hello) [0..<5] @ [''stopping server...''], s)" by (rule exI)
  moreover have "ls = map (\<lambda>i. ''sent: '' @ hello i) [0..<5]" using d(2) g(1) unfolding l by simp
  ultimately show ?thesis using d(1) by blast
qed

lemma sends_open: "open_client c \<Longrightarrow> open_client (client_steps c (map OpSend ms))"
  by (induction ms arbitrary: c) (simp_all add: open_client_def client_send_def)

lemma flushed: "0 < n \<Longrightarrow> cl_write_buffer (client_handle_write c (\<lambda>_. Wrote n)) = []"
  using write_loop_flushes [of "\<lambda>_. Wrote n" 0 c] by (simp add: client_handle_write_def split_beta)

text \<open>The event thread connects while the client waits and writes after the last greeting; the server reads everything at once.\<close>

definition write_late :: "nat \<Rightarrow> client_op list" where
  "write_late i = (if i = 4 then [OpWritable (\<lambda>_. Wrote 100)] else [])"

definition senv_x :: server_start_env where
  "senv_x = \<lparr>senv_socket = 3, senv_bind_ok = True, senv_sockname = Some 9000, senv_listen_ok = True, senv_epoll = 4, senv_ctl_ok = True\<rparr>"

theorem tcp_demos_meet_witness:
  "\<exists>bs s. tcp_server_demo senv_x (map SWaitEvents [[\<lparr>se_fd = 3, se_accepts = [(9, True)], se_blocks = [], se_read_end = ReadAgain\<rparr>], [read_event 9 [bs]]]) =
     (0, [''------------'', ''server running. Press Ctrl+C to stop.''] @ map (received_line \<circ> hello) [0..<5] @ [''stopping server...''], s)"
proof -
  let ?acc = "\<lparr>se_fd = 3, se_accepts = [(9, True)], se_blocks = [], se_read_end = ReadAgain\<rparr>"
  obtain code ls c where d: "tcp_client_demo env_example [OpConnectComplete 0] write_late = (code, ls, c)" by (metis prod_cases3)
  obtain c0 where c0: "client_start (client_on_message (new_client ''127.0.0.1'' 9000)) env_example = (True, c0)"
    "accepted c0 [OpConnectComplete 0] = []" "open_client (client_steps c0 [OpConnectComplete 0])"
    by (simp add: client_start_def client_on_message_def new_client_def env_example_def client_op_defs open_client_def)
  have "greeting_ops write_late [0..<5] = map OpSend (map hello [0..<5]) @ [OpWritable (\<lambda>_. Wrote 100)]"
    by (simp add: greeting_ops_def write_late_def upt_rec)
  then have "snd (greeting_loop write_late [0..<5] c') = client_steps (client_steps c' (map OpSend (map hello [0..<5]))) [OpWritable (\<lambda>_. Wrote 100)]" for c'
    unfolding greeting_loop_steps by (simp only: client_steps_append)
  moreover have "cl_write_buffer (client_steps c1 [OpWritable (\<lambda>_. Wrote 100)]) = []" if "open_client c1" for c1
    using that by (simp add: open_client_def flushed)
  ultimately have "cl_write_buffer (snd (greeting_loop write_late [0..<5] (client_steps c0 [OpConnectComplete 0]))) = []"
    using sends_open [OF c0(3)] by (simp only:)
  then have "cl_write_buffer c = []"
    using d c0(1) by (auto simp: tcp_client_demo_def client_stop_def split: prod.splits)
  moreover obtain s0 where s0: "server_start (server_on_message (new_server 9000)) senv_x = (True, s0)" "sv_listen_fd s0 = 3"
    by (simp add: server_start_def server_on_message_def new_server_def senv_x_def)
  moreover have w: "list_all writes_only (write_late i)" for i by (simp add: write_late_def)
  moreover have "concat [[?acc], [read_event 9 [cl_sent c]]] = ?acc # [read_event 9 [cl_sent c]]" "se_fd ?acc = sv_listen_fd s0" "se_accepts ?acc = [(9, True)]"
    "stays_open s0 9 [read_event 9 [cl_sent c]]" "list_all (\<lambda>e. se_fd e = 9) [read_event 9 [cl_sent c]]"
    "concat (reads_on 9 [read_event 9 [cl_sent c]]) = cl_sent c"
    by (simp_all add: s0(2) stays_open_def read_event_def reads_on_def)
  ultimately show ?thesis using tcp_demos_meet [OF c0 w d _ s0(1)] by blast
qed

end
