(* ===== verification/Liveliness.thy ===== *)
theory Liveliness
  imports Discovery_Agent
begin

text \<open>
  The timing of discovery (discovery/src/discovery_agent.cpp): how far apart the announcements of an agent are, and when the agent of another
  participant takes it for dead. Times are readings of the clock in milliseconds; a history of the background thread is a list of
  turns, each with what \<open>recv\<close> gave and its three clock readings.
\<close>

section \<open>The background thread\<close>

type_synonym clocked_turn = "bytes option \<times> int \<times> int \<times> int"

fun run_turns :: "(bytes \<Rightarrow> announcement option) \<Rightarrow> string \<Rightarrow> clocked_turn list \<Rightarrow> agent \<Rightarrow> (int \<times> announcement) list \<times> match_event list \<times> agent" where
  "run_turns parse host [] a = ([], [], a)"
| "run_turns parse host ((received, t1, t2, t3) # ts) a =
     (let (sent, evs, a) = agent_turn parse host received t1 t2 t3 a; (ss, evs', a) = run_turns parse host ts a
      in ((case sent of None \<Rightarrow> ss | Some ann \<Rightarrow> (t2, ann) # ss), evs @ evs', a))"

text \<open>\<open>run\<close>: an announcement first, then the loop; what is sent, with its time.\<close>

definition agent_run :: "(bytes \<Rightarrow> announcement option) \<Rightarrow> string \<Rightarrow> int \<Rightarrow> clocked_turn list \<Rightarrow> agent \<Rightarrow> (int \<times> announcement) list \<times> match_event list \<times> agent" where
  "agent_run parse host t0 ts a =
     (let (ss, evs, a') = run_turns parse host ts (a\<lparr>ag_last_announce := t0\<rparr>) in ((t0, announce host a) # ss, evs, a'))"

text \<open>Clock readings for the announcements that do not go back and are at most \<open>d\<close> apart, and the last of them.\<close>

fun paced :: "int \<Rightarrow> int \<Rightarrow> clocked_turn list \<Rightarrow> bool" where
  "paced d t [] = True"
| "paced d t ((received, t1, t2, t3) # ts) = (t \<le> t2 \<and> t2 - t \<le> d \<and> paced d t2 ts)"

fun end_time :: "int \<Rightarrow> clocked_turn list \<Rightarrow> int" where
  "end_time t [] = t"
| "end_time t ((received, t1, t2, t3) # ts) = end_time t2 ts"

section \<open>Announcements come regularly\<close>

definition clock_fields :: "agent \<Rightarrow> int \<times> int \<times> int" where
  "clock_fields a = (ag_last_announce a, ag_interval a, ag_timeout a)"

lemma note_matches_clock [simp]: "clock_fields (snd (note_matches h ms a)) = clock_fields a"
  by (induction h ms a rule: note_matches.induct) (simp_all add: Let_def split_beta clock_fields_def)

lemma match_remotes_clock [simp]: "clock_fields (snd (match_remotes rs a)) = clock_fields a"
proof (induction rs arbitrary: a)
  case (Cons x rs)
  then show ?case by (cases x) (simp add: try_match_def split_beta)
qed simp

lemma unmatch_dead_clock [simp]: "clock_fields (snd (unmatch_dead is a)) = clock_fields a"
  by (induction "is" a rule: unmatch_dead.induct) (simp_all add: Let_def split_beta clock_fields_def)

lemma agent_parts_clock [simp]:
  "clock_fields (snd (handle_announcement now ann a)) = clock_fields a" "clock_fields (snd (rematch_if_dirty a)) = clock_fields a"
  "clock_fields (snd (reap_dead now a)) = clock_fields a"
  by (simp_all add: handle_announcement_def try_match_def rematch_if_dirty_def rematch_all_def reap_dead_def Let_def)
    (simp_all add: clock_fields_def)

text \<open>A turn announces exactly when the interval is over, and its time is then the time of the last announcement.\<close>

lemma agent_turn_clock:
  assumes "agent_turn parse host received t1 t2 t3 a = (sent, evs, a')"
  shows "clock_fields a' = (if t2 - ag_last_announce a \<ge> ag_interval a then t2 else ag_last_announce a, ag_interval a, ag_timeout a)"
    "sent \<noteq> None \<longleftrightarrow> t2 - ag_last_announce a \<ge> ag_interval a"
proof -
  define a1 where "a1 = snd (case received of None \<Rightarrow> ([], a) | Some bs \<Rightarrow> (case parse bs of None \<Rightarrow> ([], a) | Some ann \<Rightarrow> handle_announcement t1 ann a))"
  define a2 where "a2 = snd (rematch_if_dirty a1)"
  have "clock_fields a1 = clock_fields a" by (simp add: a1_def split: option.splits)
  then have c: "clock_fields a2 = clock_fields a" by (simp add: a2_def)
  have a': "a' = snd (reap_dead t3 (if t2 - ag_last_announce a2 \<ge> ag_interval a2 then a2\<lparr>ag_last_announce := t2\<rparr> else a2))"
    "sent = (if t2 - ag_last_announce a2 \<ge> ag_interval a2 then Some (announce host a2) else None)"
    using assms by (auto simp: agent_turn_def a1_def a2_def split: prod.splits if_splits)
  from c have f: "ag_last_announce a2 = ag_last_announce a" "ag_interval a2 = ag_interval a" "ag_timeout a2 = ag_timeout a"
    by (simp_all add: clock_fields_def)
  have "clock_fields a' = clock_fields (if t2 - ag_last_announce a2 \<ge> ag_interval a2 then a2\<lparr>ag_last_announce := t2\<rparr> else a2)"
    unfolding a'(1) by simp
  then show "clock_fields a' = (if t2 - ag_last_announce a \<ge> ag_interval a then t2 else ag_last_announce a, ag_interval a, ag_timeout a)"
    by (simp add: clock_fields_def f)
  show "sent \<noteq> None \<longleftrightarrow> t2 - ag_last_announce a \<ge> ag_interval a" by (simp add: a'(2) f)
qed

lemma run_turns_dense:
  assumes "0 < ag_interval a" "paced d u ts" "ag_last_announce a \<le> u" "u - ag_last_announce a < ag_interval a" "u \<le> t" "t \<le> end_time u ts" "0 \<le> d"
  shows "\<exists>s \<in> insert (ag_last_announce a) (fst ` set (fst (run_turns parse host ts a))). s \<le> t \<and> t - s < ag_interval a + d"
  using assms
proof (induction ts arbitrary: a u)
  case Nil
  then show ?case by (intro bexI [of _ "ag_last_announce a"]) auto
next
  case (Cons x ts)
  obtain received t1 t2 t3 where x: "x = (received, t1, t2, t3)" by (cases x)
  obtain sent evs a1 where tu: "agent_turn parse host received t1 t2 t3 a = (sent, evs, a1)" by (metis prod_cases3)
  from agent_turn_clock [OF tu] have c: "ag_interval a1 = ag_interval a"
    "ag_last_announce a1 = (if t2 - ag_last_announce a \<ge> ag_interval a then t2 else ag_last_announce a)"
    "sent \<noteq> None \<longleftrightarrow> t2 - ag_last_announce a \<ge> ag_interval a" by (simp_all add: clock_fields_def)
  obtain ss evs' a2 where r: "run_turns parse host ts a1 = (ss, evs', a2)" by (metis prod_cases3)
  have sub: "insert (ag_last_announce a1) (fst ` set ss) \<subseteq> insert (ag_last_announce a) (fst ` set (fst (run_turns parse host (x # ts) a)))"
    using c(2,3) r by (auto simp: x tu split: option.splits)
  show ?case
  proof (cases "t < t2")
    case True
    then show ?thesis using Cons.prems by (intro bexI [of _ "ag_last_announce a"]) (auto simp: x)
  next
    case False
    have "\<exists>s \<in> insert (ag_last_announce a1) (fst ` set (fst (run_turns parse host ts a1))). s \<le> t \<and> t - s < ag_interval a1 + d"
      by (rule Cons.IH [of a1 t2]) (use Cons.prems False c in \<open>auto simp: x\<close>)
    then obtain s where "s \<in> insert (ag_last_announce a1) (fst ` set ss)" "s \<le> t" "t - s < ag_interval a + d" using c(1) r by auto
    with sub show ?thesis by blast
  qed
qed

section \<open>A participant that is heard in time\<close>

fun last_heard :: "u64 \<Rightarrow> int \<Rightarrow> agent_op list \<Rightarrow> int" where
  "last_heard p s [] = s"
| "last_heard p s (Announced now ann # ops) = last_heard p (if an_pid ann = p then now else s) ops"
| "last_heard p s (op # ops) = last_heard p s ops"

definition in_time :: "int \<Rightarrow> u64 \<Rightarrow> int \<Rightarrow> agent_op list \<Rightarrow> bool" where
  "in_time T p s ops \<longleftrightarrow> (\<forall>us t vs. ops = us @ Reap t # vs \<longrightarrow> t - last_heard p s us \<le> T)"

fun is_timing :: "agent_op \<Rightarrow> bool" where
  "is_timing (SetTiming i l) = True"
| "is_timing op = False"

lemma last_heard_append: "last_heard p s (us @ vs) = last_heard p (last_heard p s us) vs"
  by (induction p s us rule: last_heard.induct) simp_all

lemma in_time_tl: "in_time T p s (op # ops) \<Longrightarrow> in_time T p (last_heard p s [op]) ops"
  unfolding in_time_def by (metis append_Cons append_Nil last_heard_append)

lemma in_time_Reap: "in_time T p s (Reap t # ops) \<Longrightarrow> t - s \<le> T"
  unfolding in_time_def by (metis append_Nil last_heard.simps(1))

text \<open>Matching reports no loss and forgets no match.\<close>

definition keeps_matches :: "match_event list \<Rightarrow> agent \<Rightarrow> agent \<Rightarrow> bool" where
  "keeps_matches evs a a' \<longleftrightarrow> (\<forall>m. OnUnmatch m \<notin> set evs) \<and> (\<forall>k m. active_map a k = Some m \<longrightarrow> active_map a' k = Some m) \<and>
     ag_remotes a' = ag_remotes a \<and> ag_pid a' = ag_pid a"

lemma keeps_matches_trans: "keeps_matches evs a b \<Longrightarrow> keeps_matches evs' b c \<Longrightarrow> keeps_matches (evs @ evs') a c"
  by (auto simp: keeps_matches_def)

lemma note_matches_keeps_matches: "keeps_matches (fst (note_matches h ms a)) a (snd (note_matches h ms a))"
proof (induction ms arbitrary: a)
  case (Cons m ms)
  show ?case
  proof (cases "sm_find (ag_active a) (match_key m)")
    case None
    define b where "b = a\<lparr>ag_active := sm_put (match_key m) (m\<lparr>mi_host := h\<rparr>) (ag_active a)\<rparr>"
    let ?e = "if ag_match_cb b then [OnMatch (m\<lparr>mi_host := h\<rparr>)] else []"
    have "keeps_matches ?e a b" using None by (auto simp: keeps_matches_def b_def active_map_def map_of_sm_put)
    from keeps_matches_trans [OF this Cons.IH [of b]] None show ?thesis by (simp add: b_def Let_def split_beta split: if_splits)
  next
    case (Some m')
    with Cons.IH [of a] show ?thesis by simp
  qed
qed (simp add: keeps_matches_def)

lemma match_remotes_keeps_matches: "keeps_matches (fst (match_remotes rs a)) a (snd (match_remotes rs a))"
proof (induction rs arbitrary: a)
  case (Cons x rs)
  obtain i r where x: "x = (i, r)" by (cases x)
  have "keeps_matches (fst (try_match i r a)) a (snd (try_match i r a))" unfolding try_match_def by (rule note_matches_keeps_matches)
  from keeps_matches_trans [OF this Cons.IH] show ?case by (simp add: x split_beta)
qed (simp add: keeps_matches_def)

definition stays_known :: "u64 \<Rightarrow> int \<Rightarrow> match_event list \<Rightarrow> agent \<Rightarrow> agent \<Rightarrow> bool" where
  "stays_known p s evs a a' \<longleftrightarrow> (\<forall>m. OnUnmatch m \<in> set evs \<longrightarrow> mi_pid m \<noteq> p) \<and>
     (\<forall>k m. active_map a k = Some m \<longrightarrow> mi_pid m = p \<longrightarrow> active_map a' k = Some m) \<and>
     (\<exists>r. sm_find (ag_remotes a') p = Some r \<and> rp_last_seen r = s)"

lemma agent_step_stays:
  assumes "agent_inv a" "sm_find (ag_remotes a) p = Some r" "\<not> is_timing op" "agent_step op a = (evs, a')"
    and "\<And>t. op = Reap t \<Longrightarrow> t - rp_last_seen r \<le> ag_timeout a"
  shows "stays_known p (last_heard p (rp_last_seen r) [op]) evs a a' \<and> ag_timeout a' = ag_timeout a"
proof (cases op)
  case (AddEndpoint k t ty rel resp)
  with assms show ?thesis by (auto simp: stays_known_def add_endpoint_def active_map_def)
next
  case (Announced now ann)
  have p: "p \<noteq> ag_pid a" using assms(1,2) by (force simp: agent_inv_def dest: map_of_SomeD)
  define r' where "r' = \<lparr>rp_node = an_node ann, rp_endpoints = an_endpoints ann, rp_locator = an_locator ann, rp_host = an_host ann, rp_last_seen = now\<rparr>"
  define a1 where "a1 = a\<lparr>ag_remotes := sm_put (an_pid ann) r' (ag_remotes a)\<rparr>"
  show ?thesis
  proof (cases "an_pid ann = ag_pid a")
    case True
    with Announced assms p show ?thesis by (auto simp: stays_known_def handle_announcement_def)
  next
    case False
    then have h: "evs = fst (try_match (an_pid ann) r' a1)" "a' = snd (try_match (an_pid ann) r' a1)"
      using Announced assms(4) by (simp_all add: handle_announcement_def r'_def a1_def Let_def)
    have "keeps_matches evs a1 a'" unfolding h try_match_def by (rule note_matches_keeps_matches)
    moreover have "ag_timeout a' = ag_timeout a1" unfolding h try_match_def using note_matches_clock by (metis clock_fields_def prod.inject)
    ultimately show ?thesis using assms(2) Announced
      by (auto simp: stays_known_def keeps_matches_def a1_def active_map_def map_of_sm_put r'_def)
  qed
next
  case Rematch
  have "keeps_matches evs a a' \<and> ag_timeout a' = ag_timeout a"
  proof (cases "ag_dirty a")
    case True
    let ?b = "a\<lparr>ag_dirty := False\<rparr>"
    have h: "evs = fst (match_remotes (ag_remotes a) ?b)" "a' = snd (match_remotes (ag_remotes a) ?b)"
      using Rematch True assms(4) by (simp_all add: rematch_if_dirty_def rematch_all_def)
    have "keeps_matches evs ?b a'" unfolding h by (rule match_remotes_keeps_matches)
    moreover have "ag_timeout a' = ag_timeout ?b" unfolding h using match_remotes_clock by (metis clock_fields_def prod.inject)
    ultimately show ?thesis by (simp add: keeps_matches_def active_map_def)
  qed (use Rematch assms(4) in \<open>simp add: rematch_if_dirty_def keeps_matches_def\<close>)
  with assms(2) Rematch show ?thesis by (auto simp: stays_known_def keeps_matches_def)
next
  case (Sent now)
  with assms show ?thesis by (auto simp: stays_known_def active_map_def)
next
  case (Reap now)
  have ok: "agent_ok a" "ag_unmatch_cb a" "sm_ok (ag_remotes a)" "sm_ok (ag_active a)" using assms(1) by (auto simp: agent_inv_def agent_ok_def)
  have "reap_dead now a = (evs, a')" using Reap assms(4) by simp
  note s = reap_dead_spec [OF this ok(1)]
  have r: "(p, r) \<in> set (ag_remotes a)" "\<not> is_dead now a r" using assms(2,5) Reap by (auto simp: is_dead_def dest: map_of_SomeD)
  then have alive: "\<not> is_dead now a r'" if "(p, r') \<in> set (ag_remotes a)" for r' using sm_unique [OF ok(3) r(1) that] by simp
  have "(p, r) \<in> set (ag_remotes a')" using r by (simp add: s(1))
  moreover have "sm_ok (ag_remotes a')" "sm_ok (ag_active a')" using s(2) by (simp_all add: agent_ok_def)
  ultimately have k: "sm_find (ag_remotes a') p = Some r" by (simp add: sm_find_iff)
  have "active_map a' k = Some m" if "active_map a k = Some m" "mi_pid m = p" for k m
    using that alive sm_find_iff [OF ok(4)] sm_find_iff [OF \<open>sm_ok (ag_active a')\<close>] unfolding active_map_def s(1) by auto
  with k s(5) [OF ok(2)] alive Reap show ?thesis by (auto simp: stays_known_def s(1))
qed (use assms in simp)

lemma run_agent_stays:
  assumes "agent_inv a" "sm_find (ag_remotes a) p = Some r" "\<not> list_ex is_timing ops" "in_time (ag_timeout a) p (rp_last_seen r) ops"
    and "run_agent ops a = (evs, a')"
  shows "stays_known p (last_heard p (rp_last_seen r) ops) evs a a'"
  using assms
proof (induction ops arbitrary: a r evs)
  case (Cons op ops)
  obtain e1 a1 where s: "agent_step op a = (e1, a1)" by (cases "agent_step op a")
  with Cons.prems(5) obtain e2 where r: "run_agent ops a1 = (e2, a')" "evs = e1 @ e2" by (auto split: prod.splits)
  have "t - rp_last_seen r \<le> ag_timeout a" if "op = Reap t" for t using in_time_Reap Cons.prems(4) that by blast
  with agent_step_stays [OF Cons.prems(1,2) _ s] Cons.prems(3)
  have st: "stays_known p (last_heard p (rp_last_seen r) [op]) e1 a a1" "ag_timeout a1 = ag_timeout a" by auto
  then obtain r1 where r1: "sm_find (ag_remotes a1) p = Some r1" "rp_last_seen r1 = last_heard p (rp_last_seen r) [op]"
    by (auto simp: stays_known_def)
  have "stays_known p (last_heard p (rp_last_seen r1) ops) e2 a1 a'"
    by (rule Cons.IH [OF _ r1(1) _ _ r(1)])
      (use agent_step_inv [OF s Cons.prems(1)] Cons.prems(3) in_time_tl [OF Cons.prems(4)] st(2) r1(2) in auto)
  with st(1) r(2) r1(2) show ?case
    using last_heard_append [of p "rp_last_seen r" "[op]" ops] by (auto simp: stays_known_def)
qed (simp add: stays_known_def)

section \<open>Sender and receiver\<close>

text \<open>
  The times at which a receiver hears and reaps do not go back; and it hears what \<open>p\<close> announced at a time of \<open>S\<close> at most \<open>L\<close> later, this announcement or a later
  one, before it reaps.
\<close>

fun op_time :: "agent_op \<Rightarrow> int list" where
  "op_time (Announced t ann) = [t]"
| "op_time (Reap t) = [t]"
| "op_time op = []"

definition hears :: "int \<Rightarrow> u64 \<Rightarrow> int set \<Rightarrow> agent_op list \<Rightarrow> bool" where
  "hears L p S ops \<longleftrightarrow> (\<forall>us t vs s. ops = us @ Reap t # vs \<longrightarrow> s \<in> S \<longrightarrow> s + L \<le> t \<longrightarrow>
     (\<exists>t' ann. Announced t' ann \<in> set us \<and> an_pid ann = p \<and> s \<le> t'))"

lemma last_heard_latest:
  "sorted (concat (map op_time us)) \<Longrightarrow> Announced t' ann \<in> set us \<Longrightarrow> an_pid ann = p \<Longrightarrow> t' \<le> last_heard p s us"
proof (induction us rule: rev_induct)
  case (snoc op us)
  show ?case
  proof (cases "\<exists>t ann'. op = Announced t ann' \<and> an_pid ann' = p")
    case True
    then obtain t ann' where "op = Announced t ann'" "an_pid ann' = p" by blast
    moreover from this snoc.prems(1,2) have "t' \<le> t" by (force simp: sorted_append)
    ultimately show ?thesis by (simp add: last_heard_append)
  next
    case False
    then have "last_heard p s (us @ [op]) = last_heard p s us" by (cases op) (auto simp: last_heard_append)
    moreover have "Announced t' ann \<in> set us" using snoc.prems(2,3) False by auto
    ultimately show ?thesis using snoc by (simp add: sorted_append)
  qed
qed simp

lemma heard_in_time:
  assumes "sorted (concat (map op_time ops))" "hears L p S ops" "G + L \<le> T"
    and "\<And>t. Reap t \<in> set ops \<Longrightarrow> \<exists>s \<in> S. s \<le> t - L \<and> t - L - s < G"
  shows "in_time T p s0 ops"
  unfolding in_time_def
proof (intro allI impI)
  fix us t vs assume o: "ops = us @ Reap t # vs"
  then obtain s where s: "s \<in> S" "s \<le> t - L" "t - L - s < G" using assms(4) [of t] by auto
  then obtain t' ann where "Announced t' ann \<in> set us" "an_pid ann = p" "s \<le> t'"
    using assms(2) o unfolding hears_def by (metis add.commute le_diff_eq)
  moreover from this have "t' \<le> last_heard p s0 us" using last_heard_latest assms(1) o by (simp add: sorted_append)
  ultimately show "t - last_heard p s0 us \<le> T" using s assms(3) by linarith
qed

text \<open>
  C26: Discovery is steady: no match is withdrawn from a participant that is there. Let the background thread of one agent run with turns at most \<open>d\<close> apart, and let
  another agent that knows it hear its announcements, each at most \<open>L\<close> after it was sent (or a later one by then). If the announcement interval,
  \<open>d\<close> and \<open>L\<close> together are within the liveliness timeout of the second agent, then, as long as the first one runs, the second one never
  withdraws a match with it, keeps all it has, and never forgets it.
\<close>

theorem steady_peer_is_kept:
  assumes "agent_run parse host t0 ts b = (ss, evsb, b')" "0 < ag_interval b" "paced d t0 ts" "0 \<le> d"
    and "run_agent ops0 (node_agent n l q) = (evs0, a)" "sm_find (ag_remotes a) (ag_pid b) = Some r"
    and "\<not> list_ex is_timing ops" "sorted (concat (map op_time ops))" "hears L (ag_pid b) (fst ` set ss) ops"
    and "\<And>t. Reap t \<in> set ops \<Longrightarrow> t0 \<le> t - L \<and> t - L \<le> end_time t0 ts"
    and "ag_interval b + d + L \<le> ag_timeout a" "run_agent ops a = (evs, a')"
  shows "(\<forall>m. OnUnmatch m \<in> set evs \<longrightarrow> mi_pid m \<noteq> ag_pid b) \<and>
    (\<forall>k m. active_map a k = Some m \<longrightarrow> mi_pid m = ag_pid b \<longrightarrow> active_map a' k = Some m) \<and> sm_find (ag_remotes a') (ag_pid b) \<noteq> None"
proof -
  have inv: "agent_inv a" using run_agent_inv [OF assms(5) node_agent_inv(1)] by blast
  let ?b = "b\<lparr>ag_last_announce := t0\<rparr>"
  have ss: "fst ` set ss = insert t0 (fst ` set (fst (run_turns parse host ts ?b)))"
    using assms(1) by (auto simp: agent_run_def split: prod.splits)
  have "\<exists>s \<in> fst ` set ss. s \<le> t \<and> t - s < ag_interval b + d" if "t0 \<le> t" "t \<le> end_time t0 ts" for t
    using run_turns_dense [of ?b d t0 ts t parse host] assms(2-4) that unfolding ss by simp
  then have "in_time (ag_timeout a) (ag_pid b) (rp_last_seen r) ops"
    using assms(10,11) by (intro heard_in_time [OF assms(8,9)]) auto
  from run_agent_stays [OF inv assms(6,7) this assms(12)] show ?thesis by (auto simp: stays_known_def)
qed

text \<open>An agent with the default interval of a second, whose turns are half a second apart, and another that hears it a little later.\<close>

definition steady_turns :: "clocked_turn list" where
  "steady_turns = map (\<lambda>t. (None, t, t, t)) [500, 1000, 1500, 2000]"

definition steady_ops :: "announcement \<Rightarrow> agent_op list" where
  "steady_ops ann = [Announced 1010 ann, Reap 1100, Announced 2010 ann, Reap 2100]"

theorem steady_peer_is_kept_witness:
  "\<exists>evs a'. run_agent (steady_ops ann_x) (after_x 4) = (evs, a') \<and> active_map (after_x 4) (match_key match_x) = Some match_x \<and>
     active_map a' (match_key match_x) = Some match_x"
proof -
  let ?b = "new_agent ''b'' here 7"
  obtain evs0 where r: "run_agent (take 4 ops_x) (node_agent ''m'' here 1) = (evs0, after_x 4)" unfolding after_x_def by (metis prod.collapse)
  obtain evs a' where e: "run_agent (steady_ops ann_x) (after_x 4) = (evs, a')" by (metis prod.exhaust)
  obtain evsb b' where b: "agent_run (\<lambda>_. None) ''h'' 0 steady_turns ?b = ([(0, announce ''h'' ?b), (1000, announce ''h'' ?b), (2000, announce ''h'' ?b)], evsb, b')"
    by (simp add: agent_run_def steady_turns_def agent_turn_def new_agent_def rematch_if_dirty_def reap_dead_def announce_def)
  have a: "\<exists>r. sm_find (ag_remotes (after_x 4)) (ag_pid ?b) = Some r" "ag_timeout (after_x 4) = 5000"
    "active_map (after_x 4) (match_key match_x) = Some match_x"
    by (simp_all add: after_x_def x_defs match_key_def active_map_def)
  then obtain r where r': "sm_find (ag_remotes (after_x 4)) (ag_pid ?b) = Some r" by blast
  have h: "hears 200 (ag_pid ?b) (fst ` set [(0, announce ''h'' ?b), (1000, announce ''h'' ?b), (2000, announce ''h'' ?b)]) (steady_ops ann_x)"
    unfolding hears_def by (auto simp: steady_ops_def Cons_eq_append_conv ann_x_def new_agent_def; rule exI [of _ 2010]; simp)
  have "0 < ag_interval ?b" "paced 500 0 steady_turns" "(0 :: int) \<le> 500" "\<not> list_ex is_timing (steady_ops ann_x)" "sorted (concat (map op_time (steady_ops ann_x)))"
    "ag_interval ?b + 500 + 200 \<le> ag_timeout (after_x 4)" "end_time 0 steady_turns = 2000"
    by (simp_all add: new_agent_def steady_turns_def steady_ops_def a(2))
  moreover have "0 \<le> t - 200 \<and> t - 200 \<le> 2000" if "Reap t \<in> set (steady_ops ann_x)" for t using that by (auto simp: steady_ops_def)
  ultimately have "active_map a' (match_key match_x) = Some match_x"
    using steady_peer_is_kept [OF b _ _ _ r r' _ _ h _ _ e, of 500] a(3) by (simp add: match_x_def new_agent_def)
  with e a(3) show ?thesis by blast
qed

end
