(* ===== verification/Transport.thy ===== *)
theory Transport
  imports Tcp_Server
begin

text \<open>
  The interface of transport/include/transport/transport.h, which the two TCP transports implement: \<open>start\<close>, \<open>stop\<close>, \<open>on_message\<close>, \<open>send\<close>. The locale
  states what a user may rely on: \<open>thread\<close> is whether there is a background thread to be joined, \<open>fresh\<close> an object that has not been started yet, \<open>stoppable\<close> one
  whose \<open>stop\<close> has its effect.
\<close>

locale transport =
  fixes start :: "'s \<Rightarrow> 'e \<Rightarrow> bool \<times> 's"
    and stop :: "'s \<Rightarrow> 's"
    and on_message :: "'s \<Rightarrow> 's"
    and send :: "'s \<Rightarrow> bytes \<Rightarrow> bool \<times> 's"
    and thread :: "'s \<Rightarrow> bool"
    and fresh :: "'s \<Rightarrow> bool"
    and stoppable :: "'s \<Rightarrow> bool"
  assumes start_thread: "fresh s \<Longrightarrow> thread (snd (start s e)) = fst (start s e)"
    and start_stoppable: "fresh s \<Longrightarrow> stoppable (snd (start s e))"
    and send_keeps: "thread (snd (send s p)) = thread s" "stoppable (snd (send s p)) = stoppable s"
    and on_message_keeps: "thread (on_message s) = thread s" "fresh (on_message s) = fresh s" "on_message (on_message s) = on_message s"
    and stop_joins: "stoppable s \<Longrightarrow> \<not> thread (stop s)"
    and stop_again: "stop (stop s) = stop s"
    and stopped_refuses: "send (stop s) p = (False, stop s)"
begin

definition send_all :: "bytes list \<Rightarrow> 's \<Rightarrow> 's" where
  "send_all ps s = foldl (\<lambda>s p. snd (send s p)) s ps"

lemma send_all_keeps: "thread (send_all ps s) = thread s" "stoppable (send_all ps s) = stoppable s"
proof -
  have "thread (send_all ps s) = thread s \<and> stoppable (send_all ps s) = stoppable s"
    unfolding send_all_def by (induction ps arbitrary: s) (simp_all add: send_keeps)
  then show "thread (send_all ps s) = thread s" "stoppable (send_all ps s) = stoppable s" by simp_all
qed

text \<open>A life from the constructor over \<open>on_message\<close>, \<open>start\<close> and sends to \<open>stop\<close>, and the destructor, which stops once more.\<close>

lemma life_cycle:
  assumes "fresh s" and t_def: "t = stop (send_all ps (snd (start (on_message s) e)))"
  shows "thread (send_all ps (snd (start (on_message s) e))) = fst (start (on_message s) e)" "\<not> thread t" "stop t = t" "send_all qs t = t"
    "\<not> fst (send t q)"
proof -
  have f: "fresh (on_message s)" using assms(1) by (simp add: on_message_keeps)
  then show "thread (send_all ps (snd (start (on_message s) e))) = fst (start (on_message s) e)" by (simp add: send_all_keeps start_thread)
  show "\<not> thread t" unfolding t_def using f by (simp add: stop_joins send_all_keeps start_stoppable)
  show "stop t = t" "\<not> fst (send t q)" unfolding t_def by (simp_all add: stop_again stopped_refuses)
  show "send_all qs t = t" unfolding t_def send_all_def by (induction qs) (simp_all add: stopped_refuses)
qed

end

section \<open>The client\<close>

definition client_fresh :: "tcp_client \<Rightarrow> bool" where
  "client_fresh c \<longleftrightarrow> \<not> cl_stopped c \<and> \<not> cl_thread c"

definition client_stoppable :: "tcp_client \<Rightarrow> bool" where
  "client_stoppable c \<longleftrightarrow> \<not> cl_stopped c"

interpretation ct: transport client_start client_stop client_on_message client_send cl_thread client_fresh client_stoppable
  by unfold_locales
    (simp_all add: client_start_def client_stop_def client_on_message_def client_send_def client_fresh_def client_stoppable_def Let_def)

section \<open>The server\<close>

definition server_fresh :: "tcp_server \<Rightarrow> bool" where
  "server_fresh s \<longleftrightarrow> \<not> sv_running s \<and> \<not> sv_thread s"

definition server_stoppable :: "tcp_server \<Rightarrow> bool" where
  "server_stoppable s \<longleftrightarrow> (sv_thread s \<longrightarrow> sv_running s)"

interpretation st: transport server_start server_stop server_on_message server_send sv_thread server_fresh server_stoppable
  by unfold_locales
    (auto simp: server_start_def server_stop_def server_on_message_def server_send_def server_fresh_def server_stoppable_def close_fd_def Let_def
      split: option.splits)

section \<open>Properties\<close>

text \<open>
  Both transports keep the contract: from the constructor over any number of sends, a started object has a background thread, and one that
  could not be started has none; after \<open>stop\<close> there is none, a second \<open>stop\<close> (of the destructor) changes nothing and no send is accepted.
\<close>

theorem transports_stop_cleanly:
  "\<not> cl_thread (client_stop (ct.send_all ps (snd (client_start (client_on_message (new_client h port)) env)))) \<and>
   cl_thread (ct.send_all ps (snd (client_start (client_on_message (new_client h port)) env))) = fst (client_start (client_on_message (new_client h port)) env) \<and>
   \<not> fst (client_send (client_stop (ct.send_all ps (snd (client_start (client_on_message (new_client h port)) env)))) q) \<and>
   \<not> sv_thread (server_stop (snd (server_start (server_on_message (new_server port)) senv))) \<and>
   server_stop (server_stop (snd (server_start (server_on_message (new_server port)) senv))) = server_stop (snd (server_start (server_on_message (new_server port)) senv))"
proof -
  have c: "client_fresh (new_client h port)" by (simp add: client_fresh_def new_client_def)
  have s: "server_fresh (new_server port)" by (simp add: server_fresh_def new_server_def)
  have "st.send_all [] x = x" for x by (simp add: st.send_all_def)
  then show ?thesis using ct.life_cycle [OF c refl] st.life_cycle(2,3) [OF s refl, of "[]"] by simp
qed

text \<open>
  A client cannot be used again. Once stopped, it can be started, but then it accepts no message, and neither \<open>stop\<close> nor the destructor ends the
  background thread that \<open>start\<close> has made.
\<close>

theorem restarted_client_never_stops:
  assumes "client_start (client_stop c) env = (True, c')"
  shows "cl_running c' \<and> cl_thread c' \<and> client_stop c' = c' \<and> client_send (client_steps c' ops) p = (False, client_steps c' ops)"
proof -
  have "cl_stopped (client_stop c)" by (simp add: client_stop_def)
  with assms have s: "cl_running c'" "cl_thread c'" "cl_stopped c'" by (auto simp: client_start_def Let_def split: if_splits)
  have "cl_stopped (client_step x op)" if "cl_stopped x" for x op
  proof (cases op)
    case (OpWritable os)
    with that write_loop_frame [of os 0 x] show ?thesis by (auto simp: client_handle_write_def split_beta)
  qed (use that in \<open>auto simp: client_op_defs split_beta\<close>)
  then have "cl_stopped (client_steps x ops)" if "cl_stopped x" for x using that by (induction ops arbitrary: x) simp_all
  with s show ?thesis by (simp add: client_stop_def client_send_def)
qed

theorem restarted_client_never_stops_witness:
  "\<exists>c'. client_start (client_stop (new_client ''127.0.0.1'' 9000)) env_example = (True, c') \<and> cl_thread c' \<and> client_stop c' = c'"
proof -
  obtain c' where "client_start (client_stop (new_client ''127.0.0.1'' 9000)) env_example = (True, c')"
    by (simp add: client_start_def client_stop_def new_client_def env_example_def)
  with restarted_client_never_stops show ?thesis by blast
qed

end
