(* ===== verification/Shm_Concurrent.thy ===== *)
theory Shm_Concurrent
  imports Shm_Ring
begin

text \<open>
  The ring of transport/include/transport/shm_ring.h with its one writer and any number of readers
  running at the same time. \<open>ShmRing::write\<close> and \<open>ShmRingReader::read\<close> are cut at every access to
  the shared memory; the bytes of the two \<open>memcpy\<close> calls move one at a time and in any order. The
  theory \<open>Shm_Ring\<close> gives the stores; here they interleave.

  Accesses are sequentially consistent. On the x86-64 target the code names, stores become visible
  in program order and loads are not reordered with loads; with one writer that never reads what a
  reader writes, this gives the same executions.
\<close>

section \<open>The writer\<close>

text \<open>
  Where \<open>write\<close> stands: outside, after \<open>fetch_add\<close>, after the \<open>pos | kWritingBit\<close> store, in the
  \<open>memcpy\<close> with the indexes still to be copied.
\<close>

datatype writer_pc = WIdle | WMark u64 bytes | WLen u64 bytes | WCopy u64 bytes "nat set"

definition writer_begin :: "shm_ring \<Rightarrow> bytes \<Rightarrow> writer_pc \<times> shm_ring" where
  "writer_begin r bs =
     (let len = (of_nat (length bs) :: u32) in
      if len > rg_slot_size r then (WIdle, r)
      else (let (pos, r) = claim_pos r in (WMark pos (take (unat len) bs), r)))"

fun writer_step :: "nat \<Rightarrow> writer_pc \<Rightarrow> shm_ring \<Rightarrow> (writer_pc \<times> shm_ring) option" where
  "writer_step j WIdle r = None"
| "writer_step j (WMark pos m) r = Some (WLen pos m, mark_writing pos r)"
| "writer_step j (WLen pos m) r = Some (WCopy pos m {..<length m}, store_len pos (of_nat (length m)) r)"
| "writer_step j (WCopy pos m todo) r =
     (if todo = {} then Some (WIdle, publish_pos pos r)
      else if j \<in> todo then Some (WCopy pos m (todo - {j}), store_byte pos j (m ! j) r)
      else None)"

section \<open>A reader\<close>

text \<open>
  Where \<open>read\<close> stands: outside, at the head of the loop, before the first load of \<open>seq\<close>, before the load
  of \<open>len\<close>, in the copy, which ends before the second load of \<open>seq\<close>.
\<close>

datatype reader_pc = RIdle | RTop | RSeq | RLen | RCopy bytes "nat set"

text \<open>\<open>lr_start\<close> and \<open>lr_log\<close> record where the reader began and what \<open>read\<close> returned to its caller.\<close>

record local_reader =
  lr_rd :: ring_reader
  lr_pc :: reader_pc
  lr_start :: u64
  lr_log :: "(u64 \<times> bytes) list"

definition new_reader :: "shm_ring \<Rightarrow> local_reader" where
  "new_reader r = \<lparr>lr_rd = make_reader (Some r), lr_pc = RIdle, lr_start = rg_write_seq r, lr_log = []\<rparr>"

definition reader_top :: "shm_ring \<Rightarrow> local_reader \<Rightarrow> local_reader" where
  "reader_top r l =
     (let w = rg_write_seq r in
      if rd_next (lr_rd l) \<ge> w then l\<lparr>lr_pc := RIdle\<rparr>
      else l\<lparr>lr_rd := fast_forward w (rg_slot_count r) (lr_rd l), lr_pc := RSeq\<rparr>)"

definition reader_skip :: "local_reader \<Rightarrow> local_reader" where
  "reader_skip l = l\<lparr>lr_rd := skip_one (lr_rd l), lr_pc := RTop\<rparr>"

definition reader_seq :: "shm_ring \<Rightarrow> local_reader \<Rightarrow> local_reader" where
  "reader_seq r l =
     (let s1 = sl_seq (slot_at r (rd_next (lr_rd l))) in
      if s1 AND NOT kWritingBit \<noteq> rd_next (lr_rd l) then reader_skip l
      else if s1 AND kWritingBit \<noteq> 0 then l\<lparr>lr_pc := RIdle\<rparr>
      else l\<lparr>lr_pc := RLen\<rparr>)"

text \<open>\<open>assign\<close> first sizes the string; what is in it before the copy does not matter.\<close>

definition reader_len :: "shm_ring \<Rightarrow> local_reader \<Rightarrow> local_reader" where
  "reader_len r l =
     (let len = sl_len (slot_at r (rd_next (lr_rd l))) in
      if len > rg_slot_size r then reader_skip l
      else l\<lparr>lr_pc := RCopy (replicate (unat len) CHR 0x00) {..<unat len}\<rparr>)"

definition reader_check :: "shm_ring \<Rightarrow> bytes \<Rightarrow> local_reader \<Rightarrow> local_reader" where
  "reader_check r out l =
     (let s2 = sl_seq (slot_at r (rd_next (lr_rd l))) in
      if s2 \<noteq> rd_next (lr_rd l) then reader_skip l
      else l\<lparr>lr_rd := (lr_rd l)\<lparr>rd_next := rd_next (lr_rd l) + 1\<rparr>, lr_pc := RIdle,
             lr_log := lr_log l @ [(rd_next (lr_rd l), out)]\<rparr>)"

definition reader_step :: "nat \<Rightarrow> shm_ring \<Rightarrow> local_reader \<Rightarrow> local_reader option" where
  "reader_step j r l =
     (case lr_pc l of
        RIdle \<Rightarrow> Some (l\<lparr>lr_pc := RTop\<rparr>)
      | RTop \<Rightarrow> Some (reader_top r l)
      | RSeq \<Rightarrow> Some (reader_seq r l)
      | RLen \<Rightarrow> Some (reader_len r l)
      | RCopy out todo \<Rightarrow>
          (if todo = {} then Some (reader_check r out l)
           else if j \<in> todo then
             Some (l\<lparr>lr_pc := RCopy (out[j := sl_data (slot_at r (rd_next (lr_rd l))) ! j]) (todo - {j})\<rparr>)
           else None))"

section \<open>Executions\<close>

text \<open>\<open>cs_hist\<close> lists the messages the writer has claimed a position for, in order.\<close>

record ring_system =
  cs_ring :: shm_ring
  cs_writer :: writer_pc
  cs_readers :: "nat \<Rightarrow> local_reader option"
  cs_hist :: "bytes list"

definition new_system :: "(nat \<Rightarrow> nat \<Rightarrow> char) \<Rightarrow> u32 \<Rightarrow> u32 \<Rightarrow> ring_system" where
  "new_system old cnt sz =
     \<lparr>cs_ring = ring_init old cnt sz, cs_writer = WIdle, cs_readers = (\<lambda>_. None), cs_hist = []\<rparr>"

inductive ring_step :: "ring_system \<Rightarrow> ring_system \<Rightarrow> bool" where
  begin_write: "cs_writer s = WIdle \<Longrightarrow> writer_begin (cs_ring s) bs = (WMark pos m, r) \<Longrightarrow>
    Suc (length (cs_hist s)) < pos_limit \<Longrightarrow>
    ring_step s (s\<lparr>cs_ring := r, cs_writer := WMark pos m, cs_hist := cs_hist s @ [m]\<rparr>)"
| in_write: "writer_step j (cs_writer s) (cs_ring s) = Some (pc, r) \<Longrightarrow>
    ring_step s (s\<lparr>cs_ring := r, cs_writer := pc\<rparr>)"
| add_reader: "cs_readers s i = None \<Longrightarrow>
    ring_step s (s\<lparr>cs_readers := (cs_readers s)(i \<mapsto> new_reader (cs_ring s))\<rparr>)"
| in_read: "cs_readers s i = Some l \<Longrightarrow> reader_step j (cs_ring s) l = Some l' \<Longrightarrow>
    ring_step s (s\<lparr>cs_readers := (cs_readers s)(i \<mapsto> l')\<rparr>)"

text \<open>
  The slot count is a power of two, as the code asks, and at least two: with a single slot the reader's
  fast-forward target \<open>w - n + 1\<close> would lie beyond the last written position.
\<close>

definition ring_execution :: "u32 \<Rightarrow> u32 \<Rightarrow> ring_system \<Rightarrow> bool" where
  "ring_execution cnt sz s \<longleftrightarrow> (\<exists>k < 32. unat cnt = 2 ^ k) \<and> 2 \<le> unat cnt \<and>
     (\<exists>old. ring_step\<^sup>*\<^sup>* (new_system old cnt sz) s)"

section \<open>What the shared memory holds\<close>

definition published :: "writer_pc \<Rightarrow> bytes list \<Rightarrow> nat" where
  "published pc h = (if pc = WIdle then length h else length h - 1)"

definition writer_ok :: "writer_pc \<Rightarrow> bytes list \<Rightarrow> bool" where
  "writer_ok pc h =
     (let cur = (\<lambda>pos m. h \<noteq> [] \<and> pos = of_nat (length h - 1) \<and> m = last h) in
      case pc of WIdle \<Rightarrow> True | WMark pos m \<Rightarrow> cur pos m | WLen pos m \<Rightarrow> cur pos m
      | WCopy pos m todo \<Rightarrow> cur pos m \<and> todo \<subseteq> {..<length m})"

fun marked :: "writer_pc \<Rightarrow> bool" where
  "marked WIdle = False"
| "marked (WMark pos m) = False"
| "marked (WLen pos m) = True"
| "marked (WCopy pos m todo) = True"

text \<open>The slot the writer is working on, from its mark until it publishes.\<close>

fun mid_write :: "writer_pc \<Rightarrow> shm_slot \<Rightarrow> bool" where
  "mid_write (WLen pos m) s = (sl_seq s = pos OR kWritingBit)"
| "mid_write (WCopy pos m todo) s =
     (sl_seq s = pos OR kWritingBit \<and> sl_len s = of_nat (length m) \<and>
      (\<forall>j < length m. j \<notin> todo \<longrightarrow> sl_data s ! j = m ! j))"
| "mid_write _ s = False"

definition slot_ok :: "writer_pc \<Rightarrow> bytes list \<Rightarrow> nat \<Rightarrow> nat \<Rightarrow> shm_slot \<Rightarrow> bool" where
  "slot_ok pc h n i s =
     (if marked pc \<and> i = published pc h mod n then mid_write pc s
      else slot_holds s i (take (published pc h) h) n)"

definition shared_ok :: "shm_ring \<Rightarrow> writer_pc \<Rightarrow> bytes list \<Rightarrow> bool" where
  "shared_ok r pc h \<longleftrightarrow>
     ring_geometry r \<and> length h < pos_limit \<and> rg_write_seq r = of_nat (length h) \<and>
     (\<forall>m \<in> set h. length m \<le> unat (rg_slot_size r)) \<and> writer_ok pc h \<and>
     (\<forall>i < unat (rg_slot_count r). slot_ok pc h (unat (rg_slot_count r)) i (rg_slots r ! i))"

lemma map_slot_nth:
  assumes "ring_geometry r" "i < unat (rg_slot_count r)"
  shows "rg_slots (map_slot pos f r) ! i =
    (if i = unat pos mod unat (rg_slot_count r) then f (rg_slots r ! i) else rg_slots r ! i)"
  using assms by (auto simp: map_slot_def slot_at_def slot_index_eq ring_geometry_def)

lemma slot_data_length:
  assumes "ring_geometry r" "i < unat (rg_slot_count r)"
  shows "length (sl_data (rg_slots r ! i)) = unat (rg_slot_size r)"
  using assms by (auto simp: ring_geometry_def)

lemma slot_at_nth:
  assumes "ring_geometry r" "p < pos_limit"
  shows "slot_at r (of_nat p) = rg_slots r ! (p mod unat (rg_slot_count r))"
  using assms by (simp add: slot_at_def slot_index_eq)

lemma shared_ok_idle: "shared_ok r WIdle h \<longleftrightarrow> ring_holds r h"
  by (auto simp: shared_ok_def ring_holds_def writer_ok_def slot_ok_def published_def)

lemma pos_not_marked [simp]: "p < pos_limit \<Longrightarrow> of_nat p \<noteq> (x OR kWritingBit :: u64)"
  using marked_not_pos [of p x] by metis

lemma pos_not_sentinel [simp]: "p < pos_limit \<Longrightarrow> of_nat p \<noteq> kWritingBit"
  using sentinel_not_pos [of p] by metis

lemma word_no_bit: "x AND NOT k = y \<Longrightarrow> x AND k = 0 \<Longrightarrow> x = y" for x :: u64
  by (metis bit.conj_cancel_right bit.conj_disj_distrib bit.conj_one_right bit.disj_cancel_right or.left_neutral)

text \<open>The writer's operations keep what the memory holds.\<close>

lemma writer_begin_Mark:
  assumes "writer_begin r bs = (WMark pos m, r')"
  shows "pos = rg_write_seq r" "r' = r\<lparr>rg_write_seq := rg_write_seq r + 1\<rparr>" "length m \<le> unat (rg_slot_size r)"
proof -
  from assms have n: "\<not> of_nat (length bs) > rg_slot_size r"
    and e: "pos = rg_write_seq r" "r' = r\<lparr>rg_write_seq := rg_write_seq r + 1\<rparr>"
      "m = take (unat (of_nat (length bs) :: u32)) bs"
    by (auto simp: writer_begin_def claim_pos_def Let_def split: if_splits)
  from n have "unat (of_nat (length bs) :: u32) \<le> unat (rg_slot_size r)"
    by (simp add: not_less word_le_nat_alt)
  with e show "pos = rg_write_seq r" "r' = r\<lparr>rg_write_seq := rg_write_seq r + 1\<rparr>"
    "length m \<le> unat (rg_slot_size r)" by auto
qed

lemma shared_ok_begin:
  assumes "shared_ok r WIdle h" "writer_begin r bs = (WMark pos m, r')" "Suc (length h) < pos_limit"
  shows "shared_ok r' (WMark pos m) (h @ [m])"
  using assms(1,3) writer_begin_Mark [OF assms(2)]
  by (auto simp: shared_ok_def writer_ok_def slot_ok_def published_def)

lemma shared_ok_mark:
  assumes "shared_ok r (WMark pos m) h"
  shows "shared_ok (mark_writing pos r) (WLen pos m) h"
proof -
  from assms have g: "ring_geometry r" and p: "pos = of_nat (length h - 1)" "length h - 1 < pos_limit"
    by (auto simp: shared_ok_def writer_ok_def)
  have "ring_geometry (mark_writing pos r)"
    unfolding mark_writing_def by (rule geometry_map_slot [OF g]) simp
  moreover have "slot_ok (WLen pos m) h (unat (rg_slot_count r)) i (rg_slots (mark_writing pos r) ! i)"
    if "i < unat (rg_slot_count r)" for i
    using assms that p map_slot_nth [OF g that]
    by (auto simp: shared_ok_def slot_ok_def published_def mark_writing_def)
  ultimately show ?thesis using assms
    by (auto simp: shared_ok_def writer_ok_def mark_writing_def)
qed

lemma shared_ok_len:
  assumes "shared_ok r (WLen pos m) h"
  shows "shared_ok (store_len pos (of_nat (length m)) r) (WCopy pos m {..<length m}) h"
proof -
  from assms have g: "ring_geometry r" and p: "pos = of_nat (length h - 1)" "length h - 1 < pos_limit"
    by (auto simp: shared_ok_def writer_ok_def)
  let ?r = "store_len pos (of_nat (length m)) r"
  have "ring_geometry ?r"
    unfolding store_len_def by (rule geometry_map_slot [OF g]) simp
  moreover have "slot_ok (WCopy pos m {..<length m}) h (unat (rg_slot_count r)) i (rg_slots ?r ! i)"
    if "i < unat (rg_slot_count r)" for i
    using assms that p map_slot_nth [OF g that]
    by (auto simp: shared_ok_def slot_ok_def published_def store_len_def split: if_splits)
  ultimately show ?thesis using assms
    by (auto simp: shared_ok_def writer_ok_def store_len_def)
qed

lemma shared_ok_byte:
  assumes "shared_ok r (WCopy pos m todo) h" "j \<in> todo"
  shows "shared_ok (store_byte pos j (m ! j) r) (WCopy pos m (todo - {j})) h"
proof -
  from assms have g: "ring_geometry r" and p: "pos = of_nat (length h - 1)" "length h - 1 < pos_limit"
    and t: "todo \<subseteq> {..<length m}" and m: "length m \<le> unat (rg_slot_size r)"
    by (auto simp: shared_ok_def writer_ok_def)
  let ?r = "store_byte pos j (m ! j) r"
  have "ring_geometry ?r"
    unfolding store_byte_def by (rule geometry_map_slot [OF g]) simp
  moreover have "slot_ok (WCopy pos m (todo - {j})) h (unat (rg_slot_count r)) i (rg_slots ?r ! i)"
    if "i < unat (rg_slot_count r)" for i
  proof -
    have "j < length (sl_data (rg_slots r ! i))"
      using slot_data_length [OF g that] assms(2) t m by auto
    moreover have "slot_ok (WCopy pos m todo) h (unat (rg_slot_count r)) i (rg_slots r ! i)"
      using assms(1) that by (simp add: shared_ok_def)
    ultimately show ?thesis using p map_slot_nth [OF g that]
      by (auto simp: slot_ok_def published_def store_byte_def nth_list_update split: if_splits)
  qed
  ultimately show ?thesis using assms
    by (auto simp: shared_ok_def writer_ok_def store_byte_def)
qed

lemma shared_ok_publish:
  assumes "shared_ok r (WCopy pos m {}) h"
  shows "shared_ok (publish_pos pos r) WIdle h"
proof -
  define d where "d = length h - 1"
  from assms have g: "ring_geometry r" and p: "pos = of_nat d" "d < pos_limit"
    and h: "h \<noteq> []" "m = last h" and m: "length m \<le> unat (rg_slot_size r)"
    by (auto simp: shared_ok_def writer_ok_def d_def)
  from h have hd: "take d h @ [m] = h" "length (take d h) = d" "h ! d = m" "length h = Suc d"
    by (metis append_butlast_last_id butlast_conv_take d_def, simp_all add: last_conv_nth d_def)
  let ?r = "publish_pos pos r" and ?n = "unat (rg_slot_count r)"
  have ok: "slot_ok (WCopy pos m {}) h ?n i (rg_slots r ! i)" if "i < ?n" for i
    using assms that by (simp add: shared_ok_def)
  have pd: "published (WCopy x m {}) h = d" for x by (simp add: published_def d_def)
  have "ring_geometry ?r"
    unfolding publish_pos_def by (rule geometry_map_slot [OF g]) simp
  moreover have "slot_holds (rg_slots ?r ! i) i h ?n" if "i < ?n" for i
  proof (cases "i = d mod ?n")
    case True
    with ok [OF that] have w: "mid_write (WCopy pos m {}) (rg_slots r ! i)"
      by (simp add: slot_ok_def pd)
    then have "take (length m) (sl_data (rg_slots r ! i)) = m"
      using slot_data_length [OF g that] m by (intro nth_equalityI) auto
    with True w p hd slot_count_pos [OF g] map_slot_nth [OF g that] show ?thesis
      unfolding slot_holds_def publish_pos_def by (intro disjI2 exI [of _ d]) simp
  next
    case False
    with ok [OF that] p have "slot_holds (rg_slots ?r ! i) i (take d h) ?n"
      using map_slot_nth [OF g that] by (simp add: slot_ok_def pd publish_pos_def)
    from slot_holds_other [OF this that, of m] False hd show ?thesis by simp
  qed
  ultimately have "ring_holds ?r h" using assms
    by (auto simp: shared_ok_def ring_holds_def publish_pos_def)
  then show ?thesis by (simp add: shared_ok_idle)
qed

lemma shared_ok_step:
  assumes "shared_ok r pc h" "writer_step j pc r = Some (pc', r')"
  shows "shared_ok r' pc' h"
  using assms shared_ok_mark shared_ok_len shared_ok_byte shared_ok_publish
  by (cases pc) (auto split: if_splits)

section \<open>What a reader knows\<close>

text \<open>A published position that is still in its slot has its message there.\<close>

lemma slot_holds_pos:
  assumes "slot_holds s i h n" "sl_seq s = of_nat p" "p < pos_limit" "length h < pos_limit"
  shows "p < length h \<and> sl_len s = of_nat (length (h ! p)) \<and> take (length (h ! p)) (sl_data s) = h ! p"
  using assms by (auto simp: slot_holds_def)

lemma slot_ok_pos:
  assumes "slot_ok pc h n i s" "sl_seq s = of_nat p" "p < pos_limit" "length h < pos_limit"
  shows "p < published pc h \<and> sl_len s = of_nat (length (h ! p)) \<and> take (length (h ! p)) (sl_data s) = h ! p"
proof -
  have "\<not> mid_write pc s" using assms(2,3) by (cases pc) auto
  with assms(1) have "slot_holds s i (take (published pc h) h) n"
    by (auto simp: slot_ok_def split: if_splits)
  moreover have "length (take (published pc h) h) < pos_limit" using assms(4) by simp
  ultimately show ?thesis using slot_holds_pos [of s i _ n, OF _ assms(2,3)] by fastforce
qed

lemma published_le: "published pc h \<le> length h"
  by (simp add: published_def)

lemma shared_pos:
  assumes "shared_ok r pc h" "sl_seq (slot_at r (of_nat p)) = of_nat p" "p < pos_limit"
  shows "p < published pc h" "sl_len (slot_at r (of_nat p)) = of_nat (length (h ! p))"
    "take (length (h ! p)) (sl_data (slot_at r (of_nat p))) = h ! p" "length (h ! p) \<le> unat (rg_slot_size r)"
proof -
  let ?n = "unat (rg_slot_count r)"
  from assms(1) have g: "ring_geometry r" and l: "length h < pos_limit" by (auto simp: shared_ok_def)
  have e: "slot_at r (of_nat p) = rg_slots r ! (p mod ?n)" by (rule slot_at_nth [OF g assms(3)])
  have "slot_ok pc h ?n (p mod ?n) (slot_at r (of_nat p))"
    using assms(1) slot_count_pos [OF g] by (simp add: shared_ok_def e)
  from slot_ok_pos [OF this assms(2,3) l]
  show "p < published pc h" "sl_len (slot_at r (of_nat p)) = of_nat (length (h ! p))"
    "take (length (h ! p)) (sl_data (slot_at r (of_nat p))) = h ! p" by auto
  with published_le [of pc h] assms(1) show "length (h ! p) \<le> unat (rg_slot_size r)"
    by (auto simp: shared_ok_def)
qed

text \<open>
  A step of the writer never puts an already published position back into a slot: if the
  position is there after the step, the step did not touch the slot.
\<close>

lemma marked_slot:
  assumes "shared_ok r pc h" "marked pc"
  shows "sl_seq (slot_at r (of_nat (published pc h))) = of_nat (published pc h) OR kWritingBit"
proof -
  let ?n = "unat (rg_slot_count r)" and ?d = "published pc h"
  from assms have g: "ring_geometry r" and d: "?d < pos_limit" and w: "writer_ok pc h"
    using published_le [of pc h] by (auto simp: shared_ok_def)
  have "slot_ok pc h ?n (?d mod ?n) (rg_slots r ! (?d mod ?n))"
    using assms(1) slot_count_pos [OF g] by (simp add: shared_ok_def)
  with assms(2) w show ?thesis unfolding slot_at_nth [OF g d]
    by (cases pc) (auto simp: slot_ok_def writer_ok_def published_def)
qed

lemma writer_pos:
  assumes "writer_ok pc h" "pc = WMark pos m \<or> pc = WLen pos m \<or> pc = WCopy pos m todo"
  shows "pos = of_nat (published pc h)"
  using assms by (auto simp: writer_ok_def published_def)

lemma writer_step_slot:
  assumes "shared_ok r pc h" "writer_step j pc r = Some (pc', r')" "p < published pc h"
    and "sl_seq (slot_at r' (of_nat p)) = of_nat p"
  shows "slot_at r' (of_nat p) = slot_at r (of_nat p)"
proof -
  from assms(1) have g: "ring_geometry r" and l: "length h < pos_limit" and w: "writer_ok pc h"
    by (auto simp: shared_ok_def)
  from assms(3) l published_le [of pc h] have p: "p < pos_limit" "published pc h < pos_limit" by simp_all
  note sl = slot_at_map_slot [OF g]
  show ?thesis
  proof (cases pc)
    case WIdle
    with assms(2) show ?thesis by simp
  next
    case (WMark pos m)
    with assms(2,4) p show ?thesis by (auto simp: mark_writing_def sl split: if_splits)
  next
    case (WLen pos m)
    with marked_slot [OF assms(1)] writer_pos [OF w]
    have "sl_seq (slot_at r pos) = pos OR kWritingBit" by auto
    with WLen assms(2,4) p show ?thesis by (auto simp: store_len_def sl split: if_splits)
  next
    case (WCopy pos m todo)
    with marked_slot [OF assms(1)] writer_pos [OF w]
    have e: "sl_seq (slot_at r pos) = pos OR kWritingBit" "pos = of_nat (published pc h)" by auto
    define d where "d = published pc h"
    with e have d: "sl_seq (slot_at r pos) = pos OR kWritingBit" "pos = of_nat d" "d = published pc h" by simp_all
    with assms(3) p have "p < d" "d < pos_limit" by simp_all
    with WCopy assms(2,4) p(1) d(1,2) show ?thesis
      by (auto simp: store_byte_def publish_pos_def sl split: if_splits)
  qed
qed

lemma writer_step_published:
  assumes "writer_step j pc r = Some (pc', r')"
  shows "published pc h \<le> published pc' h"
  using assms by (cases pc) (auto simp: published_def split: if_splits)

lemma writer_step_fields:
  assumes "writer_step j pc r = Some (pc', r')"
  shows "rg_slot_size r' = rg_slot_size r" "rg_slot_count r' = rg_slot_count r" "rg_write_seq r' = rg_write_seq r"
  using assms by (cases pc; auto simp: store_defs split: if_splits)+

section \<open>Reader invariant\<close>

text \<open>
  The cursor is at most at the claimed positions; the log holds written messages under their
  positions, in increasing order below the cursor; between start and cursor every position is logged
  or counted as dropped. In the middle of a copy: as long as the position is still in its
  slot, the bytes copied so far are those of its message.
\<close>

definition log_ok :: "bytes list \<Rightarrow> nat \<Rightarrow> (u64 \<times> bytes) list \<Rightarrow> bool" where
  "log_ok h p lg \<longleftrightarrow> sorted_wrt (<) (map (unat \<circ> fst) lg) \<and>
     (\<forall>(q, m) \<in> set lg. unat q < p \<and> m = h ! unat q)"

definition copy_ok :: "shm_ring \<Rightarrow> bytes list \<Rightarrow> nat \<Rightarrow> bytes \<Rightarrow> nat set \<Rightarrow> bool" where
  "copy_ok r h p out todo \<longleftrightarrow> length out \<le> unat (rg_slot_size r) \<and> todo \<subseteq> {..<length out} \<and>
     (sl_seq (slot_at r (of_nat p)) = of_nat p \<longrightarrow>
        length out = length (h ! p) \<and> (\<forall>j < length out. j \<notin> todo \<longrightarrow> out ! j = h ! p ! j))"

definition pc_ok :: "shm_ring \<Rightarrow> writer_pc \<Rightarrow> bytes list \<Rightarrow> nat \<Rightarrow> reader_pc \<Rightarrow> bool" where
  "pc_ok r wpc h p pc =
     (case pc of RIdle \<Rightarrow> True | RTop \<Rightarrow> True | RSeq \<Rightarrow> p < length h | RLen \<Rightarrow> p < published wpc h
      | RCopy out todo \<Rightarrow> p < published wpc h \<and> copy_ok r h p out todo)"

definition reader_ok :: "shm_ring \<Rightarrow> writer_pc \<Rightarrow> bytes list \<Rightarrow> local_reader \<Rightarrow> bool" where
  "reader_ok r wpc h l \<longleftrightarrow> (\<exists>p. rd_next (lr_rd l) = of_nat p \<and> p \<le> length h \<and>
     lr_start l + of_nat (length (lr_log l)) + rd_dropped (lr_rd l) = of_nat p \<and>
     log_ok h p (lr_log l) \<and> pc_ok r wpc h p (lr_pc l))"

lemma log_ok_append: "log_ok h p lg \<Longrightarrow> p \<le> length h \<Longrightarrow> log_ok (h @ [m]) p lg"
  by (fastforce simp: log_ok_def nth_append)

lemma log_ok_mono: "log_ok h p lg \<Longrightarrow> p \<le> q \<Longrightarrow> log_ok h q lg"
  by (fastforce simp: log_ok_def)

lemma log_ok_snoc: "log_ok h p lg \<Longrightarrow> p < pos_limit \<Longrightarrow> log_ok h (Suc p) (lg @ [(of_nat p, h ! p)])"
  by (fastforce simp: log_ok_def sorted_wrt_append)

lemma reader_ok_begin:
  assumes "reader_ok r WIdle h l" "writer_begin r bs = (WMark pos m, r')"
  shows "reader_ok r' (WMark pos m) (h @ [m]) l"
proof -
  from assms(1) obtain p where p: "rd_next (lr_rd l) = of_nat p" "p \<le> length h"
    "lr_start l + of_nat (length (lr_log l)) + rd_dropped (lr_rd l) = of_nat p"
    "log_ok h p (lr_log l)" "pc_ok r WIdle h p (lr_pc l)" by (auto simp: reader_ok_def)
  have "pc_ok r' (WMark pos m) (h @ [m]) p (lr_pc l)"
    using p(5) writer_begin_Mark [OF assms(2)]
    by (auto simp: pc_ok_def published_def copy_ok_def nth_append split: reader_pc.splits)
  with p log_ok_append [OF p(4,2)] show ?thesis unfolding reader_ok_def by (intro exI [of _ p]) simp
qed

lemma reader_ok_writer:
  assumes "shared_ok r pc h" "reader_ok r pc h l" "writer_step j pc r = Some (pc', r')"
  shows "reader_ok r' pc' h l"
proof -
  from assms(2) obtain p where p: "rd_next (lr_rd l) = of_nat p" "p \<le> length h"
    "lr_start l + of_nat (length (lr_log l)) + rd_dropped (lr_rd l) = of_nat p"
    "log_ok h p (lr_log l)" "pc_ok r pc h p (lr_pc l)" by (auto simp: reader_ok_def)
  note m = writer_step_published [OF assms(3), of h]
  have "pc_ok r' pc' h p (lr_pc l)"
    using p(5) m writer_step_slot [OF assms(1,3), of p] writer_step_fields [OF assms(3)]
    by (auto simp: pc_ok_def copy_ok_def split: reader_pc.splits)
  with p show ?thesis unfolding reader_ok_def by (intro exI [of _ p]) simp
qed

lemma reader_ok_new:
  assumes "shared_ok r pc h"
  shows "reader_ok r pc h (new_reader r)"
  using assms by (auto simp: reader_ok_def new_reader_def make_reader_def shared_ok_def log_ok_def pc_ok_def)

lemma reader_ok_skip:
  assumes "shared_ok r pc h" "reader_ok r pc h l" "rd_next (lr_rd l) = of_nat p" "p < length h"
  shows "reader_ok r pc h (reader_skip l)"
proof -
  from assms have "length h < pos_limit" by (simp add: shared_ok_def)
  with assms(2,3,4) show ?thesis unfolding reader_ok_def
    by (intro exI [of _ "Suc p"])
      (auto simp: reader_skip_def skip_one_def pc_ok_def algebra_simps intro: log_ok_mono)
qed

lemma fast_forward_ok:
  assumes "length h < pos_limit" "rd_next rd = of_nat p" "p < length h"
    and "a + rd_dropped rd = of_nat p" "2 \<le> unat n"
  shows "\<exists>q. rd_next (fast_forward (of_nat (length h)) n rd) = of_nat q \<and> p \<le> q \<and> q < length h \<and>
    a + rd_dropped (fast_forward (of_nat (length h)) n rd) = of_nat q"
proof (cases "of_nat (length h) - rd_next rd > (ucast n :: u64)")
  case True
  have "(of_nat (length h) - of_nat p :: u64) = of_nat (length h - p)"
    using assms(3) by (simp add: of_nat_diff)
  with True assms(1,2) have lt: "unat n < length h - p"
    by (simp add: word_less_nat_alt unat_widen del: of_nat_diff)
  define t where "t = length h - unat n + 1"
  have t: "p \<le> t" "t < length h" using lt assms(5) by (auto simp: t_def)
  have e: "(of_nat (length h) - ucast n + 1 :: u64) = of_nat t"
    using lt by (simp add: of_nat_diff t_def)
  have "a + (rd_dropped rd + (of_nat t - of_nat p)) = of_nat t"
    by (simp only: add.assoc [symmetric] assms(4)) simp
  with True t e assms(2) show ?thesis
    by (intro exI [of _ t]) (simp add: fast_forward_def Let_def)
next
  case False
  with assms show ?thesis by (intro exI [of _ p]) (simp add: fast_forward_def)
qed

lemma reader_ok_top:
  assumes "shared_ok r pc h" "reader_ok r pc h l" "lr_pc l = RTop" "2 \<le> unat (rg_slot_count r)"
  shows "reader_ok r pc h (reader_top r l)"
proof -
  from assms(1) have h: "length h < pos_limit" and w: "rg_write_seq r = of_nat (length h)" by (auto simp: shared_ok_def)
  from assms(2) obtain p where p: "rd_next (lr_rd l) = of_nat p" "p \<le> length h"
    "lr_start l + of_nat (length (lr_log l)) + rd_dropped (lr_rd l) = of_nat p"
    "log_ok h p (lr_log l)" by (auto simp: reader_ok_def)
  show ?thesis
  proof (cases "p = length h")
    case True
    with p w show ?thesis unfolding reader_ok_def
      by (intro exI [of _ p]) (simp add: reader_top_def pc_ok_def)
  next
    case False
    with p have "p < length h" by simp
    moreover from this h have "\<not> rd_next (lr_rd l) \<ge> rg_write_seq r"
      by (simp add: p(1) w word_le_nat_alt)
    moreover from fast_forward_ok [OF h p(1) \<open>p < length h\<close> p(3) assms(4)] obtain q where
      "rd_next (fast_forward (of_nat (length h)) (rg_slot_count r) (lr_rd l)) = of_nat q" "p \<le> q" "q < length h"
      "lr_start l + of_nat (length (lr_log l))
         + rd_dropped (fast_forward (of_nat (length h)) (rg_slot_count r) (lr_rd l)) = of_nat q"
      by blast
    ultimately show ?thesis unfolding reader_ok_def using p(4)
      by (intro exI [of _ q]) (simp add: reader_top_def pc_ok_def w log_ok_mono)
  qed
qed

lemma reader_ok_seq:
  assumes "shared_ok r pc h" "reader_ok r pc h l" "lr_pc l = RSeq"
  shows "reader_ok r pc h (reader_seq r l)"
proof -
  from assms obtain p where p: "rd_next (lr_rd l) = of_nat p" "p < length h" "p < pos_limit"
    "lr_start l + of_nat (length (lr_log l)) + rd_dropped (lr_rd l) = of_nat p"
    "log_ok h p (lr_log l)" by (auto simp: reader_ok_def pc_ok_def shared_ok_def)
  let ?s = "sl_seq (slot_at r (of_nat p))"
  consider "?s AND NOT kWritingBit \<noteq> of_nat p"
    | "?s AND NOT kWritingBit = of_nat p" "?s AND kWritingBit \<noteq> 0"
    | "?s AND NOT kWritingBit = of_nat p" "?s AND kWritingBit = 0" by blast
  then show ?thesis
  proof cases
    case 1
    with reader_ok_skip [OF assms(1,2) p(1,2)] p(1) show ?thesis by (simp add: reader_seq_def)
  next
    case 2
    with p show ?thesis unfolding reader_ok_def
      by (intro exI [of _ p]) (simp add: reader_seq_def pc_ok_def)
  next
    case 3
    then have "?s = of_nat p" by (rule word_no_bit)
    from shared_pos(1) [OF assms(1) this p(3)] p 3 show ?thesis unfolding reader_ok_def
      by (intro exI [of _ p]) (simp add: reader_seq_def pc_ok_def)
  qed
qed

lemma reader_ok_len:
  assumes "shared_ok r pc h" "reader_ok r pc h l" "lr_pc l = RLen"
  shows "reader_ok r pc h (reader_len r l)"
proof -
  from assms obtain p where p: "rd_next (lr_rd l) = of_nat p" "p < published pc h" "p \<le> length h"
    "lr_start l + of_nat (length (lr_log l)) + rd_dropped (lr_rd l) = of_nat p"
    "log_ok h p (lr_log l)" by (auto simp: reader_ok_def pc_ok_def)
  from p(2) published_le [of pc h] assms(1) have p': "p < length h" "p < pos_limit"
    by (auto simp: shared_ok_def)
  let ?s = "slot_at r (of_nat p)"
  have "copy_ok r h p (replicate (unat (sl_len ?s)) CHR 0x00) {..<unat (sl_len ?s)}"
    if "\<not> sl_len ?s > rg_slot_size r"
    using that shared_pos [OF assms(1) _ p'(2)] small_message [of "h ! p" r]
    by (auto simp: copy_ok_def not_less word_le_nat_alt)
  with p reader_ok_skip [OF assms(1,2) p(1) p'(1)] show ?thesis
    by (auto simp: reader_len_def reader_ok_def pc_ok_def Let_def)
qed

lemma reader_ok_check:
  assumes "shared_ok r pc h" "reader_ok r pc h l" "lr_pc l = RCopy out {}"
  shows "reader_ok r pc h (reader_check r out l)"
proof -
  from assms obtain p where p: "rd_next (lr_rd l) = of_nat p" "p < published pc h" "p \<le> length h"
    "lr_start l + of_nat (length (lr_log l)) + rd_dropped (lr_rd l) = of_nat p"
    "log_ok h p (lr_log l)" "copy_ok r h p out {}" by (auto simp: reader_ok_def pc_ok_def)
  from p(2) published_le [of pc h] assms(1) have p': "p < length h" "p < pos_limit"
    by (auto simp: shared_ok_def)
  show ?thesis
  proof (cases "sl_seq (slot_at r (of_nat p)) = of_nat p")
    case True
    with p(6) have "out = h ! p" by (auto simp: copy_ok_def intro: nth_equalityI)
    with True p p' log_ok_snoc [OF p(5) p'(2)] show ?thesis unfolding reader_ok_def
      by (intro exI [of _ "Suc p"]) (simp add: reader_check_def pc_ok_def algebra_simps)
  next
    case False
    with p reader_ok_skip [OF assms(1,2) p(1) p'(1)] show ?thesis by (simp add: reader_check_def)
  qed
qed

lemma reader_ok_byte:
  assumes "shared_ok r pc h" "reader_ok r pc h l" "lr_pc l = RCopy out todo" "j \<in> todo"
  shows "reader_ok r pc h
    (l\<lparr>lr_pc := RCopy (out[j := sl_data (slot_at r (rd_next (lr_rd l))) ! j]) (todo - {j})\<rparr>)"
proof -
  from assms obtain p where p: "rd_next (lr_rd l) = of_nat p" "p < published pc h" "p \<le> length h"
    "lr_start l + of_nat (length (lr_log l)) + rd_dropped (lr_rd l) = of_nat p"
    "log_ok h p (lr_log l)" "copy_ok r h p out todo" by (auto simp: reader_ok_def pc_ok_def)
  from p(2) published_le [of pc h] assms(1) have p': "p < pos_limit" by (auto simp: shared_ok_def)
  let ?s = "slot_at r (of_nat p)"
  have "sl_data ?s ! i = h ! p ! i" if "sl_seq ?s = of_nat p" "i < length (h ! p)" for i
    using shared_pos(3) [OF assms(1) that(1) p'] that(2) by (metis nth_take)
  with p(6) assms(4) have "copy_ok r h p (out[j := sl_data ?s ! j]) (todo - {j})"
    by (auto simp: copy_ok_def nth_list_update)
  with p show ?thesis unfolding reader_ok_def by (intro exI [of _ p]) (simp add: pc_ok_def)
qed

lemma reader_ok_step:
  assumes "shared_ok r pc h" "reader_ok r pc h l" "reader_step j r l = Some l'" "2 \<le> unat (rg_slot_count r)"
  shows "reader_ok r pc h l'"
  using assms reader_ok_top [OF assms(1,2)] reader_ok_seq [OF assms(1,2)] reader_ok_len [OF assms(1,2)]
    reader_ok_check [OF assms(1,2)] reader_ok_byte [OF assms(1,2)]
  by (auto simp: reader_step_def reader_ok_def pc_ok_def split: reader_pc.splits if_splits)

section \<open>Every execution\<close>

definition system_ok :: "u32 \<Rightarrow> u32 \<Rightarrow> ring_system \<Rightarrow> bool" where
  "system_ok cnt sz s \<longleftrightarrow> 2 \<le> unat cnt \<and> rg_slot_count (cs_ring s) = cnt \<and> rg_slot_size (cs_ring s) = sz \<and>
     shared_ok (cs_ring s) (cs_writer s) (cs_hist s) \<and>
     (\<forall>i l. cs_readers s i = Some l \<longrightarrow> reader_ok (cs_ring s) (cs_writer s) (cs_hist s) l)"

lemma system_ok_step:
  assumes "ring_step s s'" "system_ok cnt sz s"
  shows "system_ok cnt sz s'"
  using assms
proof (induction rule: ring_step.induct)
  case (begin_write s bs pos m r)
  have "rg_slot_count r = rg_slot_count (cs_ring s)" "rg_slot_size r = rg_slot_size (cs_ring s)"
    using writer_begin_Mark(2) [OF begin_write(2)] by simp_all
  with begin_write(1,4) shared_ok_begin [OF _ begin_write(2,3)] reader_ok_begin [OF _ begin_write(2)]
  show ?case by (auto simp: system_ok_def)
next
  case (in_write j s pc r)
  then show ?case using writer_step_fields [OF in_write(1)]
    by (auto simp: system_ok_def shared_ok_step reader_ok_writer)
next
  case (add_reader s i)
  then show ?case by (auto simp: system_ok_def reader_ok_new split: if_splits)
next
  case (in_read s i l j l')
  then have "reader_ok (cs_ring s) (cs_writer s) (cs_hist s) l'"
    by (intro reader_ok_step [OF _ _ in_read(2)]) (auto simp: system_ok_def)
  with in_read(3) show ?case by (auto simp: system_ok_def split: if_splits)
qed

lemma system_ok_execution:
  assumes "ring_execution cnt sz s"
  shows "system_ok cnt sz s"
proof -
  from assms obtain old k where k: "k < 32" "unat cnt = 2 ^ k" and two: "2 \<le> unat cnt"
    and run: "ring_step\<^sup>*\<^sup>* (new_system old cnt sz) s" by (auto simp: ring_execution_def)
  from run show ?thesis
  proof (induction rule: rtranclp_induct)
    case base
    have "ring_holds (ring_init old cnt sz) []" by (rule ring_init_holds [OF k(2,1)])
    then show ?case
      by (simp add: system_ok_def new_system_def shared_ok_idle) (simp add: ring_init_def two)
  next
    case (step s s')
    then show ?case by (blast intro: system_ok_step)
  qed
qed

text \<open>Where a skipped position went.\<close>

lemma mod_gap: "(p::nat) mod n = q mod n \<Longrightarrow> p < q \<Longrightarrow> p + n \<le> q"
  by (metis add.commute add_le_cancel_left dvd_imp_le le_add_diff_inverse less_imp_le_nat mod_eq_dvd_iff_nat zero_less_diff)

lemma mod_below: "(p::nat) < d \<Longrightarrow> p < e \<Longrightarrow> \<not> min e d \<le> p mod n"
  by (metis leD le_less_trans min_less_iff_conj mod_less_eq_dividend)

lemma slot_without_pos:
  assumes "shared_ok r pc h" "p < length h" "sl_seq (slot_at r (of_nat p)) AND NOT kWritingBit \<noteq> of_nat p"
  shows "p + unat (rg_slot_count r) < length h \<or> Suc p = length h \<and> \<not> marked pc \<and> pc \<noteq> WIdle"
proof -
  let ?n = "unat (rg_slot_count r)" and ?d = "published pc h" and ?s = "slot_at r (of_nat p)"
  from assms have g: "ring_geometry r" and l: "length h < pos_limit" "p < pos_limit" "?d < pos_limit"
    using published_le [of pc h] by (auto simp: shared_ok_def)
  have ok: "slot_ok pc h ?n (p mod ?n) ?s"
    using assms(1) slot_count_pos [OF g] by (simp add: shared_ok_def slot_at_nth [OF g l(2)])
  consider (mid) "marked pc" "p mod ?n = ?d mod ?n"
    | (holds) "slot_holds ?s (p mod ?n) (take ?d h) ?n" "\<not> (marked pc \<and> p mod ?n = ?d mod ?n)"
    using ok by (auto simp: slot_ok_def split: if_splits)
  then show ?thesis
  proof cases
    case mid
    then have d: "Suc ?d = length h" using assms(2) by (cases pc) (auto simp: published_def)
    have "slot_at r (of_nat ?d) = ?s" using mid(2) by (simp add: slot_at_nth [OF g] l)
    with marked_slot [OF assms(1) mid(1)] assms(3) l(3) have "p \<noteq> ?d" by auto
    with d assms(2) mod_gap [OF mid(2)] show ?thesis by simp
  next
    case holds
    have last: "Suc p = length h \<and> \<not> marked pc \<and> pc \<noteq> WIdle" if "\<not> p < ?d"
    proof -
      from that assms(2) have "pc \<noteq> WIdle" "p = ?d" "Suc p = length h"
        by (auto simp: published_def split: if_splits)
      with holds(2) show ?thesis by simp
    qed
    show ?thesis
    proof (cases "p < ?d")
      case True
      with holds(1) assms(3) l published_le [of pc h] obtain q where
        "q < ?d" "q mod ?n = p mod ?n" "?d \<le> q + ?n" "q \<noteq> p"
        using mod_below [OF True assms(2), of ?n] by (auto simp: slot_holds_def)
      with True mod_gap [of p ?n q] mod_gap [of q ?n p] published_le [of pc h] show ?thesis
        by (cases "p < q") auto
    qed (use last in blast)
  qed
qed

lemma copy_without_pos:
  assumes "shared_ok r pc h" "p < published pc h" "sl_seq (slot_at r (of_nat p)) \<noteq> of_nat p"
  shows "p + unat (rg_slot_count r) < length h"
proof -
  let ?n = "unat (rg_slot_count r)" and ?d = "published pc h" and ?s = "slot_at r (of_nat p)"
  from assms(1,2) published_le [of pc h]
  have g: "ring_geometry r" and p: "p < length h" "p < pos_limit" "?d < pos_limit" "length h < pos_limit"
    by (auto simp: shared_ok_def)
  have ok: "slot_ok pc h ?n (p mod ?n) ?s"
    using assms(1) slot_count_pos [OF g] by (simp add: shared_ok_def slot_at_nth [OF g p(2)])
  have "sl_seq ?s AND NOT kWritingBit \<noteq> of_nat p"
  proof (cases "marked pc \<and> p mod ?n = ?d mod ?n")
    case True
    then have "slot_at r (of_nat ?d) = ?s" by (simp add: slot_at_nth [OF g] p)
    with True marked_slot [OF assms(1)] p assms(2) show ?thesis by auto
  next
    case False
    with ok have "slot_holds ?s (p mod ?n) (take ?d h) ?n" by (auto simp: slot_ok_def)
    with p assms(2,3) mod_below [OF assms(2) p(1), of ?n] show ?thesis
      by (auto simp: slot_holds_def)
  qed
  from slot_without_pos [OF assms(1) p(1) this] assms(2) show ?thesis
    by (auto simp: published_def split: if_splits)
qed

section \<open>A writer alone\<close>

text \<open>What memory will be when the writer has finished the call it is in.\<close>

definition fill :: "u64 \<Rightarrow> bytes \<Rightarrow> nat set \<Rightarrow> shm_ring \<Rightarrow> shm_ring" where
  "fill pos m todo = map_slot pos (\<lambda>s. s\<lparr>sl_data :=
     map (\<lambda>j. if j \<in> todo then m ! j else sl_data s ! j) [0..<length (sl_data s)]\<rparr>)"

fun finish :: "writer_pc \<Rightarrow> shm_ring \<Rightarrow> shm_ring" where
  "finish WIdle r = r"
| "finish (WMark pos m) r = publish_pos pos (store_data pos m (store_len pos (of_nat (length m)) (mark_writing pos r)))"
| "finish (WLen pos m) r = publish_pos pos (store_data pos m (store_len pos (of_nat (length m)) r))"
| "finish (WCopy pos m todo) r = publish_pos pos (fill pos m todo r)"

fun pc_fits :: "writer_pc \<Rightarrow> u32 \<Rightarrow> bool" where
  "pc_fits WIdle sz = True"
| "pc_fits (WMark pos m) sz = (length m \<le> unat sz)"
| "pc_fits (WLen pos m) sz = (length m \<le> unat sz)"
| "pc_fits (WCopy pos m todo) sz = (todo \<subseteq> {..<length m} \<and> length m \<le> unat sz)"

lemma slot_at_data_length: "ring_geometry r \<Longrightarrow> length (sl_data (slot_at r pos)) = unat (rg_slot_size r)"
  using slot_at_mem [of r pos] by (auto simp: ring_geometry_def)

lemma map_slot_cong: "f (slot_at r pos) = g (slot_at r pos) \<Longrightarrow> map_slot pos f r = map_slot pos g r"
  by (simp add: map_slot_def)

lemma map_slot_id: "f (slot_at r pos) = slot_at r pos \<Longrightarrow> map_slot pos f r = r"
  by (simp add: map_slot_def slot_at_def)

lemma fill_empty [simp]: "fill pos m {} r = r"
  unfolding fill_def by (rule map_slot_id) (simp add: map_nth)

lemma fill_all:
  assumes "ring_geometry r" "length m \<le> unat (rg_slot_size r)"
  shows "fill pos m {..<length m} r = store_data pos m r"
proof -
  let ?d = "sl_data (slot_at r pos)"
  have "map (\<lambda>j. if j < length m then m ! j else ?d ! j) [0..<length ?d] = m @ drop (length m) ?d"
    using slot_at_data_length [OF assms(1), of pos] assms(2)
    by (intro nth_equalityI) (auto simp: nth_append)
  then show ?thesis unfolding fill_def store_data_def by (intro map_slot_cong) simp
qed

lemma fill_byte:
  assumes "ring_geometry r" "j \<in> todo" "todo \<subseteq> {..<unat (rg_slot_size r)}"
  shows "fill pos m (todo - {j}) (store_byte pos j (m ! j) r) = fill pos m todo r"
proof -
  let ?d = "sl_data (slot_at r pos)"
  have "map (\<lambda>i. if i \<in> todo \<and> i \<noteq> j then m ! i else ?d[j := m ! j] ! i) [0..<length ?d] =
    map (\<lambda>i. if i \<in> todo then m ! i else ?d ! i) [0..<length ?d]"
    using assms slot_at_data_length [OF assms(1), of pos] by (auto simp: nth_list_update)
  then show ?thesis unfolding fill_def store_byte_def map_slot_twice [OF assms(1)]
    by (intro map_slot_cong) (simp add: comp_def del: map_eq_conv cong: if_cong)
qed

lemma writer_step_finish:
  assumes "writer_step j pc r = Some (pc', r')" "ring_geometry r" "pc_fits pc (rg_slot_size r)"
  shows "finish pc' r' = finish pc r \<and> ring_geometry r' \<and> pc_fits pc' (rg_slot_size r') \<and>
         rg_slot_size r' = rg_slot_size r"
proof (cases pc)
  case WIdle
  with assms(1) show ?thesis by simp
next
  case (WMark pos m)
  with assms show ?thesis by (auto simp: mark_writing_def intro!: geometry_map_slot)
next
  case (WLen pos m)
  with assms have "ring_geometry (store_len pos (of_nat (length m)) r)"
    by (auto simp: store_len_def intro!: geometry_map_slot)
  with WLen assms fill_all [of r'] show ?thesis by (auto simp: store_len_def)
next
  case (WCopy pos m todo)
  with assms have "todo \<subseteq> {..<unat (rg_slot_size r)}" by auto
  with WCopy assms fill_byte [OF assms(2), of j todo] show ?thesis
    by (auto simp: store_byte_def publish_pos_def intro!: geometry_map_slot split: if_splits)
qed

text \<open>An uninterrupted run of the writer, copying the bytes in any order.\<close>

inductive writer_alone :: "writer_pc \<times> shm_ring \<Rightarrow> writer_pc \<times> shm_ring \<Rightarrow> bool" where
  alone_done: "writer_alone c c"
| alone_step: "writer_step j pc r = Some (pc', r') \<Longrightarrow> writer_alone (pc', r') c \<Longrightarrow> writer_alone (pc, r) c"

lemma writer_alone_finish:
  assumes "writer_alone c c'" "ring_geometry (snd c)" "pc_fits (fst c) (rg_slot_size (snd c))"
  shows "finish (fst c') (snd c') = finish (fst c) (snd c)"
  using assms
proof (induction rule: writer_alone.induct)
  case (alone_step j pc r pc' r' c)
  with writer_step_finish [OF alone_step(1)] show ?case by auto
qed simp

fun steps_left :: "writer_pc \<Rightarrow> nat" where
  "steps_left WIdle = 0"
| "steps_left (WMark pos m) = length m + 3"
| "steps_left (WLen pos m) = length m + 2"
| "steps_left (WCopy pos m todo) = card todo + 1"

lemma writer_can_step:
  assumes "pc \<noteq> WIdle" "pc_fits pc sz"
  shows "\<exists>j pc' r'. writer_step j pc r = Some (pc', r') \<and> steps_left pc' < steps_left pc"
proof (cases pc)
  case (WCopy pos m todo)
  with assms(2) have "finite todo" by (auto intro: finite_subset)
  show ?thesis
  proof (cases "todo = {}")
    case False
    then obtain j where j: "j \<in> todo" by auto
    with \<open>finite todo\<close> have "card (todo - {j}) < card todo" by (rule card_Diff1_less)
    with WCopy j show ?thesis by (intro exI [of _ j]) auto
  qed (simp add: WCopy)
qed (use assms(1) in auto)

lemma writer_alone_ends:
  assumes "ring_geometry r" "pc_fits pc (rg_slot_size r)"
  shows "\<exists>r'. writer_alone (pc, r) (WIdle, r')"
  using assms
proof (induction "steps_left pc" arbitrary: pc r rule: less_induct)
  case less
  show ?case
  proof (cases "pc = WIdle")
    case False
    from writer_can_step [OF this less(3)] obtain j pc' r' where
      s: "writer_step j pc r = Some (pc', r')" "steps_left pc' < steps_left pc" by blast
    from less(1) [OF s(2), of r'] writer_step_finish [OF s(1) less(2,3)]
    show ?thesis using alone_step [OF s(1)] by blast
  qed (auto intro: alone_done)
qed

section \<open>Schedules\<close>

text \<open>
  A schedule names who moves next; running one gives an execution. Schedules serve to exhibit
  executions and write at most 100 messages.
\<close>

datatype ring_event = Begin bytes | Writer nat | Attach nat | Reader nat nat

fun ring_event_step :: "ring_event \<Rightarrow> ring_system \<Rightarrow> ring_system option" where
  "ring_event_step (Begin bs) s =
     (if cs_writer s = WIdle \<and> length (cs_hist s) < 100 then
        (case writer_begin (cs_ring s) bs of
           (WMark pos m, r) \<Rightarrow> Some (s\<lparr>cs_ring := r, cs_writer := WMark pos m, cs_hist := cs_hist s @ [m]\<rparr>)
         | _ \<Rightarrow> None)
      else None)"
| "ring_event_step (Writer j) s =
     map_option (\<lambda>(pc, r). s\<lparr>cs_ring := r, cs_writer := pc\<rparr>) (writer_step j (cs_writer s) (cs_ring s))"
| "ring_event_step (Attach i) s =
     (if cs_readers s i = None then Some (s\<lparr>cs_readers := (cs_readers s)(i \<mapsto> new_reader (cs_ring s))\<rparr>) else None)"
| "ring_event_step (Reader i j) s =
     (case cs_readers s i of
        None \<Rightarrow> None
      | Some l \<Rightarrow> map_option (\<lambda>l'. s\<lparr>cs_readers := (cs_readers s)(i \<mapsto> l')\<rparr>) (reader_step j (cs_ring s) l))"

fun run_schedule :: "ring_event list \<Rightarrow> ring_system \<Rightarrow> ring_system option" where
  "run_schedule [] s = Some s"
| "run_schedule (e # es) s = (case ring_event_step e s of None \<Rightarrow> None | Some s' \<Rightarrow> run_schedule es s')"

lemma ring_event_step_sound: "ring_event_step e s = Some s' \<Longrightarrow> ring_step s s'"
  by (cases e) (auto simp: pos_limit_def split: if_splits option.splits writer_pc.splits prod.splits
      intro: begin_write in_write add_reader in_read)

lemma run_schedule_sound: "run_schedule es s = Some s' \<Longrightarrow> ring_step\<^sup>*\<^sup>* s s'"
proof (induction es arbitrary: s)
  case (Cons e es)
  then show ?case
    by (auto split: option.splits intro: converse_rtranclp_into_rtranclp ring_event_step_sound)
qed simp

lemma run_execution:
  assumes "run_schedule es (new_system old cnt sz) = Some s" "unat cnt = 2 ^ k" "k < 32" "2 \<le> unat cnt"
  shows "ring_execution cnt sz s"
  using assms run_schedule_sound unfolding ring_execution_def by blast

section \<open>Properties\<close>

lemma execution_reader:
  assumes "ring_execution cnt sz s" "cs_readers s i = Some l"
  obtains p where "shared_ok (cs_ring s) (cs_writer s) (cs_hist s)" "rd_next (lr_rd l) = of_nat p"
    "p \<le> length (cs_hist s)" "lr_start l + of_nat (length (lr_log l)) + rd_dropped (lr_rd l) = of_nat p"
    "log_ok (cs_hist s) p (lr_log l)" "pc_ok (cs_ring s) (cs_writer s) (cs_hist s) p (lr_pc l)"
    "rg_slot_size (cs_ring s) = sz" "rg_slot_count (cs_ring s) = cnt" "length (cs_hist s) < pos_limit"
  using system_ok_execution [OF assms(1)] assms(2)
  by (fastforce simp: system_ok_def reader_ok_def shared_ok_def)

text \<open>
  C5: No torn reads. In every interleaving of one writer and any number of readers, what \<open>read\<close>
  returned to a reader are messages of the writer, each complete and unchanged and from the position the reader
  was at, and their positions strictly increase.
\<close>

theorem shm_no_torn_reads:
  assumes "ring_execution cnt sz s" "cs_readers s i = Some l"
  shows "(\<forall>(q, m) \<in> set (lr_log l). unat q < length (cs_hist s) \<and> m = cs_hist s ! unat q) \<and>
    sorted_wrt (<) (map (unat \<circ> fst) (lr_log l))"
  using assms by (rule execution_reader) (fastforce simp: log_ok_def)

definition one_read :: "ring_event list" where
  "one_read = [Attach 0, Begin ''ab'', Writer 0, Writer 0, Writer 1, Writer 0, Writer 0,
     Reader 0 0, Reader 0 0, Reader 0 0, Reader 0 0, Reader 0 0, Reader 0 1, Reader 0 0]"

definition zero_byte :: "nat \<Rightarrow> nat \<Rightarrow> char" where
  "zero_byte i j = CHR 0x00"

lemma one_read_evaluates:
  "case run_schedule one_read (new_system zero_byte 2 4) of None \<Rightarrow> False
   | Some s \<Rightarrow> map_option lr_log (cs_readers s 0) = Some [(0, ''ab'')] \<and> cs_hist s = [''ab'']"
  by code_simp

lemma one_read_execution:
  "\<exists>s l. ring_execution 2 4 s \<and> cs_readers s 0 = Some l \<and> lr_log l = [(0, ''ab'')] \<and> cs_hist s = [''ab'']"
  using one_read_evaluates run_execution [of one_read zero_byte 2 4 _ 1]
  by (auto split: option.splits)

theorem shm_no_torn_reads_witness:
  "\<exists>s l. ring_execution 2 4 s \<and> cs_readers s 0 = Some l \<and> lr_log l = [(0, ''ab'')] \<and>
    (\<forall>(q, m) \<in> set (lr_log l). unat q < length (cs_hist s) \<and> m = cs_hist s ! unat q) \<and>
    sorted_wrt (<) (map (unat \<circ> fst) (lr_log l))"
  using one_read_execution shm_no_torn_reads [of 2 4 _ 0] by blast

text \<open>
  C34: Every position between a reader's start and its cursor was either returned to it or counted as
  dropped, and the cursor never passes the writer, in every interleaving.
\<close>

theorem shm_reader_accounts:
  assumes "ring_execution cnt sz s" "cs_readers s i = Some l"
  shows "lr_start l + of_nat (length (lr_log l)) + rd_dropped (lr_rd l) = rd_next (lr_rd l) \<and>
    rd_next (lr_rd l) \<le> rg_write_seq (cs_ring s)"
  using assms by (rule execution_reader) (simp add: shared_ok_def word_le_nat_alt)

theorem shm_reader_accounts_witness:
  "\<exists>s l. ring_execution 2 4 s \<and> cs_readers s 0 = Some l \<and> lr_log l = [(0, ''ab'')] \<and>
    lr_start l + of_nat (length (lr_log l)) + rd_dropped (lr_rd l) = rd_next (lr_rd l) \<and>
    rd_next (lr_rd l) \<le> rg_write_seq (cs_ring s)"
  using one_read_execution shm_reader_accounts [of 2 4 _ 0] by blast

text \<open>
  C35: Memory safety of the copies: the writer copies only inside the slot's payload, and a reader, whatever
  length word it loaded, only copies indexes below \<open>slot_size\<close>.
\<close>

theorem shm_copies_in_bounds:
  assumes "ring_execution cnt sz s"
  shows "(\<forall>pos m todo. cs_writer s = WCopy pos m todo \<longrightarrow> todo \<subseteq> {..<unat sz}) \<and>
    (\<forall>i l out todo. cs_readers s i = Some l \<and> lr_pc l = RCopy out todo \<longrightarrow>
       length out \<le> unat sz \<and> todo \<subseteq> {..<length out})"
proof (intro conjI allI impI)
  fix pos m todo assume "cs_writer s = WCopy pos m todo"
  with system_ok_execution [OF assms] have "todo \<subseteq> {..<length m}" "m \<in> set (cs_hist s)"
    and "\<forall>m \<in> set (cs_hist s). length m \<le> unat sz"
    by (auto simp: system_ok_def shared_ok_def writer_ok_def)
  then show "todo \<subseteq> {..<unat sz}" by fastforce
next
  fix i l out todo assume l: "cs_readers s i = Some l \<and> lr_pc l = RCopy out todo"
  then have "cs_readers s i = Some l" by simp
  with assms show "length out \<le> unat sz" "todo \<subseteq> {..<length out}"
    by (rule execution_reader, use l in \<open>auto simp: pc_ok_def copy_ok_def\<close>)+
qed

lemma part_read_evaluates:
  "case run_schedule (take 12 one_read) (new_system zero_byte 2 4) of None \<Rightarrow> False
   | Some s \<Rightarrow> map_option lr_pc (cs_readers s 0) = Some (RCopy [CHR ''a'', CHR 0x00] {1})"
  by code_simp

theorem shm_copies_in_bounds_witness:
  "\<exists>s l. ring_execution 2 4 s \<and> cs_readers s 0 = Some l \<and> lr_pc l = RCopy [CHR ''a'', CHR 0x00] {1} \<and>
    length [CHR ''a'', CHR 0x00] \<le> unat (4 :: u32) \<and> {1} \<subseteq> {..<length [CHR ''a'', CHR 0x00]}"
  using part_read_evaluates run_execution [of "take 12 one_read" zero_byte 2 4 _ 1] shm_copies_in_bounds [of 2 4]
  by (fastforce split: option.splits)

text \<open>
  Why a reader skips a position while it works on it: either the writer has claimed the position one
  ring later, so that the slot is overwritten, or the position is the newest one and the writer
  stands between \<open>fetch_add\<close> and the marking of the slot.
\<close>

theorem shm_skip_reason:
  assumes "ring_execution cnt sz s" "cs_readers s i = Some l"
    and "reader_step j (cs_ring s) l = Some l'" "lr_pc l \<noteq> RIdle" "lr_pc l' = RTop"
  shows "unat (rd_next (lr_rd l)) + unat cnt < length (cs_hist s) \<or>
    Suc (unat (rd_next (lr_rd l))) = length (cs_hist s) \<and> (\<exists>pos m. cs_writer s = WMark pos m)"
  using assms(1,2)
proof (rule execution_reader)
  fix p
  let ?r = "cs_ring s" and ?w = "cs_writer s" and ?h = "cs_hist s"
  assume ok: "shared_ok ?r ?w ?h" and n: "rd_next (lr_rd l) = of_nat p" and pc: "pc_ok ?r ?w ?h p (lr_pc l)"
    and b: "rg_slot_size ?r = sz" "rg_slot_count ?r = cnt" "length ?h < pos_limit" "p \<le> length ?h"
  have u: "unat (rd_next (lr_rd l)) = p" using n b by simp
  show ?thesis
  proof (cases "lr_pc l")
    case RSeq
    with assms(3,5) pc n have "p < length ?h" "sl_seq (slot_at ?r (of_nat p)) AND NOT kWritingBit \<noteq> of_nat p"
      by (auto simp: reader_step_def reader_seq_def pc_ok_def Let_def split: if_splits)
    from slot_without_pos [OF ok this] show ?thesis using u b by (cases ?w) auto
  next
    case RLen
    with assms(3,5) pc n have p: "p < published ?w ?h" and big: "sl_len (slot_at ?r (of_nat p)) > rg_slot_size ?r"
      by (auto simp: reader_step_def reader_len_def pc_ok_def Let_def split: if_splits)
    from p published_le [of ?w ?h] b have l: "p < pos_limit" by simp
    have "sl_seq (slot_at ?r (of_nat p)) \<noteq> of_nat p"
      using big shared_pos(2,4) [OF ok _ l] small_message by (fastforce simp: word_less_nat_alt)
    from copy_without_pos [OF ok p this] show ?thesis using u b by simp
  next
    case (RCopy out todo)
    with assms(3,5) pc n have "p < published ?w ?h" "sl_seq (slot_at ?r (of_nat p)) \<noteq> of_nat p"
      by (auto simp: reader_step_def reader_check_def pc_ok_def Let_def split: if_splits)
    from copy_without_pos [OF ok this] show ?thesis using u b by simp
  qed (use assms in \<open>auto simp: reader_step_def reader_top_def Let_def split: if_splits\<close>)
qed

definition claim_window :: "ring_event list" where
  "claim_window = [Begin ''a'', Writer 0, Writer 0, Writer 0, Writer 0, Attach 0, Begin ''b'',
     Reader 0 0, Reader 0 0]"

lemma claim_window_evaluates:
  "case run_schedule claim_window (new_system zero_byte 2 4) of None \<Rightarrow> False
   | Some s \<Rightarrow> (case cs_readers s 0 of None \<Rightarrow> False
      | Some l \<Rightarrow> map_option lr_pc (reader_step 0 (cs_ring s) l) = Some RTop \<and> lr_pc l = RSeq)"
  by code_simp

theorem shm_skip_reason_witness:
  "\<exists>s l l'. ring_execution 2 4 s \<and> cs_readers s 0 = Some l \<and> reader_step 0 (cs_ring s) l = Some l' \<and>
    lr_pc l = RSeq \<and> lr_pc l' = RTop \<and>
    (unat (rd_next (lr_rd l)) + unat (2 :: u32) < length (cs_hist s) \<or>
     Suc (unat (rd_next (lr_rd l))) = length (cs_hist s) \<and> (\<exists>pos m. cs_writer s = WMark pos m))"
proof -
  obtain s l l' where s: "ring_execution 2 4 s" "cs_readers s 0 = Some l"
    "reader_step 0 (cs_ring s) l = Some l'" "lr_pc l = RSeq" "lr_pc l' = RTop"
    using claim_window_evaluates run_execution [of claim_window zero_byte 2 4 _ 1]
    by (auto split: option.splits)
  with shm_skip_reason [of 2 4 s 0 l 0 l'] show ?thesis by fastforce
qed

lemma writer_alone_shared:
  assumes "writer_alone c c'" "shared_ok (snd c) (fst c) h"
  shows "shared_ok (snd c') (fst c') h"
  using assms by (induction rule: writer_alone.induct) (auto dest: shared_ok_step)

text \<open>
  The claim window loses a message. A reader that is up to date and polls between the \<open>fetch_add\<close> and the
  marking of the slot sees the slot's previous position, counts the new message as dropped and
  moves past it, although nothing overwrites it: when the writer finishes, the ring holds it.
\<close>

theorem shm_claim_window_drops:
  assumes "ring_holds r h" "h \<noteq> []" "Suc (length h) < pos_limit" "writer_begin r bs = (WMark pos m, r')"
    and "lr_pc l = RTop" "rd_next (lr_rd l) = of_nat (length h)"
  shows "\<exists>l1. reader_step j r' l = Some l1 \<and> reader_step k r' l1 = Some (reader_skip l) \<and>
    rd_next (lr_rd (reader_skip l)) = of_nat (Suc (length h)) \<and>
    writer_alone (WMark pos m, r') (WIdle, finish (WMark pos m) r') \<and>
    ring_holds (finish (WMark pos m) r') (h @ [m])"
proof -
  let ?n = "unat (rg_slot_count r')" and ?p = "length h"
  have ok: "shared_ok r' (WMark pos m) (h @ [m])"
    using shared_ok_begin [OF _ assms(4,3)] assms(1) by (simp add: shared_ok_idle)
  then have g: "ring_geometry r'" and w: "rg_write_seq r' = of_nat (Suc ?p)"
    and fits: "pc_fits (WMark pos m) (rg_slot_size r')" by (auto simp: shared_ok_def)
  have n: "0 < ?n" by (rule slot_count_pos [OF g])
  have "slot_ok (WMark pos m) (h @ [m]) ?n (?p mod ?n) (slot_at r' (of_nat ?p))"
    using ok n assms(3) by (simp add: shared_ok_def slot_at_nth [OF g])
  then have "slot_holds (slot_at r' (of_nat ?p)) (?p mod ?n) h ?n" by (simp add: slot_ok_def published_def)
  then have skip: "sl_seq (slot_at r' (of_nat ?p)) AND NOT kWritingBit \<noteq> of_nat ?p"
    using assms(2,3) pos_inject [of 0 ?p] by (auto simp: slot_holds_def)
  have lt: "\<not> (of_nat ?p :: u64) \<ge> of_nat (Suc ?p)"
    using assms(3) unat_pos [of "Suc ?p"] unat_pos [of ?p] by (simp add: word_le_nat_alt del: of_nat_Suc unat_pos)
  have "(of_nat (Suc ?p) - of_nat ?p :: u64) = 1" by simp
  moreover have "\<not> (1 :: u64) > ucast (rg_slot_count r')"
    using n by (simp add: word_less_nat_alt unat_widen)
  ultimately have ff: "fast_forward (of_nat (Suc ?p)) (rg_slot_count r') (lr_rd l) = lr_rd l"
    unfolding fast_forward_def assms(6) by (simp only: if_False)
  have top: "reader_step j r' l = Some (l\<lparr>lr_pc := RSeq\<rparr>)"
    unfolding reader_step_def reader_top_def w assms(6) by (simp only: assms(5) reader_pc.case Let_def lt ff if_False) simp
  moreover have "reader_step k r' (l\<lparr>lr_pc := RSeq\<rparr>) = Some (reader_skip l)"
    using skip assms(6) by (simp add: reader_step_def reader_seq_def reader_skip_def)
  moreover obtain r'' where a: "writer_alone (WMark pos m, r') (WIdle, r'')"
    using writer_alone_ends [OF g fits] by blast
  moreover from writer_alone_finish [OF a] g fits have "finish (WMark pos m) r' = r''" by simp
  moreover have "ring_holds r'' (h @ [m])"
    using writer_alone_shared [OF a] ok by (simp add: shared_ok_idle)
  ultimately show ?thesis using assms(6) by (simp add: reader_skip_def skip_one_def)
qed

theorem shm_claim_window_drops_witness:
  "\<exists>r r' l1. ring_holds r [''a''] \<and> writer_begin r ''b'' = (WMark 1 ''b'', r') \<and>
    reader_step 0 r' ((new_reader r)\<lparr>lr_pc := RTop\<rparr>) = Some l1 \<and>
    reader_step 0 r' l1 = Some (reader_skip ((new_reader r)\<lparr>lr_pc := RTop\<rparr>)) \<and>
    ring_holds (finish (WMark 1 ''b'') r') [''a'', ''b'']"
proof -
  define r where "r = snd (ring_write (ring_init zero_byte 2 4) ''a'')"
  have "ring_holds (ring_init zero_byte 2 4) []" by (rule ring_init_holds [where k = 1]) simp_all
  with ring_write_holds [of "ring_init zero_byte 2 4" "[]" "''a''"]
  have r: "ring_holds r [''a'']" "rg_slot_size r = 4"
    by (auto simp: r_def ring_init_def pos_limit_def)
  then have w: "rg_write_seq r = 1" by (simp add: ring_holds_def)
  have b: "writer_begin r ''b'' = (WMark 1 ''b'', r\<lparr>rg_write_seq := 2\<rparr>)"
    using r w by (simp add: writer_begin_def claim_pos_def)
  from shm_claim_window_drops [OF r(1) _ _ b, of "(new_reader r)\<lparr>lr_pc := RTop\<rparr>" 0 0] w r b
  show ?thesis by (fastforce simp: pos_limit_def new_reader_def make_reader_def)
qed

text \<open>
  C36: Refinement. However the bytes are copied, an uninterrupted writer that has claimed a position
  comes to the end of \<open>write\<close>, and leaves the memory \<open>ring_write\<close> gives.
\<close>

theorem shm_writer_refines_write:
  assumes "ring_geometry r" "length bs \<le> unat (rg_slot_size r)"
  shows "\<exists>r'. writer_alone (writer_begin r bs) (WIdle, r') \<and>
    (\<forall>r''. writer_alone (writer_begin r bs) (WIdle, r'') \<longleftrightarrow> ring_write r bs = (True, r''))"
proof -
  from assms(2) have u: "unat (of_nat (length bs) :: u32) = length bs" by (rule small_message)
  with assms(2) have f: "\<not> of_nat (length bs) > rg_slot_size r" by (simp add: word_less_nat_alt)
  define r1 where "r1 = r\<lparr>rg_write_seq := rg_write_seq r + 1\<rparr>"
  have b: "writer_begin r bs = (WMark (rg_write_seq r) bs, r1)"
    using f u by (simp add: writer_begin_def claim_pos_def r1_def)
  have g: "ring_geometry r1" "pc_fits (WMark (rg_write_seq r) bs) (rg_slot_size r1)"
    using assms by (simp_all add: r1_def)
  have w: "ring_write r bs = (True, finish (WMark (rg_write_seq r) bs) r1)"
    using f u by (simp add: ring_write_def ring_write_raw_def claim_pos_def r1_def)
  obtain r' where a: "writer_alone (writer_begin r bs) (WIdle, r')"
    using writer_alone_ends [OF g] b by auto
  have e: "r'' = finish (WMark (rg_write_seq r) bs) r1"
    if "writer_alone (writer_begin r bs) (WIdle, r'')" for r''
    using writer_alone_finish [OF that] g b by simp
  show ?thesis using a e w by (intro exI [of _ r']) auto
qed

theorem shm_writer_refines_write_witness:
  "\<exists>r'. writer_alone (writer_begin (ring_init zero_byte 2 4) ''ab'') (WIdle, r') \<and>
    (\<forall>r''. writer_alone (writer_begin (ring_init zero_byte 2 4) ''ab'') (WIdle, r'') \<longleftrightarrow>
       ring_write (ring_init zero_byte 2 4) ''ab'' = (True, r''))"
proof (rule shm_writer_refines_write)
  have "ring_holds (ring_init zero_byte 2 4) []" by (rule ring_init_holds [where k = 1]) simp_all
  then show "ring_geometry (ring_init zero_byte 2 4)" by (simp add: ring_holds_def)
qed (simp add: ring_init_def)

end
