(* ===== verification/C_Text.thy ===== *)
theory C_Text
  imports MM_Prelude
begin

text \<open>
  The text functions of the C and C++ libraries that the configuration parser and the command lines use:
  \<open>std::getline\<close> on a stream, \<open>strtol\<close>, \<open>strtoull\<close> and \<open>std::from_chars\<close> in base 10, with 64-bit \<open>long\<close>.
\<close>

section \<open>Lines\<close>

abbreviation newline :: string where
  "newline \<equiv> [CHR 0x0A]"

text \<open>The lines \<open>std::getline\<close> gives until it fails: a last line without a newline counts, an empty rest does not.\<close>

fun getlines :: "string \<Rightarrow> string list" where
  "getlines [] = []"
| "getlines (c # s) =
     (if c = CHR 0x0A then [] # getlines s
      else (case getlines s of [] \<Rightarrow> [[c]] | l # ls \<Rightarrow> (c # l) # ls))"

definition unlines :: "string list \<Rightarrow> string" where
  "unlines ls = concat (map (\<lambda>l. l @ [CHR 0x0A]) ls)"

lemma getlines_line: "CHR 0x0A \<notin> set l \<Longrightarrow> getlines (l @ CHR 0x0A # s) = l # getlines s"
  by (induction l) auto

lemma getlines_single: "CHR 0x0A \<notin> set l \<Longrightarrow> l \<noteq> [] \<Longrightarrow> getlines l = [l]"
proof (induction l)
  case (Cons c l)
  then show ?case by (cases l) auto
qed simp

lemma getlines_unlines: "\<forall>l \<in> set ls. CHR 0x0A \<notin> set l \<Longrightarrow> getlines (unlines ls) = ls"
  by (induction ls) (simp_all add: unlines_def getlines_line)

lemma getlines_no_newline: "l \<in> set (getlines s) \<Longrightarrow> CHR 0x0A \<notin> set l"
  by (induction s arbitrary: l rule: getlines.induct) (auto split: if_splits list.splits)

section \<open>Numbers\<close>

text \<open>
  What the \<open>strto...\<close> functions read: whether there is a minus sign, the digits, and the rest of the text after
  them. Without digits there is no conversion and the end pointer is the start of the text.
\<close>

record strto_scan =
  sc_negative :: bool
  sc_digits :: string
  sc_rest :: string

definition scan_number :: "string \<Rightarrow> strto_scan" where
  "scan_number text =
     (let s = dropWhile isspace text;
          (neg, s) = (case s of
              [] \<Rightarrow> (False, s)
            | c # r \<Rightarrow> if c = CHR ''-'' then (True, r) else if c = CHR ''+'' then (False, r) else (False, s))
      in \<lparr>sc_negative = neg, sc_digits = takeWhile isdigit s, sc_rest = dropWhile isdigit s\<rparr>)"

text \<open>Value, whether the end pointer is the start, the text at the end pointer, and \<open>errno == ERANGE\<close>.\<close>

record strto_result =
  st_value :: int
  st_no_conversion :: bool
  st_end :: string
  st_erange :: bool

definition strtol :: "string \<Rightarrow> strto_result" where
  "strtol text =
     (let sc = scan_number text;
          v = (if sc_negative sc then - int (dec_value (sc_digits sc)) else int (dec_value (sc_digits sc)))
      in if sc_digits sc = [] then \<lparr>st_value = 0, st_no_conversion = True, st_end = text, st_erange = False\<rparr>
         else if v < - (2 ^ 63) then
           \<lparr>st_value = - (2 ^ 63), st_no_conversion = False, st_end = sc_rest sc, st_erange = True\<rparr>
         else if v > 2 ^ 63 - 1 then
           \<lparr>st_value = 2 ^ 63 - 1, st_no_conversion = False, st_end = sc_rest sc, st_erange = True\<rparr>
         else \<lparr>st_value = v, st_no_conversion = False, st_end = sc_rest sc, st_erange = False\<rparr>)"

text \<open>\<open>strtoull\<close> negates modulo \<open>2^64\<close> after a minus sign.\<close>

definition strtoull :: "string \<Rightarrow> strto_result" where
  "strtoull text =
     (let sc = scan_number text; n = int (dec_value (sc_digits sc))
      in if sc_digits sc = [] then \<lparr>st_value = 0, st_no_conversion = True, st_end = text, st_erange = False\<rparr>
         else if n > 2 ^ 64 - 1 then
           \<lparr>st_value = 2 ^ 64 - 1, st_no_conversion = False, st_end = sc_rest sc, st_erange = True\<rparr>
         else \<lparr>st_value = (if sc_negative sc then (- n) mod 2 ^ 64 else n), st_no_conversion = False,
               st_end = sc_rest sc, st_erange = False\<rparr>)"

text \<open>\<open>std::from_chars\<close> over a whole text, for an unsigned 64-bit result.\<close>

definition from_chars_u64 :: "string \<Rightarrow> nat option" where
  "from_chars_u64 text =
     (if text \<noteq> [] \<and> list_all isdigit text \<and> dec_value text < 2 ^ 64 then Some (dec_value text) else None)"

lemma takeWhile_to_string [simp]: "takeWhile isdigit (to_string n) = to_string n"
  using to_string_digits by (simp add: takeWhile_eq_all_conv)

lemma dropWhile_to_string [simp]: "dropWhile isdigit (to_string n) = []"
  using to_string_digits by (simp add: dropWhile_eq_Nil_conv)

lemma to_string_hd: "\<exists>c r. to_string n = c # r \<and> isdigit c"
  using to_string_digits [of _ n] by (cases "to_string n") auto

lemma scan_to_string [simp]:
  "scan_number (to_string n) = \<lparr>sc_negative = False, sc_digits = to_string n, sc_rest = []\<rparr>"
proof -
  obtain c r where c: "to_string n = c # r" "isdigit c" using to_string_hd by blast
  then have "\<not> isspace c" "c \<noteq> CHR ''-''" "c \<noteq> CHR ''+''" by (auto simp: isdigit_def isspace_def)
  then have "(case dropWhile isspace (to_string n) of
       [] \<Rightarrow> (False, dropWhile isspace (to_string n))
     | c # r \<Rightarrow> if c = CHR ''-'' then (True, r) else if c = CHR ''+'' then (False, r) else (False, dropWhile isspace (to_string n))) =
     (False, to_string n)"
    by (simp add: c(1))
  then show ?thesis by (simp add: scan_number_def)
qed

lemma from_chars_to_string [simp]: "n < 2 ^ 64 \<Longrightarrow> from_chars_u64 (to_string n) = Some n"
  using to_string_digits by (simp add: from_chars_u64_def list_all_iff)

end
