(* ===== verification/Config.thy ===== *)
theory Config
  imports C_Text Pub_Sub
begin

text \<open>
  The configuration parser (config/include/config/config.h, config/src/config.cpp): sections, \<open>key: value\<close> lines and
  comments; the first bad line ends the parse with an error that names it.
\<close>

section \<open>Data\<close>

record middleware_config =
  cfg_node_name :: string
  cfg_enable_shm :: bool
  cfg_group :: string
  cfg_port :: u16
  cfg_qos :: qos

record config_parse_result =
  cr_ok :: bool
  cr_config :: middleware_config
  cr_error :: string

definition default_config :: middleware_config where
  "default_config =
     \<lparr>cfg_node_name = ''mm_cli'', cfg_enable_shm = True, cfg_group = ''239.255.0.1'', cfg_port = 7400,
      cfg_qos = \<lparr>qos_reliability = BEST_EFFORT, qos_history = KEEP_LAST, qos_depth = 16\<rparr>\<rparr>"

section \<open>Scanning\<close>

definition trim :: "string \<Rightarrow> string" where
  "trim s = rev (dropWhile isspace (rev (dropWhile isspace s)))"

definition strip_comment :: "string \<Rightarrow> string" where
  "strip_comment line =
     (case str_find (CHR 0x23) line 0 of None \<Rightarrow> line | Some pos \<Rightarrow> substr line 0 pos)"

definition parse_bool :: "string \<Rightarrow> bool option" where
  "parse_bool v = (if v = ''true'' then Some True else if v = ''false'' then Some False else None)"

text \<open>The loop of \<open>parse_unsigned\<close>; \<open>max_value\<close> is at least 9, so \<open>max_value - digit\<close> does not wrap.\<close>

fun parse_digits :: "nat \<Rightarrow> nat \<Rightarrow> string \<Rightarrow> nat option" where
  "parse_digits max_value parsed [] = Some parsed"
| "parse_digits max_value parsed (c # s) =
     (if \<not> isdigit c then None
      else if parsed > (max_value - digit_val c) div 10 then None
      else parse_digits max_value (parsed * 10 + digit_val c) s)"

definition parse_unsigned :: "string \<Rightarrow> nat \<Rightarrow> nat option" where
  "parse_unsigned v max_value = (if v = [] then None else parse_digits max_value 0 v)"

definition parse_u16 :: "string \<Rightarrow> u16 option" where
  "parse_u16 v = map_option of_nat (parse_unsigned v (2 ^ 16 - 1))"

definition parse_u32 :: "string \<Rightarrow> u32 option" where
  "parse_u32 v = map_option of_nat (parse_unsigned v (2 ^ 32 - 1))"

definition fail :: "middleware_config \<Rightarrow> string \<Rightarrow> config_parse_result" where
  "fail cfg msg = \<lparr>cr_ok = False, cr_config = cfg, cr_error = msg\<rparr>"

section \<open>The parser\<close>

text \<open>The effect of one \<open>key: value\<close>: the new configuration or what the error says is invalid.\<close>

definition apply_entry :: "string \<Rightarrow> string \<Rightarrow> string \<Rightarrow> middleware_config \<Rightarrow> string + middleware_config" where
  "apply_entry section key v cfg =
     (if section = ''node'' \<and> key = ''name'' then Inr (cfg\<lparr>cfg_node_name := v\<rparr>)
      else if section = ''transport'' \<and> key = ''enable_shm'' then
        (case parse_bool v of None \<Rightarrow> Inl ''invalid enable_shm'' | Some b \<Rightarrow> Inr (cfg\<lparr>cfg_enable_shm := b\<rparr>))
      else if section = ''discovery'' \<and> key = ''group'' then Inr (cfg\<lparr>cfg_group := v\<rparr>)
      else if section = ''discovery'' \<and> key = ''port'' then
        (case parse_u16 v of None \<Rightarrow> Inl ''invalid port'' | Some p \<Rightarrow> Inr (cfg\<lparr>cfg_port := p\<rparr>))
      else if section = ''qos'' \<and> key = ''reliability'' then
        (if v = ''best_effort'' then Inr (cfg\<lparr>cfg_qos := (cfg_qos cfg)\<lparr>qos_reliability := BEST_EFFORT\<rparr>\<rparr>)
         else if v = ''reliable'' then Inr (cfg\<lparr>cfg_qos := (cfg_qos cfg)\<lparr>qos_reliability := RELIABLE\<rparr>\<rparr>)
         else Inl ''invalid reliability'')
      else if section = ''qos'' \<and> key = ''history'' then
        (if v = ''keep_last'' then Inr (cfg\<lparr>cfg_qos := (cfg_qos cfg)\<lparr>qos_history := KEEP_LAST\<rparr>\<rparr>)
         else if v = ''keep_all'' then Inr (cfg\<lparr>cfg_qos := (cfg_qos cfg)\<lparr>qos_history := KEEP_ALL\<rparr>\<rparr>)
         else Inl ''invalid history'')
      else if section = ''qos'' \<and> key = ''depth'' then
        (case parse_u32 v of None \<Rightarrow> Inl ''invalid depth'' | Some d \<Rightarrow> Inr (cfg\<lparr>cfg_qos := (cfg_qos cfg)\<lparr>qos_depth := d\<rparr>\<rparr>))
      else Inr cfg)"

text \<open>The body of the loop: the new section and configuration, or the error.\<close>

definition parse_line :: "string \<Rightarrow> string \<times> middleware_config \<Rightarrow> string + string \<times> middleware_config" where
  "parse_line raw st =
     (let line = trim (strip_comment raw); (section, cfg) = st in
      if line = [] then Inr st
      else if last line = CHR '':'' then Inr (trim (substr line 0 (length line - 1)), cfg)
      else
        (case str_find (CHR '':'') line 0 of
           None \<Rightarrow> Inl ''expected key: value''
         | Some pos \<Rightarrow>
             (let key = trim (substr line 0 pos); v = trim (drop (pos + 1) line)
              in (case apply_entry section key v cfg of Inl e \<Rightarrow> Inl e | Inr cfg' \<Rightarrow> Inr (section, cfg')))))"

fun parse_lines :: "nat \<Rightarrow> string list \<Rightarrow> string \<times> middleware_config \<Rightarrow> config_parse_result" where
  "parse_lines line_no [] st = \<lparr>cr_ok = True, cr_config = snd st, cr_error = []\<rparr>"
| "parse_lines line_no (l # ls) st =
     (case parse_line l st of
        Inl e \<Rightarrow> fail (snd st) (''line '' @ to_string (line_no + 1) @ '': '' @ e)
      | Inr st' \<Rightarrow> parse_lines (line_no + 1) ls st')"

definition parse_config_text :: "string \<Rightarrow> config_parse_result" where
  "parse_config_text text = parse_lines 0 (getlines text) ([], default_config)"

text \<open>\<open>load_config_file\<close>, with what reading the file gives.\<close>

definition load_config_file :: "(string \<Rightarrow> string option) \<Rightarrow> string \<Rightarrow> config_parse_result" where
  "load_config_file read path =
     (case read path of
        None \<Rightarrow> \<lparr>cr_ok = False, cr_config = default_config, cr_error = ''failed to open config file: '' @ path\<rparr>
      | Some text \<Rightarrow> parse_config_text text)"

section \<open>Numbers\<close>

definition dec_from :: "nat \<Rightarrow> string \<Rightarrow> nat" where
  "dec_from a s = foldl (\<lambda>a c. a * 10 + digit_val c) a s"

lemma dec_from_ge: "a \<le> dec_from a s"
proof (induction s arbitrary: a)
  case (Cons c s)
  have "a \<le> a * 10 + digit_val c" by simp
  also have "\<dots> \<le> dec_from (a * 10 + digit_val c) s" by (rule Cons.IH)
  finally show ?case by (simp add: dec_from_def)
qed (simp add: dec_from_def)

lemma limit_check:
  assumes "d < 10" "9 \<le> (m :: nat)"
  shows "a > (m - d) div 10 \<longleftrightarrow> a * 10 + d > m"
proof -
  have "a > (m - d) div 10 \<longleftrightarrow> \<not> a \<le> (m - d) div 10" by auto
  also have "\<dots> \<longleftrightarrow> \<not> a * 10 \<le> m - d" by (simp add: less_eq_div_iff_mult_less_eq)
  also have "\<dots> \<longleftrightarrow> a * 10 + d > m" using assms by linarith
  finally show ?thesis .
qed

lemma parse_digits_iff:
  assumes "9 \<le> m" "a \<le> m"
  shows "parse_digits m a s = Some n \<longleftrightarrow> list_all isdigit s \<and> n = dec_from a s \<and> n \<le> m"
  using assms(2)
proof (induction s arbitrary: a)
  case (Cons c s)
  show ?case
  proof (cases "isdigit c")
    case True
    let ?a = "a * 10 + digit_val c"
    have check: "a > (m - digit_val c) div 10 \<longleftrightarrow> ?a > m"
      using limit_check digit_val_less [OF True] assms(1) by blast
    show ?thesis
    proof (cases "?a > m")
      case large: True
      then have "m < dec_from ?a s" using dec_from_ge by (rule less_le_trans)
      with True large check show ?thesis by (simp add: dec_from_def)
    next
      case False
      with True check Cons.IH [of ?a] show ?thesis by (simp add: dec_from_def)
    qed
  qed simp
qed (auto simp: dec_from_def)

section \<open>Printing\<close>

definition plain :: "string \<Rightarrow> bool" where
  "plain v \<longleftrightarrow> v \<noteq> [] \<and> \<not> isspace (hd v) \<and> \<not> isspace (last v) \<and> last v \<noteq> CHR '':'' \<and>
     CHR 0x23 \<notin> set v \<and> CHR 0x0A \<notin> set v"

definition print_config :: "middleware_config \<Rightarrow> string" where
  "print_config cfg = unlines
     [''node:'', ''  name: '' @ cfg_node_name cfg,
      ''transport:'', ''  enable_shm: '' @ (if cfg_enable_shm cfg then ''true'' else ''false''),
      ''discovery:'', ''  group: '' @ cfg_group cfg, ''  port: '' @ to_string (unat (cfg_port cfg)),
      ''qos:'', ''  reliability: '' @ (case qos_reliability (cfg_qos cfg) of BEST_EFFORT \<Rightarrow> ''best_effort'' | RELIABLE \<Rightarrow> ''reliable''),
      ''  history: '' @ (case qos_history (cfg_qos cfg) of KEEP_LAST \<Rightarrow> ''keep_last'' | KEEP_ALL \<Rightarrow> ''keep_all''),
      ''  depth: '' @ to_string (unat (qos_depth (cfg_qos cfg)))]"

lemma trim_id: "v \<noteq> [] \<Longrightarrow> \<not> isspace (hd v) \<Longrightarrow> \<not> isspace (last v) \<Longrightarrow> trim v = v"
proof -
  assume "v \<noteq> []" "\<not> isspace (hd v)" "\<not> isspace (last v)"
  then have "dropWhile isspace v = v" "dropWhile isspace (rev v) = rev v"
    by (simp_all add: dropWhile_eq_self_iff hd_rev)
  then show ?thesis by (simp add: trim_def)
qed

lemma trim_blank [simp]: "trim (CHR '' '' # v) = trim v"
  by (simp add: trim_def isspace_def)

lemma strip_comment_id: "CHR 0x23 \<notin> set l \<Longrightarrow> strip_comment l = l"
proof -
  assume "CHR 0x23 \<notin> set l"
  then have "find_index (\<lambda>x. x = CHR 0x23) l = None" unfolding find_index_None by blast
  then show ?thesis by (simp add: strip_comment_def str_find_def)
qed

lemma parse_entry_line:
  assumes "plain k" "CHR '':'' \<notin> set k" "plain v"
  shows "parse_line (''  '' @ k @ '': '' @ v) (sec, cfg) = map_sum id (Pair sec) (apply_entry sec k v cfg)"
proof -
  let ?l = "k @ '': '' @ v"
  have ne: "k \<noteq> []" "v \<noteq> []" using assms by (simp_all add: plain_def)
  have "trim (strip_comment (''  '' @ ?l)) = ?l"
  proof -
    have "strip_comment (''  '' @ ?l) = ''  '' @ ?l"
      using assms by (intro strip_comment_id) (auto simp: plain_def)
    moreover have "trim ?l = ?l"
      using assms ne by (intro trim_id) (simp_all add: plain_def)
    ultimately show ?thesis by simp
  qed
  moreover have "last ?l \<noteq> CHR '':''" "?l \<noteq> []" using assms ne by (simp_all add: plain_def)
  moreover have "str_find (CHR '':'') ?l 0 = Some (length k)"
  proof -
    have "\<forall>x \<in> set k. x \<noteq> CHR '':''" using assms(2) by blast
    from find_index_append [OF this, of "'': '' @ v"] show ?thesis by (simp add: str_find_def)
  qed
  moreover have "trim (substr ?l 0 (length k)) = k" "trim (drop (length k + 1) ?l) = v"
    using assms ne trim_id [of k] trim_id [of v] by (simp_all add: substr_def plain_def)
  ultimately show ?thesis
    by (simp add: parse_line_def Let_def split: sum.splits)
qed

lemma parse_section_line:
  assumes "plain s"
  shows "parse_line (s @ '':'') (sec, cfg) = Inr (s, cfg)"
proof -
  have "trim (strip_comment (s @ '':'')) = s @ '':''"
  proof -
    have "strip_comment (s @ '':'') = s @ '':''" using assms by (intro strip_comment_id) (auto simp: plain_def)
    moreover have "trim (s @ '':'') = s @ '':''" using assms by (intro trim_id) (auto simp: plain_def isspace_def)
    ultimately show ?thesis by simp
  qed
  then show ?thesis
    using assms trim_id [of s] by (simp add: parse_line_def substr_def plain_def)
qed

lemma plain_to_string [simp]: "plain (to_string n)"
proof -
  have "isdigit (hd (to_string n))" by (rule to_string_digits [of _ n]) simp
  moreover have "isdigit (last (to_string n))" by (rule to_string_digits [of _ n]) simp
  moreover have "CHR 0x23 \<notin> set (to_string n)" "CHR 0x0A \<notin> set (to_string n)"
    using to_string_digits [of _ n] by (force simp: isdigit_def)+
  ultimately show ?thesis
    by (auto simp: plain_def isdigit_def isspace_def)
qed

lemma parse_u16_to_string [simp]: "parse_u16 (to_string (unat p)) = Some p"
proof -
  have "parse_unsigned (to_string (unat p)) (2 ^ 16 - 1) = Some (unat p)"
    using to_string_digits unat_bound [of p]
    by (simp add: parse_unsigned_def parse_digits_iff list_all_iff dec_from_def dec_value_def [symmetric])
  then show ?thesis by (simp add: parse_u16_def)
qed

lemma parse_u32_to_string [simp]: "parse_u32 (to_string (unat p)) = Some p"
proof -
  have "parse_unsigned (to_string (unat p)) (2 ^ 32 - 1) = Some (unat p)"
    using to_string_digits unat_bound [of p]
    by (simp add: parse_unsigned_def parse_digits_iff list_all_iff dec_from_def dec_value_def [symmetric])
  then show ?thesis by (simp add: parse_u32_def)
qed

lemma plain_words [simp]:
  "plain ''node''" "plain ''transport''" "plain ''discovery''" "plain ''qos''" "plain ''name''" "plain ''enable_shm''" "plain ''group''"
  "plain ''port''" "plain ''reliability''" "plain ''history''" "plain ''depth''" "plain ''true''" "plain ''false''"
  "plain ''best_effort''" "plain ''reliable''" "plain ''keep_last''" "plain ''keep_all''"
  by (simp_all add: plain_def isspace_def)

section \<open>Properties\<close>



text \<open>
  C31: Every configuration can be written down: printing one in the file format and parsing the text gives the same
  configuration, for all settings whose names are plain texts (not empty, no surrounding blanks, no \<open>#\<close>, no line
  break, not ending in a colon).
\<close>
theorem config_round_trip:
  assumes "plain (cfg_node_name cfg)" "plain (cfg_group cfg)"
  shows "parse_config_text (print_config cfg) = \<lparr>cr_ok = True, cr_config = cfg, cr_error = []\<rparr>"
proof -
  note entry = parse_entry_line [of "''name''"] parse_entry_line [of "''enable_shm''"] parse_entry_line [of "''group''"]
    parse_entry_line [of "''port''"] parse_entry_line [of "''reliability''"] parse_entry_line [of "''history''"]
    parse_entry_line [of "''depth''"]
  note sect = parse_section_line [of "''node''"] parse_section_line [of "''transport''"]
    parse_section_line [of "''discovery''"] parse_section_line [of "''qos''"]
  have "getlines (print_config cfg) = 
     [''node:'', ''  name: '' @ cfg_node_name cfg,
      ''transport:'', ''  enable_shm: '' @ (if cfg_enable_shm cfg then ''true'' else ''false''),
      ''discovery:'', ''  group: '' @ cfg_group cfg, ''  port: '' @ to_string (unat (cfg_port cfg)),
      ''qos:'', ''  reliability: '' @ (case qos_reliability (cfg_qos cfg) of BEST_EFFORT \<Rightarrow> ''best_effort'' | RELIABLE \<Rightarrow> ''reliable''),
      ''  history: '' @ (case qos_history (cfg_qos cfg) of KEEP_LAST \<Rightarrow> ''keep_last'' | KEEP_ALL \<Rightarrow> ''keep_all''),
      ''  depth: '' @ to_string (unat (qos_depth (cfg_qos cfg)))]"
    unfolding print_config_def
    using assms plain_to_string [of "unat (cfg_port cfg)"] plain_to_string [of "unat (qos_depth (cfg_qos cfg))"]
    by (intro getlines_unlines) (auto simp: plain_def split: reliability.splits history.splits)
  then show ?thesis
    unfolding parse_config_text_def using assms entry sect
    by (cases "cfg_enable_shm cfg"; cases "qos_reliability (cfg_qos cfg)"; cases "qos_history (cfg_qos cfg)")
      (simp_all add: apply_entry_def parse_bool_def)
qed

theorem config_round_trip_witness:
  "parse_config_text (print_config default_config) = \<lparr>cr_ok = True, cr_config = default_config, cr_error = []\<rparr>"
  by (rule config_round_trip) (simp_all add: default_config_def plain_def isspace_def)

lemma parse_lines_error:
  "\<not> cr_ok (parse_lines n ls st) \<Longrightarrow>
    \<exists>k < length ls. \<exists>e. cr_error (parse_lines n ls st) = ''line '' @ to_string (n + k + 1) @ '': '' @ e \<and>
      parse_lines n (take k ls) st = \<lparr>cr_ok = True, cr_config = cr_config (parse_lines n ls st), cr_error = []\<rparr>"
proof (induction n ls st rule: parse_lines.induct)
  case (2 n l ls st)
  show ?case
  proof (cases "parse_line l st")
    case (Inl e)
    then show ?thesis by (intro exI [of _ 0]) (simp add: fail_def)
  next
    case (Inr st')
    with "2.IH" [OF Inr] "2.prems" obtain k e where "k < length ls"
      "cr_error (parse_lines n (l # ls) st) = ''line '' @ to_string (n + Suc k + 1) @ '': '' @ e"
      "parse_lines n (take (Suc k) (l # ls)) st = \<lparr>cr_ok = True, cr_config = cr_config (parse_lines n (l # ls) st), cr_error = []\<rparr>"
      by auto
    then show ?thesis by (intro exI [of _ "Suc k"]) auto
  qed
qed simp

text \<open>
  A failed parse says where: the error names a line of the text, the lines before it parse on their own, and the
  configuration returned with the error is exactly what these lines set.
\<close>
theorem config_error_names_line:
  assumes "\<not> cr_ok (parse_config_text text)"
  shows "\<exists>k < length (getlines text). \<exists>e.
    cr_error (parse_config_text text) = ''line '' @ to_string (k + 1) @ '': '' @ e \<and>
    parse_config_text (unlines (take k (getlines text))) =
      \<lparr>cr_ok = True, cr_config = cr_config (parse_config_text text), cr_error = []\<rparr>"
proof -
  have "getlines (unlines (take k (getlines text))) = take k (getlines text)" for k
    by (rule getlines_unlines) (auto dest: in_set_takeD getlines_no_newline)
  with parse_lines_error [OF assms [unfolded parse_config_text_def]] show ?thesis
    by (simp add: parse_config_text_def)
qed

definition bad_text :: string where
  "bad_text = unlines [''node:'', '' name: a'', ''qos:'', '' reliability: maybe'']"

theorem config_error_names_line_witness:
  "cr_error (parse_config_text bad_text) = ''line 4: invalid reliability'' \<and>
   (\<exists>k < length (getlines bad_text). \<exists>e. ''line 4: invalid reliability'' = ''line '' @ to_string (k + 1) @ '': '' @ e)"
proof -
  have e: "cr_error (parse_config_text bad_text) = ''line 4: invalid reliability''" and n: "\<not> cr_ok (parse_config_text bad_text)"
    by code_simp+
  from config_error_names_line [OF n] e show ?thesis by metis
qed

end
