(* ===== verification/Cli_Args.thy ===== *)
theory Cli_Args
  imports C_Text
begin

text \<open>
  The command line of \<open>mm\<close> (cli/include/cli/args.h, cli/src/args.cpp). The arguments are a list that starts with the
  program name. \<open>parse_options\<close> is called with the command itself as the place for an error, so an error replaces the command:
  it is the left value of a sum here.
\<close>

datatype cli_command_kind = HELP | ERROR | TOPIC_LIST | TOPIC_ECHO | TOPIC_HZ

record cli_command =
  cc_kind :: cli_command_kind
  cc_exit_code :: int
  cc_message :: string
  cc_config_path :: string
  cc_topic :: string
  cc_type_name :: string
  cc_wait_ms :: int
  cc_count :: int
  cc_window :: int

definition new_command :: cli_command where
  "new_command = \<lparr>cc_kind = HELP, cc_exit_code = 0, cc_message = [], cc_config_path = [], cc_topic = [],
     cc_type_name = [], cc_wait_ms = 1500, cc_count = 0, cc_window = 10\<rparr>"

definition cli_usage :: string where
  "cli_usage = ''Usage:'' @ newline @
     ''  mm --help'' @ newline @
     ''  mm topic --help'' @ newline @
     ''  mm topic list [--config PATH] [--wait-ms MS]'' @ newline @
     ''  mm topic echo TOPIC --type TYPE [--config PATH] [--count N]'' @ newline @
     ''  mm topic hz TOPIC --type TYPE [--config PATH] [--window N] [--count N]'' @ newline"

definition help_command :: cli_command where
  "help_command = new_command\<lparr>cc_kind := HELP, cc_exit_code := 0, cc_message := cli_usage\<rparr>"

definition error_command :: "string \<Rightarrow> cli_command" where
  "error_command message =
     new_command\<lparr>cc_kind := ERROR, cc_exit_code := 2, cc_message := message @ newline @ newline @ cli_usage\<rparr>"

text \<open>\<open>static_cast<int>\<close> of a 64-bit value keeps its low 32 bits.\<close>

definition to_int32 :: "int \<Rightarrow> int" where
  "to_int32 v = sint (word_of_int v :: 32 word)"

definition parse_non_negative_int :: "string \<Rightarrow> int option" where
  "parse_non_negative_int text =
     (if text = [] \<or> hd text = CHR ''-'' then None
      else
        (let r = strtol text in
         if st_erange r \<or> st_no_conversion r \<or> st_end r \<noteq> [] \<or> st_value r > 2 ^ 31 - 1 then None
         else Some (to_int32 (st_value r))))"

definition is_option_token :: "string \<Rightarrow> bool" where
  "is_option_token text \<longleftrightarrow> starts_with ''--'' text"

fun is_option_allowed :: "cli_command_kind \<Rightarrow> string \<Rightarrow> bool" where
  "is_option_allowed TOPIC_LIST name \<longleftrightarrow> name = ''--config'' \<or> name = ''--wait-ms''"
| "is_option_allowed TOPIC_ECHO name \<longleftrightarrow> name = ''--config'' \<or> name = ''--type'' \<or> name = ''--count''"
| "is_option_allowed TOPIC_HZ name \<longleftrightarrow>
     name = ''--config'' \<or> name = ''--type'' \<or> name = ''--window'' \<or> name = ''--count''"
| "is_option_allowed _ name \<longleftrightarrow> False"

definition read_string_option :: "string \<Rightarrow> string \<Rightarrow> cli_command option" where
  "read_string_option name v =
     (if is_option_token v then Some (error_command (name @ '' requires a value'')) else None)"

definition apply_option :: "cli_command \<Rightarrow> string \<Rightarrow> string \<Rightarrow> cli_command + cli_command" where
  "apply_option cmd name v =
     (if \<not> is_option_allowed (cc_kind cmd) name then
        Inl (error_command (''option not allowed for command: '' @ name))
      else if name = ''--config'' then
        (case read_string_option name v of Some e \<Rightarrow> Inl e | None \<Rightarrow> Inr (cmd\<lparr>cc_config_path := v\<rparr>))
      else if name = ''--type'' then
        (case read_string_option name v of Some e \<Rightarrow> Inl e | None \<Rightarrow> Inr (cmd\<lparr>cc_type_name := v\<rparr>))
      else if name = ''--wait-ms'' then
        (case parse_non_negative_int v of
           None \<Rightarrow> Inl (error_command ''--wait-ms must be a non-negative integer'')
         | Some n \<Rightarrow> Inr (cmd\<lparr>cc_wait_ms := n\<rparr>))
      else if name = ''--count'' then
        (case parse_non_negative_int v of
           None \<Rightarrow> Inl (error_command ''--count must be a non-negative integer'')
         | Some n \<Rightarrow> Inr (cmd\<lparr>cc_count := n\<rparr>))
      else if name = ''--window'' then
        (case parse_non_negative_int v of
           None \<Rightarrow> Inl (error_command ''--window must be an integer >= 2'')
         | Some n \<Rightarrow> if n < 2 then Inl (error_command ''--window must be an integer >= 2'')
                     else Inr (cmd\<lparr>cc_window := n\<rparr>))
      else Inl (error_command (''unknown option: '' @ name)))"

definition read_option_value :: "string \<Rightarrow> string list \<Rightarrow> cli_command + string" where
  "read_option_value name rest =
     (case rest of [] \<Rightarrow> Inl (error_command (name @ '' requires a value'')) | v # _ \<Rightarrow> Inr v)"

function parse_options :: "string list \<Rightarrow> cli_command \<Rightarrow> cli_command + cli_command" where
  "parse_options [] cmd = Inr cmd"
| "parse_options (name # rest) cmd =
     (if \<not> is_option_token name then Inl (error_command (''unexpected argument: '' @ name))
      else
        (case read_option_value name rest of
           Inl e \<Rightarrow> Inl e
         | Inr v \<Rightarrow>
             (case apply_option cmd name v of
                Inl e \<Rightarrow> Inl e
              | Inr cmd' \<Rightarrow> parse_options (tl rest) cmd')))"
  by pat_completeness auto
termination
  by (relation "measure (length \<circ> fst)") auto

definition parse_cli_args :: "string list \<Rightarrow> cli_command" where
  "parse_cli_args argv =
     (let argc = length argv in
      if argc \<le> 1 \<or> argv ! 1 = ''--help'' then help_command
      else if argv ! 1 \<noteq> ''topic'' then error_command (''unknown command: '' @ argv ! 1)
      else if argc = 3 \<and> argv ! 2 = ''--help'' then help_command
      else if argc < 3 then error_command ''missing topic command''
      else
        (let subcommand = argv ! 2 in
         if subcommand = ''list'' then
           (case parse_options (drop 3 argv) (new_command\<lparr>cc_kind := TOPIC_LIST\<rparr>) of Inl e \<Rightarrow> e | Inr cmd \<Rightarrow> cmd)
         else if subcommand = ''echo'' \<or> subcommand = ''hz'' then
           (if argc < 4 \<or> is_option_token (argv ! 3) then error_command (subcommand @ '' requires a topic'')
            else
              (case parse_options (drop 4 argv)
                     (new_command\<lparr>cc_kind := (if subcommand = ''echo'' then TOPIC_ECHO else TOPIC_HZ), cc_topic := argv ! 3\<rparr>) of
                 Inl e \<Rightarrow> e
               | Inr cmd \<Rightarrow> if cc_type_name cmd = [] then error_command (subcommand @ '' requires --type'') else cmd))
         else error_command (''unknown topic command: '' @ subcommand)))"

section \<open>What the options can do to a command\<close>

lemma parse_non_negative_int_range: "parse_non_negative_int s = Some n \<Longrightarrow> - (2 ^ 31) \<le> n \<and> n \<le> 2 ^ 31 - 1"
proof -
  assume "parse_non_negative_int s = Some n"
  then obtain v where "n = sint (word_of_int v :: 32 word)"
    by (auto simp: parse_non_negative_int_def Let_def to_int32_def split: if_splits)
  with sint_ge [of "word_of_int v :: 32 word"] sint_lt [of "word_of_int v :: 32 word"] show ?thesis by simp
qed

definition options_ok :: "cli_command \<Rightarrow> bool" where
  "options_ok c \<longleftrightarrow> cc_exit_code c = 0 \<and> cc_message c = [] \<and> \<not> is_option_token (cc_type_name c) \<and>
     \<not> is_option_token (cc_config_path c) \<and> 2 \<le> cc_window c \<and> cc_window c \<le> 2 ^ 31 - 1"

lemma apply_option_ok:
  assumes "apply_option cmd name v = Inr cmd'" "options_ok cmd"
  shows "options_ok cmd' \<and> cc_kind cmd' = cc_kind cmd \<and> cc_topic cmd' = cc_topic cmd"
  using assms parse_non_negative_int_range [of v]
  by (auto simp: apply_option_def options_ok_def read_string_option_def split: if_splits option.splits)

lemma apply_option_error: "apply_option cmd name v = Inl e \<Longrightarrow> \<exists>m. e = error_command m"
  by (auto simp: apply_option_def read_string_option_def split: if_splits option.splits)

lemma parse_options_ok:
  "parse_options args cmd = Inr cmd' \<Longrightarrow> options_ok cmd \<Longrightarrow>
    options_ok cmd' \<and> cc_kind cmd' = cc_kind cmd \<and> cc_topic cmd' = cc_topic cmd"
proof (induction args cmd rule: parse_options.induct)
  case (2 name rest cmd)
  from "2.prems"(1) obtain v c where v: "read_option_value name rest = Inr v" "apply_option cmd name v = Inr c"
    "parse_options (tl rest) c = Inr cmd'" "is_option_token name"
    by (auto split: if_splits sum.splits)
  from apply_option_ok [OF v(2) "2.prems"(2)] "2.IH" [OF _ v(1,2,3)] v(4) show ?case by simp
qed simp

lemma parse_options_error: "parse_options args cmd = Inl e \<Longrightarrow> \<exists>m. e = error_command m"
proof (induction args cmd rule: parse_options.induct)
  case (2 name rest cmd)
  then show ?case
    by (auto simp: read_option_value_def dest: apply_option_error split: if_splits sum.splits list.splits)
qed simp

lemma new_command_ok: "options_ok (new_command\<lparr>cc_kind := k, cc_topic := t\<rparr>)" "options_ok (new_command\<lparr>cc_kind := k\<rparr>)"
  by (simp_all add: options_ok_def new_command_def is_option_token_def starts_with_def)

lemma if_chain:
  assumes "r = (if A then h else if B then e1 else if C then h else if D then e2 else if L then x
    else if E then (if F then e3 else y) else e4)"
  shows "r = h \<or> r = e1 \<or> r = e2 \<or> r = e3 \<or> r = e4 \<or> r = x \<or> \<not> F \<and> r = y"
  using assms by (simp split: if_splits)

lemma parse_cli_args_cases:
  obtains "parse_cli_args argv = help_command"
  | m where "parse_cli_args argv = error_command m"
  | "parse_options (drop 3 argv) (new_command\<lparr>cc_kind := TOPIC_LIST\<rparr>) = Inr (parse_cli_args argv)"
  | k where "k \<in> {TOPIC_ECHO, TOPIC_HZ}" "\<not> is_option_token (argv ! 3)" "cc_type_name (parse_cli_args argv) \<noteq> []"
      "parse_options (drop 4 argv) (new_command\<lparr>cc_kind := k, cc_topic := argv ! 3\<rparr>) = Inr (parse_cli_args argv)"
proof -
  define r where "r = parse_cli_args argv"
  have "r = help_command \<or> (\<exists>m. r = error_command m) \<or>
    parse_options (drop 3 argv) (new_command\<lparr>cc_kind := TOPIC_LIST\<rparr>) = Inr r \<or>
    (\<exists>k \<in> {TOPIC_ECHO, TOPIC_HZ}. \<not> is_option_token (argv ! 3) \<and> cc_type_name r \<noteq> [] \<and>
      parse_options (drop 4 argv) (new_command\<lparr>cc_kind := k, cc_topic := argv ! 3\<rparr>) = Inr r)"
    using if_chain [OF r_def [unfolded parse_cli_args_def Let_def]]
  proof (elim disjE, goal_cases)
    case 6
    then show ?case
      by (cases "parse_options (drop 3 argv) (new_command\<lparr>cc_kind := TOPIC_LIST\<rparr>)") (auto dest: parse_options_error)
  next
    case 7
    let ?k = "if argv ! 2 = ''echo'' then TOPIC_ECHO else TOPIC_HZ"
    from 7 show ?case
      by (cases "parse_options (drop 4 argv) (new_command\<lparr>cc_kind := ?k, cc_topic := argv ! 3\<rparr>)")
        (auto dest: parse_options_error split: if_split_asm)
  qed blast+
  with that show thesis by (auto simp: r_def)
qed

section \<open>Printing commands\<close>

definition render_command :: "cli_command \<Rightarrow> string list" where
  "render_command c =
     (let config = (if cc_config_path c = [] then [] else [''--config'', cc_config_path c]) in
      case cc_kind c of
        TOPIC_LIST \<Rightarrow> [''mm'', ''topic'', ''list''] @ config @ [''--wait-ms'', to_string (nat (cc_wait_ms c))]
      | TOPIC_ECHO \<Rightarrow> [''mm'', ''topic'', ''echo'', cc_topic c, ''--type'', cc_type_name c] @ config @
          [''--count'', to_string (nat (cc_count c))]
      | TOPIC_HZ \<Rightarrow> [''mm'', ''topic'', ''hz'', cc_topic c, ''--type'', cc_type_name c] @ config @
          [''--window'', to_string (nat (cc_window c)), ''--count'', to_string (nat (cc_count c))]
      | _ \<Rightarrow> [''mm'', ''--help''])"

definition renderable :: "cli_command \<Rightarrow> bool" where
  "renderable c \<longleftrightarrow> options_ok c \<and> 0 \<le> cc_count c \<and> cc_count c \<le> 2 ^ 31 - 1 \<and> 0 \<le> cc_wait_ms c \<and> cc_wait_ms c \<le> 2 ^ 31 - 1 \<and>
     (case cc_kind c of
        TOPIC_LIST \<Rightarrow> cc_topic c = [] \<and> cc_type_name c = [] \<and> cc_count c = 0 \<and> cc_window c = 10
      | TOPIC_ECHO \<Rightarrow> cc_type_name c \<noteq> [] \<and> \<not> is_option_token (cc_topic c) \<and> cc_wait_ms c = 1500 \<and> cc_window c = 10
      | TOPIC_HZ \<Rightarrow> cc_type_name c \<noteq> [] \<and> \<not> is_option_token (cc_topic c) \<and> cc_wait_ms c = 1500
      | _ \<Rightarrow> False)"

lemma to_int32_id: "- (2 ^ 31) \<le> v \<Longrightarrow> v < 2 ^ 31 \<Longrightarrow> to_int32 v = v"
  by (simp add: to_int32_def sint_sbintrunc' signed_take_bit_int_eq_self)

lemma parse_int_to_string [simp]:
  assumes "0 \<le> v" "v \<le> 2 ^ 31 - 1"
  shows "parse_non_negative_int (to_string (nat v)) = Some v"
proof -
  obtain c r where c: "to_string (nat v) = c # r" "isdigit c" using to_string_hd by blast
  then have "hd (to_string (nat v)) \<noteq> CHR ''-''" by (auto simp: isdigit_def)
  moreover have "strtol (to_string (nat v)) = \<lparr>st_value = v, st_no_conversion = False, st_end = [], st_erange = False\<rparr>"
    using assms by (simp add: strtol_def)
  ultimately show ?thesis
    using assms by (simp add: parse_non_negative_int_def to_int32_id)
qed

lemma is_option_names [simp]:
  "is_option_token ''--config''" "is_option_token ''--type''" "is_option_token ''--count''" "is_option_token ''--window''"
  "is_option_token ''--wait-ms''"
  by (simp_all add: is_option_token_def starts_with_def)

lemma apply_option_simps [simp]:
  "is_option_allowed (cc_kind c) ''--config'' \<Longrightarrow> \<not> is_option_token v \<Longrightarrow> apply_option c ''--config'' v = Inr (c\<lparr>cc_config_path := v\<rparr>)"
  "is_option_allowed (cc_kind c) ''--type'' \<Longrightarrow> \<not> is_option_token v \<Longrightarrow> apply_option c ''--type'' v = Inr (c\<lparr>cc_type_name := v\<rparr>)"
  "is_option_allowed (cc_kind c) ''--count'' \<Longrightarrow> parse_non_negative_int v = Some n \<Longrightarrow> apply_option c ''--count'' v = Inr (c\<lparr>cc_count := n\<rparr>)"
  "is_option_allowed (cc_kind c) ''--wait-ms'' \<Longrightarrow> parse_non_negative_int v = Some n \<Longrightarrow> apply_option c ''--wait-ms'' v = Inr (c\<lparr>cc_wait_ms := n\<rparr>)"
  "is_option_allowed (cc_kind c) ''--window'' \<Longrightarrow> parse_non_negative_int v = Some n \<Longrightarrow> 2 \<le> n \<Longrightarrow> apply_option c ''--window'' v = Inr (c\<lparr>cc_window := n\<rparr>)"
  by (simp_all add: apply_option_def read_string_option_def)

section \<open>Properties\<close>

text \<open>
  What \<open>parse_cli_args\<close> accepts is usable: the exit code is 2 exactly for errors, which carry the usage text; an \<open>echo\<close>
  or \<open>hz\<close> command has a topic and a type that are no options, and the window of \<open>hz\<close> is at least 2.
\<close>
theorem cli_args_checked:
  "(cc_kind (parse_cli_args argv) = ERROR \<longleftrightarrow> cc_exit_code (parse_cli_args argv) = 2) \<and>
   (cc_kind (parse_cli_args argv) = ERROR \<longrightarrow> suffix cli_usage (cc_message (parse_cli_args argv))) \<and>
   (cc_kind (parse_cli_args argv) \<in> {TOPIC_ECHO, TOPIC_HZ} \<longrightarrow>
      cc_type_name (parse_cli_args argv) \<noteq> [] \<and> \<not> is_option_token (cc_type_name (parse_cli_args argv)) \<and>
      \<not> is_option_token (cc_topic (parse_cli_args argv)) \<and> 2 \<le> cc_window (parse_cli_args argv))"
proof -
  define c where "c = parse_cli_args argv"
  have err: "cc_kind (error_command m) = ERROR" "cc_exit_code (error_command m) = 2" "suffix cli_usage (cc_message (error_command m))" for m
    by (auto simp: error_command_def suffix_def)
  show ?thesis
  proof (cases rule: parse_cli_args_cases [of argv])
    case 1
    then show ?thesis by (simp add: c_def [symmetric] help_command_def new_command_def)
  next
    case (2 m)
    then show ?thesis using err by (simp add: c_def [symmetric])
  next
    case 3
    from parse_options_ok [OF this new_command_ok(2)] show ?thesis
      by (auto simp: c_def [symmetric] options_ok_def new_command_def)
  next
    case (4 k)
    from parse_options_ok [OF 4(4) new_command_ok(1)] 4(1-3) show ?thesis
      by (auto simp: c_def [symmetric] options_ok_def new_command_def)
  qed
qed

theorem cli_args_checked_witness:
  "let c = parse_cli_args [''mm'', ''topic'', ''hz'', ''/t'', ''--type'', ''T'', ''--window'', ''5'']
   in cc_kind c = TOPIC_HZ \<and> cc_type_name c \<noteq> [] \<and> 2 \<le> cc_window c"
proof -
  let ?c = "parse_cli_args [''mm'', ''topic'', ''hz'', ''/t'', ''--type'', ''T'', ''--window'', ''5'']"
  have "cc_kind ?c = TOPIC_HZ" by code_simp
  with cli_args_checked [of "[''mm'', ''topic'', ''hz'', ''/t'', ''--type'', ''T'', ''--window'', ''5'']"]
  show ?thesis unfolding Let_def by (metis insert_iff)
qed

text \<open>
  C38: The command line can express every command: printing a command with its options and parsing the arguments gives the
  same command, for all counts, windows and waiting times of an \<open>int\<close>.
\<close>
theorem cli_args_round_trip:
  assumes "renderable c"
  shows "parse_cli_args (render_command c) = c"
proof -
  have o: "options_ok c" using assms by (simp add: renderable_def)
  show ?thesis
  proof (cases "cc_kind c")
    case TOPIC_LIST
    with assms o show ?thesis
      by (cases "cc_config_path c = []")
        (simp_all add: renderable_def render_command_def parse_cli_args_def read_option_value_def new_command_def options_ok_def)
  next
    case TOPIC_ECHO
    with assms o show ?thesis
      by (cases "cc_config_path c = []")
        (simp_all add: renderable_def render_command_def parse_cli_args_def read_option_value_def new_command_def options_ok_def)
  next
    case TOPIC_HZ
    with assms o show ?thesis
      by (cases "cc_config_path c = []")
        (simp_all add: renderable_def render_command_def parse_cli_args_def read_option_value_def new_command_def options_ok_def)
  qed (use assms in \<open>simp_all add: renderable_def\<close>)
qed

definition hz_command :: cli_command where
  "hz_command = new_command\<lparr>cc_kind := TOPIC_HZ, cc_topic := ''/t'', cc_type_name := ''T'', cc_config_path := ''c.yml'', cc_count := 3\<rparr>"

theorem cli_args_round_trip_witness:
  "parse_cli_args [''mm'', ''topic'', ''hz'', ''/t'', ''--type'', ''T'', ''--config'', ''c.yml'', ''--window'', ''10'', ''--count'', ''3''] = hz_command"
proof -
  have "renderable hz_command"
    by (simp add: renderable_def hz_command_def new_command_def options_ok_def is_option_token_def starts_with_def)
  moreover have "char_of (49 :: nat) = CHR ''1''" "char_of (48 :: nat) = CHR ''0''" "char_of (51 :: nat) = CHR ''3''"
    by code_simp+
  ultimately show ?thesis
    using cli_args_round_trip [of hz_command]
    by (simp add: render_command_def hz_command_def new_command_def to_string.simps digit_char_def)
qed

text \<open>
  A minus sign is only looked for in the first character, and \<open>strtol\<close> skips blanks: a count with a blank in front is
  accepted although it is negative.
\<close>
lemma cli_negative_count_accepted:
  "cc_count (parse_cli_args [''mm'', ''topic'', ''echo'', ''/t'', ''--type'', ''T'', ''--count'', '' -5'']) = -5 \<and>
   cc_kind (parse_cli_args [''mm'', ''topic'', ''echo'', ''/t'', ''--type'', ''T'', ''--count'', '' -5'']) = TOPIC_ECHO"
proof -
  have "parse_non_negative_int '' -5'' = Some (-5)"
    by (simp add: parse_non_negative_int_def strtol_def scan_number_def isspace_def isdigit_def dec_value_def digit_val_def to_int32_id)
  then show ?thesis
    by (simp add: parse_cli_args_def read_option_value_def new_command_def is_option_token_def starts_with_def)
qed

end
