(* ===== verification/Cli_Commands.thy ===== *)
theory Cli_Commands
  imports Complex_Main Config Cli_Args Node
begin

text \<open>
  The commands of \<open>mm\<close>: formatting of messages (cli/src/message_format.cpp), \<open>topic list\<close>, \<open>topic echo\<close> and \<open>topic hz\<close>
  (cli/src/topic_commands.cpp) and \<open>main\<close> (cli/src/main.cpp).

  The generated message classes and the printing of floating-point numbers are the parameter \<open>message_codec\<close>.
  What the subscriber's callback receives is a list; a command that keeps waiting returns \<open>None\<close>. Rates are
  exact rational numbers where the code computes with \<open>double\<close>; time stamps are nanoseconds.
\<close>

section \<open>Formatting\<close>

record ('f, 'd) message_codec =
  mc_parse_string :: "bytes \<Rightarrow> string option"
  mc_parse_point :: "bytes \<Rightarrow> ('f \<times> 'f \<times> 'f) option"
  mc_parse_cloud :: "bytes \<Rightarrow> ('d \<times> string \<times> nat) option"
  mc_show_float :: "'f \<Rightarrow> string"
  mc_show_double :: "'d \<Rightarrow> string"

record format_result =
  fr_ok :: bool
  fr_text :: string
  fr_error :: string

definition supported_types :: "string list" where
  "supported_types = [''mm.StringMsg'', ''mm.Point3D'', ''mm.PointCloud'']"

definition parse_error :: "string \<Rightarrow> format_result" where
  "parse_error type_name = \<lparr>fr_ok = False, fr_text = [], fr_error = ''failed to parse '' @ type_name\<rparr>"

definition unsupported_error :: "string \<Rightarrow> format_result" where
  "unsupported_error type_name = \<lparr>fr_ok = False, fr_text = [], fr_error = ''unsupported message type: '' @ type_name\<rparr>"

definition ok_result :: "string \<Rightarrow> format_result" where
  "ok_result text = \<lparr>fr_ok = True, fr_text = text, fr_error = []\<rparr>"

definition is_supported_message_type :: "string \<Rightarrow> bool" where
  "is_supported_message_type type_name \<longleftrightarrow> List.member supported_types type_name"

definition format_message :: "('f, 'd) message_codec \<Rightarrow> string \<Rightarrow> bytes \<Rightarrow> format_result" where
  "format_message mc type_name bs =
     (if type_name = ''mm.StringMsg'' then
        (case mc_parse_string mc bs of None \<Rightarrow> parse_error type_name | Some d \<Rightarrow> ok_result (''data: '' @ d))
      else if type_name = ''mm.Point3D'' then
        (case mc_parse_point mc bs of
           None \<Rightarrow> parse_error type_name
         | Some (x, y, z) \<Rightarrow>
             ok_result (''x: '' @ mc_show_float mc x @ newline @ ''y: '' @ mc_show_float mc y @ newline @
               ''z: '' @ mc_show_float mc z))
      else if type_name = ''mm.PointCloud'' then
        (case mc_parse_cloud mc bs of
           None \<Rightarrow> parse_error type_name
         | Some (ts, frame, n) \<Rightarrow>
             ok_result (''timestamp: '' @ mc_show_double mc ts @ newline @ ''frame_id: '' @ frame @ newline @
               ''points: '' @ to_string n))
      else unsupported_error type_name)"

section \<open>Topic list\<close>

fun kind_name :: "endpoint_kind \<Rightarrow> string" where
  "kind_name PUBLISHER = ''PUBLISHER''"
| "kind_name SUBSCRIBER = ''SUBSCRIBER''"
| "kind_name SERVICE = ''SERVICE''"
| "kind_name CLIENT = ''CLIENT''"

definition locator_text :: "locator \<Rightarrow> string" where
  "locator_text l = loc_ip l @ '':'' @ to_string (unat (loc_port l))"

definition tab :: string where
  "tab = [CHR 0x09]"

definition endpoint_line :: "discovered_endpoint \<Rightarrow> string" where
  "endpoint_line e =
     kind_name (ep_kind (de_endpoint e)) @ tab @ ep_topic (de_endpoint e) @ tab @ ep_type (de_endpoint e) @ tab @
     de_node e @ tab @ locator_text (de_locator e) @ newline"

definition run_topic_list :: "string \<Rightarrow> agent \<Rightarrow> string \<times> int" where
  "run_topic_list host a =
     (''KIND'' @ tab @ ''TOPIC'' @ tab @ ''TYPE'' @ tab @ ''NODE'' @ tab @ ''LOCATOR'' @ newline @
      concat (map endpoint_line (snapshot_endpoints host a)), 0)"

definition print_supported_types :: string where
  "print_supported_types = ''supported types:'' @ newline @ concat (map (\<lambda>t. ''  '' @ t @ newline) supported_types)"

section \<open>Topic echo\<close>

record echo_state =
  es_received :: int
  es_done :: bool
  es_out :: string

definition echo_callback :: "('f, 'd) message_codec \<Rightarrow> ('m \<Rightarrow> bytes) \<Rightarrow> string \<Rightarrow> int \<Rightarrow> 'm \<Rightarrow> echo_state \<Rightarrow> echo_state" where
  "echo_callback mc serialize type_name count msg st =
     (let formatted = format_message mc type_name (serialize msg) in
      if es_done st then st
      else
        (let out = es_out st @ (if fr_ok formatted then fr_text formatted else fr_error formatted) @ newline @ ''---'' @ newline;
             received = es_received st + 1
         in st\<lparr>es_out := out, es_received := received, es_done := (count > 0 \<and> received \<ge> count)\<rparr>))"

text \<open>The subscriber is created on the node; then the messages arrive.\<close>

definition run_echo_for :: "('f, 'd) message_codec \<Rightarrow> ('m \<Rightarrow> bytes) \<Rightarrow> string \<Rightarrow> string \<Rightarrow> int \<Rightarrow> 'm list \<Rightarrow> 'r node \<Rightarrow>
    'r node \<times> string \<times> int option" where
  "run_echo_for mc serialize topic type_name count msgs n =
     (let (sub :: sink_id \<times> 'm subscriber, n') = node_create_subscriber topic type_name default_qos n;
          st = foldl (\<lambda>st m. echo_callback mc serialize type_name count m st)
                 \<lparr>es_received = 0, es_done = False, es_out = []\<rparr> msgs
      in (n', es_out st, if count \<le> 0 then None else if es_done st then Some 0 else None))"

definition run_topic_echo :: "('f, 'd) message_codec \<Rightarrow> ('m \<Rightarrow> bytes) \<Rightarrow> string \<Rightarrow> string \<Rightarrow> int \<Rightarrow> 'm list \<Rightarrow> 'r node \<Rightarrow>
    'r node \<times> string \<times> int option" where
  "run_topic_echo mc serialize topic type_name count msgs n =
     (if List.member [''mm.StringMsg'', ''mm.Point3D'', ''mm.PointCloud''] type_name
      then run_echo_for mc serialize topic type_name count msgs n
      else (n, print_supported_types, Some 2))"

section \<open>Topic hz\<close>

record hz_state =
  hz_timestamps :: "int list"
  hz_done :: bool

definition hz_callback :: "int \<Rightarrow> int \<Rightarrow> hz_state \<Rightarrow> hz_state" where
  "hz_callback count now st =
     (if hz_done st then st
      else
        (let ts = hz_timestamps st @ [now]
         in \<lparr>hz_timestamps = ts, hz_done = (count > 0 \<and> int (length ts) \<ge> count)\<rparr>))"

definition hz_rate :: "int \<Rightarrow> int list \<Rightarrow> rat" where
  "hz_rate window ts =
     (let bounded_window = (if window > 1 then window else 2);
          sample_count = nat (min bounded_window (int (length ts)))
      in if sample_count \<ge> 2 then
           (let elapsed = rat_of_int (last ts - ts ! (length ts - sample_count)) / 10 ^ 9
            in if elapsed > 0 then rat_of_nat (sample_count - 1) / elapsed else 0)
         else 0)"

definition run_hz_for :: "(rat \<Rightarrow> string) \<Rightarrow> string \<Rightarrow> string \<Rightarrow> int \<Rightarrow> int \<Rightarrow> int list \<Rightarrow> 'r node \<Rightarrow>
    'r node \<times> string \<times> int option" where
  "run_hz_for show_rate topic type_name window count arrivals n =
     (let (sub :: sink_id \<times> bytes subscriber, n') = node_create_subscriber topic type_name default_qos n;
          st = foldl (\<lambda>st t. hz_callback count t st) \<lparr>hz_timestamps = [], hz_done = False\<rparr> arrivals
      in if count \<le> 0 \<or> \<not> hz_done st then (n', [], None)
         else (n', ''average rate: '' @ show_rate (hz_rate window (hz_timestamps st)) @ '' Hz'' @ newline, Some 0))"

definition run_topic_hz :: "(rat \<Rightarrow> string) \<Rightarrow> string \<Rightarrow> string \<Rightarrow> int \<Rightarrow> int \<Rightarrow> int list \<Rightarrow> 'r node \<Rightarrow>
    'r node \<times> string \<times> int option" where
  "run_topic_hz show_rate topic type_name window count arrivals n =
     (if List.member [''mm.StringMsg'', ''mm.Point3D'', ''mm.PointCloud''] type_name
      then run_hz_for show_rate topic type_name window count arrivals n
      else (n, print_supported_types, Some 2))"

section \<open>The main program\<close>

text \<open>
  The world of a run: how files read, how the node starts, what discovery has done to the agent after the
  waiting time, the messages and arrival times a subscriber sees.
\<close>

record ('f, 'd, 'm) cli_world =
  cw_codec :: "('f, 'd) message_codec"
  cw_serialize :: "'m \<Rightarrow> bytes"
  cw_show_rate :: "rat \<Rightarrow> string"
  cw_read :: "string \<Rightarrow> string option"
  cw_env :: node_env
  cw_after :: "int \<Rightarrow> agent \<Rightarrow> agent"
  cw_messages :: "'m list"
  cw_arrivals :: "int list"

definition options_of :: "middleware_config \<Rightarrow> node_options" where
  "options_of cfg = \<lparr>no_enable_shm = cfg_enable_shm cfg, no_group = cfg_group cfg, no_port = cfg_port cfg\<rparr>"

text \<open>Standard output, standard error, and the exit code unless the program keeps running.\<close>

definition run_command :: "('f, 'd, 'm) cli_world \<Rightarrow> cli_command \<Rightarrow> middleware_config \<Rightarrow> string \<times> string \<times> int option" where
  "run_command w cmd cfg =
     (let n = make_node (cfg_node_name cfg) (options_of cfg) (cw_env w) :: unit node in
      case cc_kind cmd of
        TOPIC_LIST \<Rightarrow>
          (let (out, code) = run_topic_list (ne_host (cw_env w)) (cw_after w (cc_wait_ms cmd) (nd_agent n))
           in (out, [], Some code))
      | TOPIC_ECHO \<Rightarrow>
          (let (_, out, code) = run_topic_echo (cw_codec w) (cw_serialize w) (cc_topic cmd) (cc_type_name cmd) (cc_count cmd)
                 (cw_messages w) n
           in (out, [], code))
      | TOPIC_HZ \<Rightarrow>
          (let (_, out, code) = run_topic_hz (cw_show_rate w) (cc_topic cmd) (cc_type_name cmd) (cc_window cmd) (cc_count cmd)
                 (cw_arrivals w) n
           in (out, [], code))
      | _ \<Rightarrow> ([], [], Some 2))"

definition cli_main :: "('f, 'd, 'm) cli_world \<Rightarrow> string list \<Rightarrow> string \<times> string \<times> int option" where
  "cli_main w argv =
     (let cmd = parse_cli_args argv in
      if cc_kind cmd = HELP then (cc_message cmd, [], Some 0)
      else if cc_kind cmd = ERROR then ([], cc_message cmd, Some (cc_exit_code cmd))
      else if (cc_kind cmd = TOPIC_ECHO \<or> cc_kind cmd = TOPIC_HZ) \<and> \<not> is_supported_message_type (cc_type_name cmd) then
        ([], ''unsupported message type: '' @ cc_type_name cmd @ newline @ print_supported_types, Some 2)
      else if cc_config_path cmd \<noteq> [] then
        (let result = load_config_file (cw_read w) (cc_config_path cmd) in
         if \<not> cr_ok result then ([], cr_error result @ newline, Some 2)
         else run_command w cmd (cr_config result))
      else run_command w cmd default_config)"

section \<open>Echo and rate\<close>

text \<open>What \<open>echo\<close> prints for one message.\<close>

definition echo_block :: "('f, 'd) message_codec \<Rightarrow> ('m \<Rightarrow> bytes) \<Rightarrow> string \<Rightarrow> 'm \<Rightarrow> string" where
  "echo_block mc serialize type_name m =
     (let f = format_message mc type_name (serialize m)
      in (if fr_ok f then fr_text f else fr_error f) @ newline @ ''---'' @ newline)"

lemma echo_fold:
  assumes "0 < count"
  shows "foldl (\<lambda>st m. echo_callback mc ser ty count m st) \<lparr>es_received = 0, es_done = False, es_out = []\<rparr> msgs =
    \<lparr>es_received = int (min (length msgs) (nat count)), es_done = (nat count \<le> length msgs),
     es_out = concat (map (echo_block mc ser ty) (take (nat count) msgs))\<rparr>"
proof (induction msgs rule: rev_induct)
  case (snoc m msgs)
  then show ?case
    using assms by (auto simp: echo_callback_def echo_block_def Let_def min_def take_Suc_conv_app_nth)
qed (use assms in simp)

lemma hz_fold:
  assumes "0 < count"
  shows "foldl (\<lambda>st t. hz_callback count t st) \<lparr>hz_timestamps = [], hz_done = False\<rparr> ts =
    \<lparr>hz_timestamps = take (nat count) ts, hz_done = (nat count \<le> length ts)\<rparr>"
proof (induction ts rule: rev_induct)
  case (snoc t ts)
  then show ?case
    using assms by (auto simp: hz_callback_def Let_def)
qed (use assms in simp)

section \<open>Properties\<close>

text \<open>
  C25: \<open>topic echo --count\<close> prints exactly that many messages: once they have arrived it has printed the first \<open>count\<close> of
  them, in order and each as one block, and returns 0, whatever else arrives; with fewer messages it has printed
  all of them and is still waiting.
\<close>
theorem echo_prints_exactly_count:
  assumes "0 < count" "is_supported_message_type type_name"
  shows "snd (run_topic_echo mc serialize topic type_name count msgs n) =
    (concat (map (echo_block mc serialize type_name) (take (nat count) msgs)),
     if nat count \<le> length msgs then Some 0 else None)"
  using assms echo_fold [OF assms(1), of mc serialize type_name msgs]
  by (simp add: run_topic_echo_def run_echo_for_def is_supported_message_type_def supported_types_def split_beta)

definition text_codec :: "(unit, unit) message_codec" where
  "text_codec = \<lparr>mc_parse_string = Some, mc_parse_point = (\<lambda>_. None), mc_parse_cloud = (\<lambda>_. None),
     mc_show_float = (\<lambda>_. []), mc_show_double = (\<lambda>_. [])\<rparr>"

theorem echo_prints_exactly_count_witness:
  "snd (run_topic_echo text_codec id ''/t'' ''mm.StringMsg'' 1 [''hi'', ''you''] (make_node ''m'' default_options env_x :: unit node)) =
    (''data: hi'' @ newline @ ''---'' @ newline, Some 0)"
  using echo_prints_exactly_count [of 1 "''mm.StringMsg''" text_codec id "''/t''" "[''hi'', ''you'']"
      "make_node ''m'' default_options env_x :: unit node"]
  by (simp add: is_supported_message_type_def supported_types_def echo_block_def format_message_def text_codec_def ok_result_def)

text \<open>
  \<open>topic hz\<close> measures a steady publisher exactly: if messages arrive every \<open>d\<close> nanoseconds, the reported rate is
  \<open>10^9 / d\<close>, for every count of at least two messages and every window.
\<close>
theorem hz_reports_steady_rate:
  assumes "0 < d" "2 \<le> count" "nat count \<le> k" "is_supported_message_type type_name"
  shows "snd (run_topic_hz show_rate topic type_name window count (map (\<lambda>i. t0 + int i * d) [0..<k]) n) =
    (''average rate: '' @ show_rate (10 ^ 9 / rat_of_int d) @ '' Hz'' @ newline, Some 0)"
proof -
  let ?ts = "map (\<lambda>i. t0 + int i * d) [0..<nat count]"
  define sc where "sc = nat (min (if window > 1 then window else 2) (int (length ?ts)))"
  have sc: "2 \<le> sc" "sc \<le> nat count" using assms(2) by (auto simp: sc_def)
  have l: "length ?ts = nat count" by simp
  have "last ?ts = t0 + int (nat count - 1) * d"
    using assms(2) by (subst last_conv_nth) auto
  moreover have "?ts ! (length ?ts - sc) = t0 + int (nat count - sc) * d"
    using sc by simp
  moreover have "int (nat count - 1) - int (nat count - sc) = int (sc - 1)" using sc by linarith
  ultimately have e: "last ?ts - ?ts ! (length ?ts - sc) = int (sc - 1) * d"
    by (simp add: left_diff_distrib [symmetric])
  have "hz_rate window ?ts = 10 ^ 9 / rat_of_int d"
  proof -
    define j where "j = sc - 1"
    have "0 < j" using sc by (simp add: j_def)
    then show ?thesis
      unfolding hz_rate_def Let_def sc_def [symmetric] e j_def [symmetric] using sc(1) assms(1) by (simp add: field_simps)
  qed
  moreover have "take (nat count) (map (\<lambda>i. t0 + int i * d) [0..<k]) = ?ts"
    using assms(3) by (simp add: take_map)
  ultimately show ?thesis
    using assms hz_fold [of count "map (\<lambda>i. t0 + int i * d) [0..<k]"]
    by (simp add: run_topic_hz_def run_hz_for_def is_supported_message_type_def supported_types_def split_beta)
qed

theorem hz_reports_steady_rate_witness:
  "snd (run_topic_hz (\<lambda>r. if r = 100 then ''100.00'' else []) ''/t'' ''mm.StringMsg'' 10 3
     (map (\<lambda>i. 5 + int i * 10000000) [0..<4]) (make_node ''m'' default_options env_x :: unit node)) =
   (''average rate: 100.00 Hz'' @ newline, Some 0)"
  using hz_reports_steady_rate [of 10000000 3 4 "''mm.StringMsg''" "\<lambda>r. if r = 100 then ''100.00'' else []" "''/t''" 10 5
      "make_node ''m'' default_options env_x :: unit node"]
  by (simp add: is_supported_message_type_def supported_types_def)

end
