(* ===== verification/Bench_Codec.thy ===== *)
theory Bench_Codec
  imports Complex_Main C_Text
begin

text \<open>
  The benchmark's messages and statistics: bench/include/bench/message_codec.h, bench/src/message_codec.cpp and
  bench/src/stats.cpp. Averages and rates are exact rational numbers where the code computes with floating point.
  \<open>size_t\<close> and \<open>uint64_t\<close> values are natural numbers below \<open>2^64\<close>.
\<close>

section \<open>Messages\<close>

definition kBenchmarkInFlightWindow :: nat where
  "kBenchmarkInFlightWindow = 16"

definition flow_control_target :: "nat \<Rightarrow> nat" where
  "flow_control_target published_count =
     (if published_count > kBenchmarkInFlightWindow then published_count - kBenchmarkInFlightWindow else 0)"

text \<open>\<open>digits10\<close> of a 64-bit integer is 19.\<close>

definition kMaxBenchmarkRunIdBytes :: nat where
  "kMaxBenchmarkRunIdBytes = 3 * (19 + 1) + 2"

record benchmark_metadata =
  bm_run_id :: string
  bm_sequence :: nat
  bm_send_ns :: nat

definition make_benchmark_payload :: "string \<Rightarrow> nat \<Rightarrow> nat \<Rightarrow> nat \<Rightarrow> string" where
  "make_benchmark_payload run_id sequence send_ns payload_bytes =
     (let payload = run_id @ ''|'' @ to_string sequence @ ''|'' @ to_string send_ns @ ''|''
      in if length payload < payload_bytes then payload @ replicate (payload_bytes - length payload) (CHR ''x'') else payload)"

definition parse_benchmark_payload :: "string \<Rightarrow> benchmark_metadata option" where
  "parse_benchmark_payload payload =
     (let bar = CHR 0x7C;
          first = str_find bar payload 0;
          second = (case first of None \<Rightarrow> None | Some i \<Rightarrow> str_find bar payload (i + 1));
          third = (case second of None \<Rightarrow> None | Some i \<Rightarrow> str_find bar payload (i + 1))
      in case (first, second, third) of
           (Some f, Some s, Some t) \<Rightarrow>
             (if f = 0 then None
              else
                (case (from_chars_u64 (substr payload (f + 1) (s - f - 1)),
                       from_chars_u64 (substr payload (s + 1) (t - s - 1))) of
                   (Some n, Some ns) \<Rightarrow> Some \<lparr>bm_run_id = substr payload 0 f, bm_sequence = n, bm_send_ns = ns\<rparr>
                 | _ \<Rightarrow> None))
         | _ \<Rightarrow> None)"

definition minimum_benchmark_payload_bytes :: "string \<Rightarrow> nat \<Rightarrow> nat" where
  "minimum_benchmark_payload_bytes run_id count =
     (let max_sequence = (if count = 0 then 0 else count - 1)
      in length (make_benchmark_payload run_id max_sequence (2 ^ 64 - 1) 0))"

definition effective_benchmark_payload_bytes :: "nat \<Rightarrow> nat \<Rightarrow> nat" where
  "effective_benchmark_payload_bytes requested_payload_bytes count =
     max requested_payload_bytes (minimum_benchmark_payload_bytes (replicate kMaxBenchmarkRunIdBytes (CHR ''0'')) count)"

text \<open>
  Sizes computed by protobuf are a parameter: of a \<open>StringMsg\<close> with so many bytes, whether it can be serialised, and of
  a \<open>DataMessage\<close> with a topic and payload of given lengths.
\<close>

record proto_sizes =
  ps_string :: "nat \<Rightarrow> nat"
  ps_string_ok :: "nat \<Rightarrow> bool"
  ps_envelope :: "nat \<Rightarrow> nat \<Rightarrow> nat"

definition serialized_string_message_size :: "proto_sizes \<Rightarrow> nat \<Rightarrow> nat" where
  "serialized_string_message_size ps payload_bytes = ps_string ps payload_bytes"

definition tcp_frame_payload_size :: "proto_sizes \<Rightarrow> string \<Rightarrow> nat \<Rightarrow> nat" where
  "tcp_frame_payload_size ps topic payload_bytes =
     (if \<not> ps_string_ok ps payload_bytes then 2 ^ 64 - 1
      else ps_envelope ps (length topic) (ps_string ps payload_bytes))"

section \<open>Collecting samples\<close>

record collector =
  bc_run_id :: string
  bc_samples_by_sequence :: "nat list"
  bc_seen :: "bool list"
  bc_received :: nat

definition new_collector :: "string \<Rightarrow> nat \<Rightarrow> collector" where
  "new_collector run_id expected_count =
     \<lparr>bc_run_id = run_id, bc_samples_by_sequence = replicate expected_count 0, bc_seen = replicate expected_count False,
      bc_received = 0\<rparr>"

definition collect_record :: "string \<Rightarrow> nat \<Rightarrow> collector \<Rightarrow> bool \<times> collector" where
  "collect_record payload receive_ns c =
     (case parse_benchmark_payload payload of
        None \<Rightarrow> (False, c)
      | Some m \<Rightarrow>
          (if bm_run_id m \<noteq> bc_run_id c \<or> bm_sequence m \<ge> length (bc_seen c) \<or> bc_seen c ! bm_sequence m then (False, c)
           else
             (True, c\<lparr>bc_samples_by_sequence := (bc_samples_by_sequence c)[bm_sequence m :=
                        (if receive_ns \<ge> bm_send_ns m then (receive_ns - bm_send_ns m) div 1000 else 0)],
                      bc_seen := (bc_seen c)[bm_sequence m := True],
                      bc_received := bc_received c + 1\<rparr>)))"

definition samples :: "collector \<Rightarrow> nat list" where
  "samples c = map (\<lambda>i. bc_samples_by_sequence c ! i) (filter (\<lambda>i. bc_seen c ! i) [0..<length (bc_seen c)])"

section \<open>Statistics\<close>

record latency_stats =
  ls_count :: nat
  ls_avg_us :: rat
  ls_p50_us :: nat
  ls_p95_us :: nat
  ls_p99_us :: nat
  ls_duration_ms :: rat
  ls_throughput :: rat

definition nearest_rank_percentile :: "nat list \<Rightarrow> nat \<Rightarrow> nat" where
  "nearest_rank_percentile sorted_samples percentile =
     (let count = length sorted_samples; rank = (count * percentile + 99) div 100 in sorted_samples ! (rank - 1))"

definition compute_latency_stats :: "nat list \<Rightarrow> int \<Rightarrow> latency_stats" where
  "compute_latency_stats samples_us duration =
     (let stats = \<lparr>ls_count = length samples_us, ls_avg_us = 0, ls_p50_us = 0, ls_p95_us = 0, ls_p99_us = 0,
                   ls_duration_ms = rat_of_int duration / 1000, ls_throughput = 0\<rparr>
      in if samples_us = [] then stats
         else
           (let sorted_samples = sort samples_us;
                stats = stats\<lparr>ls_avg_us := rat_of_nat (sum_list sorted_samples) / rat_of_nat (length sorted_samples),
                  ls_p50_us := nearest_rank_percentile sorted_samples 50,
                  ls_p95_us := nearest_rank_percentile sorted_samples 95,
                  ls_p99_us := nearest_rank_percentile sorted_samples 99\<rparr>
            in if duration > 0
               then stats\<lparr>ls_throughput := rat_of_nat (ls_count stats) / (rat_of_int duration / 1000000)\<rparr>
               else stats))"

section \<open>Facts about payloads\<close>

lemma bar_not_in_number: "CHR 0x7C \<notin> set (to_string n)"
  using to_string_digits [of "CHR 0x7C" n] by (auto simp: isdigit_def)

lemma str_find_at:
  assumes "CHR 0x7C \<notin> set a" "length p = pos"
  shows "str_find (CHR 0x7C) (p @ a @ CHR 0x7C # r) pos = Some (pos + length a)"
proof -
  have "\<forall>x \<in> set a. x \<noteq> CHR 0x7C" using assms(1) by blast
  from find_index_append [OF this, of "CHR 0x7C # r"] assms(2) show ?thesis by (auto simp: str_find_def)
qed

lemma parse_payload_text:
  assumes "run_id \<noteq> []" "CHR 0x7C \<notin> set run_id" "n < 2 ^ 64" "ns < 2 ^ 64"
  shows "parse_benchmark_payload (run_id @ CHR 0x7C # to_string n @ CHR 0x7C # to_string ns @ CHR 0x7C # r) =
    Some \<lparr>bm_run_id = run_id, bm_sequence = n, bm_send_ns = ns\<rparr>"
proof -
  let ?a = "to_string n" and ?b = "to_string ns"
  let ?p = "run_id @ CHR 0x7C # ?a @ CHR 0x7C # ?b @ CHR 0x7C # r"
  have f: "str_find (CHR 0x7C) ?p 0 = Some (length run_id)"
    using str_find_at [of run_id "[]" 0 "?a @ CHR 0x7C # ?b @ CHR 0x7C # r"] assms(2) by simp
  have s: "str_find (CHR 0x7C) ?p (length run_id + 1) = Some (length run_id + 1 + length ?a)"
    using str_find_at [of ?a "run_id @ [CHR 0x7C]" "length run_id + 1" "?b @ CHR 0x7C # r"] bar_not_in_number by simp
  have t: "str_find (CHR 0x7C) ?p (length run_id + 1 + length ?a + 1) = Some (length run_id + 1 + length ?a + 1 + length ?b)"
    using str_find_at [of ?b "run_id @ [CHR 0x7C] @ ?a @ [CHR 0x7C]" "length run_id + 1 + length ?a + 1" r] bar_not_in_number by simp
  have x: "substr ?p 0 (length run_id) = run_id" "substr ?p (length run_id + 1) (length ?a) = ?a"
    "substr ?p (length run_id + 1 + length ?a + 1) (length ?b) = ?b"
    by (simp_all add: substr_def)
  show ?thesis
    unfolding parse_benchmark_payload_def Let_def f option.case s t using assms x
    by (simp add: Suc_diff_Suc)
qed

lemma payload_text:
  "make_benchmark_payload run_id n ns k = run_id @ CHR 0x7C # to_string n @ CHR 0x7C # to_string ns @ CHR 0x7C #
     replicate (k - (length run_id + length (to_string n) + length (to_string ns) + 3)) (CHR ''x'')"
proof -
  have e: "length (run_id @ ''|'' @ to_string n @ ''|'' @ to_string ns @ ''|'') =
      length run_id + length (to_string n) + length (to_string ns) + 3"
    by simp
  show ?thesis unfolding make_benchmark_payload_def Let_def e by simp
qed

lemma payload_length:
  "length (make_benchmark_payload run_id n ns k) = max k (length run_id + length (to_string n) + length (to_string ns) + 3)"
  by (simp add: payload_text)

lemma payload_has_effective_size':
  assumes "length run_id \<le> kMaxBenchmarkRunIdBytes" "i < count" "ns < 2 ^ 64"
  shows "length (make_benchmark_payload run_id i ns (effective_benchmark_payload_bytes requested count)) =
    effective_benchmark_payload_bytes requested count"
proof -
  have "length (to_string i) \<le> length (to_string (count - 1))" "length (to_string ns) \<le> length (to_string (2 ^ 64 - 1))"
    using assms by (auto intro: to_string_length_mono)
  then show ?thesis using assms
    unfolding payload_length effective_benchmark_payload_bytes_def minimum_benchmark_payload_bytes_def Let_def
    by simp
qed

section \<open>Facts about the collector\<close>

definition collector_ok :: "collector \<Rightarrow> bool" where
  "collector_ok c \<longleftrightarrow> length (bc_samples_by_sequence c) = length (bc_seen c) \<and>
     bc_received c = length (filter id (bc_seen c))"

lemma filter_id_update:
  "i < length bs \<Longrightarrow> \<not> bs ! i \<Longrightarrow> length (filter id (bs[i := True])) = Suc (length (filter id bs))"
proof (induction bs arbitrary: i)
  case (Cons b bs)
  then show ?case by (cases i) auto
qed simp

lemma collect_record_ok: "collector_ok c \<Longrightarrow> collector_ok (snd (collect_record p t c))"
  by (auto simp: collect_record_def collector_ok_def filter_id_update split: option.splits)

lemma length_filter_nth: "length (filter (\<lambda>i. bs ! i) [0..<length bs]) = length (filter id bs)"
proof -
  have "filter id bs = map ((!) bs) (filter (\<lambda>i. bs ! i) [0..<length bs])"
    using filter_map [of id "(!) bs" "[0..<length bs]"] by (simp add: map_nth comp_def)
  then show ?thesis by simp
qed

lemma samples_length: "collector_ok c \<Longrightarrow> length (samples c) = bc_received c"
  by (simp add: samples_def collector_ok_def length_filter_nth)

text \<open>The collector after a sequence of received messages.\<close>

definition collect_all :: "(string \<times> nat) list \<Rightarrow> collector \<Rightarrow> collector" where
  "collect_all rs c = foldl (\<lambda>c (p, t). snd (collect_record p t c)) c rs"

lemma collect_all_ok: "collector_ok c \<Longrightarrow> collector_ok (collect_all rs c)"
  by (induction rs arbitrary: c) (auto simp: collect_all_def collect_record_ok)

definition carries :: "string \<Rightarrow> nat \<Rightarrow> string \<times> nat \<Rightarrow> bool" where
  "carries run_id i r \<longleftrightarrow> (\<exists>m. parse_benchmark_payload (fst r) = Some m \<and> bm_run_id m = run_id \<and> bm_sequence m = i)"

lemma collect_record_fields [simp]:
  "length (bc_seen (snd (collect_record p t c))) = length (bc_seen c)" "bc_run_id (snd (collect_record p t c)) = bc_run_id c"
  by (auto simp: collect_record_def split: option.splits)

lemma collect_record_seen:
  assumes "i < length (bc_seen c)"
  shows "bc_seen (snd (collect_record p t c)) ! i \<longleftrightarrow> bc_seen c ! i \<or> carries (bc_run_id c) i (p, t)"
  using assms by (auto simp: collect_record_def carries_def nth_list_update split: option.splits)

lemma collect_all_seen:
  assumes "i < length (bc_seen c)"
  shows "bc_seen (collect_all rs c) ! i \<longleftrightarrow> bc_seen c ! i \<or> (\<exists>r \<in> set rs. carries (bc_run_id c) i r)"
  using assms
proof (induction rs arbitrary: c)
  case (Cons r rs)
  obtain p t where r: "r = (p, t)" by (cases r)
  from Cons.IH [of "snd (collect_record p t c)"] Cons.prems collect_record_seen [OF Cons.prems, of p t]
  show ?case by (auto simp: collect_all_def r)
qed (simp add: collect_all_def)

lemma collect_all_length [simp]: "length (bc_seen (collect_all rs c)) = length (bc_seen c)"
  by (induction rs arbitrary: c) (auto simp: collect_all_def)

lemma new_collector_all_ok: "collector_ok (collect_all rs (new_collector run_id expected))"
  by (rule collect_all_ok) (simp add: collector_ok_def new_collector_def filter_empty_conv)

lemma collect_all_received:
  "bc_received (collect_all rs (new_collector run_id expected)) =
     card {i. i < expected \<and> (\<exists>r \<in> set rs. carries run_id i r)}"
proof -
  let ?c = "collect_all rs (new_collector run_id expected)"
  have l: "length (bc_seen (new_collector run_id expected)) = expected" by (simp add: new_collector_def)
  have "bc_received ?c = card {i. i < expected \<and> bc_seen ?c ! i}"
    using new_collector_all_ok length_filter_conv_card [of id "bc_seen ?c"] by (simp add: collector_ok_def l)
  also have "{i. i < expected \<and> bc_seen ?c ! i} = {i. i < expected \<and> (\<exists>r \<in> set rs. carries run_id i r)}"
    using collect_all_seen [of _ "new_collector run_id expected" rs] by (auto simp: new_collector_def)
  finally show ?thesis .
qed

lemma collect_all_append: "collect_all (rs @ rs') c = collect_all rs' (collect_all rs c)"
  by (simp add: collect_all_def)

lemma payload_carries:
  assumes "run_id \<noteq> []" "CHR 0x7C \<notin> set run_id" "n < 2 ^ 64" "ns < 2 ^ 64"
  shows "carries run_id n (make_benchmark_payload run_id n ns k, t)"
  using parse_payload_text [OF assms] by (simp add: carries_def payload_text)

section \<open>Percentiles\<close>

lemma sorted_count_le:
  assumes "sorted xs" "i < length xs"
  shows "Suc i \<le> length (filter (\<lambda>x. x \<le> xs ! i) xs)"
proof -
  have "\<forall>x \<in> set (take (Suc i) xs). x \<le> xs ! i"
    using assms by (auto simp: in_set_conv_nth sorted_nth_mono)
  then have "filter (\<lambda>x. x \<le> xs ! i) (take (Suc i) xs) = take (Suc i) xs" by (simp add: filter_id_conv)
  then have "length (filter (\<lambda>x. x \<le> xs ! i) (take (Suc i) xs)) = Suc i" using assms(2) by simp
  moreover have "length (filter P (take k xs)) \<le> length (filter P xs)" for P k
    by (metis append_take_drop_id filter_append le_add1 length_append)
  ultimately show ?thesis by metis
qed

lemma sorted_count_less:
  assumes "sorted xs" "i < length xs"
  shows "length (filter (\<lambda>x. x < xs ! i) xs) \<le> i"
proof -
  have "\<forall>x \<in> set (drop i xs). \<not> x < xs ! i"
    using assms by (auto simp: in_set_conv_nth sorted_nth_mono not_less)
  then have "filter (\<lambda>x. x < xs ! i) (drop i xs) = []" by (simp add: filter_empty_conv)
  then have "length (filter (\<lambda>x. x < xs ! i) xs) = length (filter (\<lambda>x. x < xs ! i) (take i xs))"
    by (metis append_take_drop_id append_Nil2 filter_append)
  also have "\<dots> \<le> i" using length_filter_le [of _ "take i xs"] by (metis length_take min.bounded_iff)
  finally show ?thesis .
qed

lemma sum_list_insort: "sum_list (insort x xs) = x + sum_list xs" for x :: nat
  by (induction xs) auto

lemma sum_list_sort: "sum_list (sort xs) = sum_list xs" for xs :: "nat list"
  by (induction xs) (simp_all add: sum_list_insort)

lemma rank_bounds:
  fixes n p :: nat
  assumes "0 < n" "0 < p" "p \<le> 100" "r = (n * p + 99) div 100"
  shows "0 < r" "r \<le> n" "n * p \<le> r * 100" "(r - 1) * 100 < n * p"
proof -
  have "0 < n * p" "n * p \<le> n * 100" using assms by simp_all
  then show "0 < r" "r \<le> n" "n * p \<le> r * 100" "(r - 1) * 100 < n * p"
    unfolding assms(4) by linarith+
qed

lemma percentile_of_sorted:
  assumes "sorted xs" "xs \<noteq> []" "0 < p" "p \<le> 100"
  shows "nearest_rank_percentile xs p \<in> set xs"
    and "length xs * p \<le> 100 * length (filter (\<lambda>x. x \<le> nearest_rank_percentile xs p) xs)"
    and "100 * length (filter (\<lambda>x. x < nearest_rank_percentile xs p) xs) < length xs * p"
proof -
  define r where "r = (length xs * p + 99) div 100"
  note b = rank_bounds [OF _ assms(3,4) r_def]
  have v: "nearest_rank_percentile xs p = xs ! (r - 1)" by (simp add: nearest_rank_percentile_def r_def)
  have i: "r - 1 < length xs" "Suc (r - 1) = r" using b assms(2) by auto
  show "nearest_rank_percentile xs p \<in> set xs" using v i by simp
  show "length xs * p \<le> 100 * length (filter (\<lambda>x. x \<le> nearest_rank_percentile xs p) xs)"
    using sorted_count_le [OF assms(1) i(1)] b assms(2) unfolding v i by simp
  show "100 * length (filter (\<lambda>x. x < nearest_rank_percentile xs p) xs) < length xs * p"
    using sorted_count_less [OF assms(1) i(1)] b(4) assms(2) unfolding v by simp
qed

section \<open>Properties\<close>

text \<open>
  a benchmark payload carries its metadata: for a run identifier that is not empty and has no separator in it,
  parsing what \<open>make_benchmark_payload\<close> writes gives back the identifier, the sequence number and the time stamp, up to
  the full 64-bit range and whatever the padding.
\<close>

theorem payload_round_trip:
  assumes "run_id \<noteq> []" "CHR 0x7C \<notin> set run_id" "n < 2 ^ 64" "ns < 2 ^ 64"
  shows "parse_benchmark_payload (make_benchmark_payload run_id n ns k) =
    Some \<lparr>bm_run_id = run_id, bm_sequence = n, bm_send_ns = ns\<rparr>"
  unfolding payload_text by (rule parse_payload_text [OF assms])

theorem payload_round_trip_witness:
  "parse_benchmark_payload (make_benchmark_payload ''12-3-4'' 7 (2 ^ 64 - 1) 64) =
    Some \<lparr>bm_run_id = ''12-3-4'', bm_sequence = 7, bm_send_ns = 2 ^ 64 - 1\<rparr>"
  by (rule payload_round_trip) simp_all

text \<open>
  every message of a run has the same length, the effective payload size: with a run identifier of at most
  \<open>kMaxBenchmarkRunIdBytes\<close> bytes, a sequence number below the count and any 64-bit time stamp, the metadata never
  pushes the payload beyond the size \<open>effective_benchmark_payload_bytes\<close> that the argument checks were made with.
\<close>

theorem payload_has_effective_size:
  assumes "length run_id \<le> kMaxBenchmarkRunIdBytes" "i < count" "ns < 2 ^ 64"
  shows "length (make_benchmark_payload run_id i ns (effective_benchmark_payload_bytes requested count)) =
    effective_benchmark_payload_bytes requested count"
  by (rule payload_has_effective_size' [OF assms])

theorem payload_has_effective_size_witness:
  "length (make_benchmark_payload ''12-3-4'' 9 77 (effective_benchmark_payload_bytes 8 10)) =
    effective_benchmark_payload_bytes 8 10"
  by (rule payload_has_effective_size) (simp_all add: kMaxBenchmarkRunIdBytes_def)

text \<open>
  the percentiles reported are nearest-rank percentiles of the samples in any order: the value for \<open>p\<close> is one of
  the samples, at least \<open>p\<close> percent of the samples are not above it, and fewer than \<open>p\<close> percent are below it. The
  count and the average are those of the samples.
\<close>

theorem latency_stats_correct:
  assumes "xs \<noteq> []"
  shows "let s = compute_latency_stats xs d in
    ls_count s = length xs \<and> ls_avg_us s * rat_of_nat (length xs) = rat_of_nat (sum_list xs) \<and>
    (\<forall>(p, v) \<in> {(50, ls_p50_us s), (95, ls_p95_us s), (99, ls_p99_us s)}.
       v \<in> set xs \<and> length xs * p \<le> 100 * length (filter (\<lambda>x. x \<le> v) xs) \<and>
       100 * length (filter (\<lambda>x. x < v) xs) < length xs * p)"
proof -
  let ?s = "compute_latency_stats xs d" and ?q = "\<lambda>p. nearest_rank_percentile (sort xs) p"
  have "sum_list (sort xs) = sum_list xs" by (rule sum_list_sort)
  then have s: "ls_count ?s = length xs" "ls_avg_us ?s = rat_of_nat (sum_list xs) / rat_of_nat (length xs)"
    "ls_p50_us ?s = ?q 50" "ls_p95_us ?s = ?q 95" "ls_p99_us ?s = ?q 99"
    using assms by (simp_all add: compute_latency_stats_def Let_def)
  have ne: "sort xs \<noteq> []" using assms by (metis length_0_conv length_sort)
  have "?q p \<in> set xs \<and> length xs * p \<le> 100 * length (filter (\<lambda>x. x \<le> ?q p) xs) \<and>
      100 * length (filter (\<lambda>x. x < ?q p) xs) < length xs * p" if "0 < p" "p \<le> 100" for p
    using percentile_of_sorted [OF sorted_sort ne that] by (simp add: filter_sort)
  from this [of 50] this [of 95] this [of 99] show ?thesis using assms unfolding Let_def s by simp
qed

theorem latency_stats_correct_witness:
  "let s = compute_latency_stats [30, 10, 20] 5000 in
    ls_count s = length [30, 10, 20::nat] \<and> ls_avg_us s * rat_of_nat (length [30, 10, 20::nat]) = rat_of_nat (sum_list [30, 10, 20]) \<and>
    (\<forall>(p, v) \<in> {(50, ls_p50_us s), (95, ls_p95_us s), (99, ls_p99_us s)}.
       v \<in> set [30, 10, 20] \<and> length [30, 10, 20::nat] * p \<le> 100 * length (filter (\<lambda>x. x \<le> v) [30, 10, 20]) \<and>
       100 * length (filter (\<lambda>x. x < v) [30, 10, 20]) < length [30, 10, 20::nat] * p)"
  by (rule latency_stats_correct) simp

text \<open>
  the collector takes each sequence number of its run once: whatever messages arrive, in any order, with
  duplicates, foreign run identifiers, numbers out of range and text that is no payload, the samples are one for each
  number below the expected count that some message of the run carried, and the received count is their number.
\<close>

theorem collector_counts_each_sequence_once:
  "let c = collect_all rs (new_collector run_id expected) in
    bc_received c = card {i. i < expected \<and> (\<exists>r \<in> set rs. carries run_id i r)} \<and>
    length (samples c) = bc_received c"
  by (simp add: Let_def collect_all_received samples_length new_collector_all_ok)

end
