(* ===== verification/Bench_Args.thy ===== *)
theory Bench_Args
  imports Frame_Codec Bench_Codec Data_Plane
begin

text \<open>
  The command line of \<open>mm_bench\<close> (bench/include/bench/bench_args.h, bench/src/bench_args.cpp). A \<open>return\<close> out of the
  option loop is the left value of a sum. The protobuf sizes are the parameter \<open>proto_sizes\<close> of the message codec.
\<close>

section \<open>Options\<close>

definition kMaxBenchmarkCount :: nat where
  "kMaxBenchmarkCount = 100000"

datatype bench_mode = SHM | TCP

record bench_options =
  bo_mode :: bench_mode
  bo_count :: nat
  bo_requested_payload_bytes :: nat
  bo_payload_bytes :: nat
  bo_topic :: string

definition default_bench_options :: bench_options where
  "default_bench_options =
     \<lparr>bo_mode = SHM, bo_count = 10000, bo_requested_payload_bytes = 256, bo_payload_bytes = 256, bo_topic = ''/bench''\<rparr>"

record parse_result =
  pr_ok :: bool
  pr_help :: bool
  pr_exit_code :: int
  pr_message :: string
  pr_options :: bench_options

definition bench_usage :: string where
  "bench_usage = ''Usage:'' @ newline @
     ''  mm_bench [--mode shm|tcp] [--count N] [--payload-bytes N] [--topic NAME]'' @ newline @
     ''  mm_bench --help'' @ newline @ newline @
     ''--count N must be between 1 and '' @ to_string kMaxBenchmarkCount @ ''.'' @ newline"

fun mode_name :: "bench_mode \<Rightarrow> string" where
  "mode_name SHM = ''shm''"
| "mode_name TCP = ''tcp''"

definition bench_is_option_token :: "string \<Rightarrow> bool" where
  "bench_is_option_token text \<longleftrightarrow> starts_with ''--'' text"

definition help_result :: parse_result where
  "help_result = \<lparr>pr_ok = True, pr_help = True, pr_exit_code = 0, pr_message = bench_usage, pr_options = default_bench_options\<rparr>"

definition error_result :: "string \<Rightarrow> parse_result" where
  "error_result message =
     \<lparr>pr_ok = False, pr_help = False, pr_exit_code = 2, pr_message = message @ newline @ newline @ bench_usage,
      pr_options = default_bench_options\<rparr>"

section \<open>Parsing\<close>

definition bench_read_option_value :: "string \<Rightarrow> string list \<Rightarrow> parse_result + string" where
  "bench_read_option_value name rest =
     (case rest of
        [] \<Rightarrow> Inl (error_result (name @ '' requires a value''))
      | v # _ \<Rightarrow> if bench_is_option_token v then Inl (error_result (name @ '' requires a value'')) else Inr v)"

definition parse_positive_size :: "string \<Rightarrow> nat option" where
  "parse_positive_size text =
     (if text = [] \<or> hd text = CHR ''-'' then None
      else
        (let r = strtoull text in
         if st_erange r \<or> st_no_conversion r \<or> st_end r \<noteq> [] \<or> st_value r = 0 \<or> st_value r > 2 ^ 64 - 1 then None
         else Some (nat (st_value r))))"

definition bench_apply_option :: "string \<Rightarrow> string \<Rightarrow> bench_options \<Rightarrow> parse_result + bench_options" where
  "bench_apply_option arg v opts =
     (if arg = ''--mode'' then
        (if v = ''shm'' then Inr (opts\<lparr>bo_mode := SHM\<rparr>)
         else if v = ''tcp'' then Inr (opts\<lparr>bo_mode := TCP\<rparr>)
         else Inl (error_result (''unsupported mode: '' @ v)))
      else if arg = ''--count'' then
        (case parse_positive_size v of
           None \<Rightarrow> Inl (error_result ''--count must be positive'')
         | Some n \<Rightarrow>
             if n > kMaxBenchmarkCount then
               Inl (error_result (''--count must not exceed '' @ to_string kMaxBenchmarkCount @ '' for this demo benchmark''))
             else Inr (opts\<lparr>bo_count := n\<rparr>))
      else if arg = ''--payload-bytes'' then
        (case parse_positive_size v of
           None \<Rightarrow> Inl (error_result ''--payload-bytes must be a positive integer'')
         | Some n \<Rightarrow> Inr (opts\<lparr>bo_payload_bytes := n\<rparr>))
      else Inr (opts\<lparr>bo_topic := v\<rparr>))"

function bench_loop :: "string list \<Rightarrow> bench_options \<Rightarrow> parse_result + bench_options" where
  "bench_loop [] opts = Inr opts"
| "bench_loop (arg # rest) opts =
     (if arg = ''--help'' then Inl help_result
      else if arg \<in> {''--mode'', ''--count'', ''--payload-bytes'', ''--topic''} then
        (case bench_read_option_value arg rest of
           Inl e \<Rightarrow> Inl e
         | Inr v \<Rightarrow>
             (case bench_apply_option arg v opts of
                Inl e \<Rightarrow> Inl e
              | Inr opts' \<Rightarrow> bench_loop (tl rest) opts'))
      else if bench_is_option_token arg then Inl (error_result (''unknown option: '' @ arg))
      else Inl (error_result (''unexpected argument: '' @ arg)))"
  by pat_completeness auto
termination
  by (relation "measure (length \<circ> fst)") auto

definition check_sizes :: "proto_sizes \<Rightarrow> bench_options \<Rightarrow> parse_result option" where
  "check_sizes ps opts =
     (let slot = unat kShmSlotCapacity in
      if bo_mode opts = SHM then
        (if bo_payload_bytes opts > slot then
           Some (error_result (''SHM payload alone exceeds the '' @ to_string slot @
             ''-byte slot; use --mode tcp for larger payloads''))
         else
           (let serialized_size = serialized_string_message_size ps (bo_payload_bytes opts) in
            if serialized_size > slot then
              Some (error_result (''serialized benchmark message is '' @ to_string serialized_size @
                '' bytes and exceeds the '' @ to_string slot @ ''-byte SHM slot; use --mode tcp for larger payloads''))
            else None))
      else
        (if bo_payload_bytes opts > MAX_PAYLOAD_SIZE then
           Some (error_result (''TCP frame payload exceeds the '' @ to_string MAX_PAYLOAD_SIZE @ ''-byte FrameCodec limit''))
         else
           (let frame_payload_size = tcp_frame_payload_size ps (bo_topic opts) (bo_payload_bytes opts) in
            if frame_payload_size > MAX_PAYLOAD_SIZE then
              Some (error_result (''TCP frame payload is '' @ to_string frame_payload_size @ '' bytes and exceeds the '' @
                to_string MAX_PAYLOAD_SIZE @ ''-byte FrameCodec limit''))
            else None)))"

definition parse_bench_args :: "proto_sizes \<Rightarrow> string list \<Rightarrow> parse_result" where
  "parse_bench_args ps argv =
     (case bench_loop (tl argv) default_bench_options of
        Inl r \<Rightarrow> r
      | Inr o1 \<Rightarrow>
          (let o2 = o1\<lparr>bo_requested_payload_bytes := bo_payload_bytes o1,
                      bo_payload_bytes := effective_benchmark_payload_bytes (bo_payload_bytes o1) (bo_count o1)\<rparr>
           in case check_sizes ps o2 of
                Some e \<Rightarrow> e
              | None \<Rightarrow> \<lparr>pr_ok = True, pr_help = False, pr_exit_code = 0, pr_message = [], pr_options = o2\<rparr>))"

section \<open>What the parser accepts\<close>

lemma parse_positive_size_range: "parse_positive_size s = Some n \<Longrightarrow> 0 < n \<and> n < 2 ^ 64"
  by (auto simp: parse_positive_size_def strtoull_def Let_def split: if_splits)

definition bench_options_ok :: "bench_options \<Rightarrow> bool" where
  "bench_options_ok opts \<longleftrightarrow> 0 < bo_count opts \<and> bo_count opts \<le> kMaxBenchmarkCount \<and>
     0 < bo_payload_bytes opts \<and> bo_payload_bytes opts < 2 ^ 64 \<and> \<not> bench_is_option_token (bo_topic opts)"

lemma default_bench_options_ok: "bench_options_ok default_bench_options"
  by (simp add: bench_options_ok_def default_bench_options_def kMaxBenchmarkCount_def bench_is_option_token_def starts_with_def)

lemma bench_apply_option_ok:
  assumes "bench_apply_option arg v opts = Inr opts'" "bench_options_ok opts" "\<not> bench_is_option_token v"
  shows "bench_options_ok opts'"
  using assms parse_positive_size_range [of v]
  by (auto simp: bench_apply_option_def bench_options_ok_def split: if_splits option.splits)

lemma bench_loop_ok: "bench_loop args opts = Inr opts' \<Longrightarrow> bench_options_ok opts \<Longrightarrow> bench_options_ok opts'"
proof (induction args opts rule: bench_loop.induct)
  case (2 arg rest opts)
  from "2.prems"(1) obtain v o1 where v: "arg \<noteq> ''--help''" "arg \<in> {''--mode'', ''--count'', ''--payload-bytes'', ''--topic''}"
    "bench_read_option_value arg rest = Inr v" "bench_apply_option arg v opts = Inr o1" "bench_loop (tl rest) o1 = Inr opts'"
    by (auto split: if_splits sum.splits)
  have "\<not> bench_is_option_token v"
    using v(3) by (auto simp: bench_read_option_value_def split: list.splits if_splits)
  from "2.IH" [OF v(1,2,3,4,5)] bench_apply_option_ok [OF v(4) "2.prems"(2) this] show ?case by blast
qed simp

definition is_error :: "parse_result \<Rightarrow> bool" where
  "is_error r \<longleftrightarrow> (\<exists>m. r = error_result m)"

lemma bench_loop_stops: "bench_loop args opts = Inl r \<Longrightarrow> r = help_result \<or> is_error r"
proof (induction args opts rule: bench_loop.induct)
  case (2 arg rest opts)
  have "is_error e" if "bench_read_option_value arg rest = Inl e" for e
    using that by (auto simp: bench_read_option_value_def is_error_def split: list.splits if_splits)
  moreover have "is_error e" if "bench_apply_option arg v opts = Inl e" for v e
    using that by (auto simp: bench_apply_option_def is_error_def split: option.splits if_splits)
  ultimately show ?case
    using 2 by (auto simp: is_error_def split: if_splits sum.splits)
qed simp

lemma check_sizes_error: "check_sizes ps opts = Some r \<Longrightarrow> is_error r"
  by (auto simp: check_sizes_def is_error_def Let_def split: if_splits)

lemma parse_bench_args_cases:
  obtains "parse_bench_args ps argv = help_result"
  | "is_error (parse_bench_args ps argv)"
  | o1 o2 where "bench_options_ok o1"
    "o2 = o1\<lparr>bo_requested_payload_bytes := bo_payload_bytes o1,
             bo_payload_bytes := effective_benchmark_payload_bytes (bo_payload_bytes o1) (bo_count o1)\<rparr>"
    "check_sizes ps o2 = None"
    "parse_bench_args ps argv = \<lparr>pr_ok = True, pr_help = False, pr_exit_code = 0, pr_message = [], pr_options = o2\<rparr>"
proof (cases "bench_loop (tl argv) default_bench_options")
  case (Inl r)
  with bench_loop_stops [OF this] that(1,2) show thesis by (auto simp: parse_bench_args_def)
next
  case (Inr o1)
  define o2 where "o2 = o1\<lparr>bo_requested_payload_bytes := bo_payload_bytes o1,
             bo_payload_bytes := effective_benchmark_payload_bytes (bo_payload_bytes o1) (bo_count o1)\<rparr>"
  have p: "parse_bench_args ps argv = (case check_sizes ps o2 of
        Some e \<Rightarrow> e | None \<Rightarrow> \<lparr>pr_ok = True, pr_help = False, pr_exit_code = 0, pr_message = [], pr_options = o2\<rparr>)"
    unfolding parse_bench_args_def Inr o2_def Let_def by simp
  show thesis
  proof (cases "check_sizes ps o2")
    case None
    with that(3) [OF bench_loop_ok [OF Inr default_bench_options_ok] o2_def None] p show ?thesis by simp
  next
    case (Some r)
    with check_sizes_error [OF Some] that(2) p show ?thesis by simp
  qed
qed

section \<open>Properties\<close>

text \<open>
  C24: options that the benchmark accepts can be run: the count is between 1 and \<open>kMaxBenchmarkCount\<close>, and every message the run
  will publish (any sequence number below the count, any time stamp, any run identifier up to
  \<open>kMaxBenchmarkRunIdBytes\<close>) fits the channel of its mode: serialised, a slot of the shared-memory ring, or, in its
  envelope, one TCP frame.
\<close>

theorem accepted_messages_fit:
  assumes "parse_bench_args ps argv = r" "pr_ok r" "\<not> pr_help r" "length run_id \<le> kMaxBenchmarkRunIdBytes"
    "i < bo_count (pr_options r)" "ns < 2 ^ 64"
  defines "m \<equiv> make_benchmark_payload run_id i ns (bo_payload_bytes (pr_options r))"
  shows "bo_count (pr_options r) \<le> kMaxBenchmarkCount \<and>
    (case bo_mode (pr_options r) of
       SHM \<Rightarrow> ps_string ps (length m) \<le> unat kShmSlotCapacity
     | TCP \<Rightarrow> ps_string_ok ps (length m) \<and>
         ps_envelope ps (length (bo_topic (pr_options r))) (ps_string ps (length m)) \<le> MAX_PAYLOAD_SIZE)"
proof (cases rule: parse_bench_args_cases [of ps argv])
  case (3 o1 o2)
  let ?e = "effective_benchmark_payload_bytes (bo_payload_bytes o1) (bo_count o1)"
  have opts: "pr_options r = o2" using assms(1) 3(4) by auto
  have "length m = ?e"
    using payload_has_effective_size' [OF assms(4) _ assms(6)] assms(5) unfolding m_def opts 3(2) by simp
  then have l: "length m = bo_payload_bytes o2" unfolding 3(2) by simp
  show ?thesis
    using 3(1,3) unfolding opts l 3(2)
    by (auto simp: check_sizes_def Let_def bench_options_ok_def serialized_string_message_size_def tcp_frame_payload_size_def
        MAX_PAYLOAD_SIZE_def split: if_splits bench_mode.splits)
qed (use assms(1-3) in \<open>auto simp: help_result_def is_error_def error_result_def\<close>)

text \<open>A serialisation with one tag and one length byte in front of a text.\<close>

definition sizes_x :: proto_sizes where
  "sizes_x = \<lparr>ps_string = (\<lambda>n. n + 2), ps_string_ok = (\<lambda>n. True), ps_envelope = (\<lambda>t n. t + n + 4)\<rparr>"

lemma args_x:
  "parse_bench_args sizes_x [''mm_bench'', ''--count'', ''3'', ''--payload-bytes'', ''200''] =
     \<lparr>pr_ok = True, pr_help = False, pr_exit_code = 0, pr_message = [],
      pr_options = \<lparr>bo_mode = SHM, bo_count = 3, bo_requested_payload_bytes = 200, bo_payload_bytes = 200, bo_topic = ''/bench''\<rparr>\<rparr>"
proof -
  have n: "parse_positive_size ''3'' = Some 3" "parse_positive_size ''200'' = Some 200" by code_simp+
  have t: "length (to_string 2) \<le> 1" "length (to_string (2 ^ 64 - 1)) \<le> 20"
    by (rule to_string_length_le; simp)+
  have e: "effective_benchmark_payload_bytes 200 3 = 200"
    unfolding effective_benchmark_payload_bytes_def minimum_benchmark_payload_bytes_def payload_length Let_def
    using t by (simp add: kMaxBenchmarkRunIdBytes_def)
  have c: "check_sizes sizes_x \<lparr>bo_mode = SHM, bo_count = 3, bo_requested_payload_bytes = 200, bo_payload_bytes = 200, bo_topic = ''/bench''\<rparr> = None"
    by (simp add: check_sizes_def sizes_x_def kShmSlotCapacity_def serialized_string_message_size_def)
  show ?thesis
    by (simp add: parse_bench_args_def bench_read_option_value_def bench_is_option_token_def starts_with_def bench_apply_option_def
        n e c default_bench_options_def kMaxBenchmarkCount_def)
qed

theorem accepted_messages_fit_witness:
  "let r = parse_bench_args sizes_x [''mm_bench'', ''--count'', ''3'', ''--payload-bytes'', ''200'']
   in pr_ok r \<and> ps_string sizes_x (length (make_benchmark_payload ''1-2-3'' 2 99 (bo_payload_bytes (pr_options r)))) \<le> unat kShmSlotCapacity"
  using accepted_messages_fit [OF args_x, of "''1-2-3''" 2 99] by (simp add: args_x kMaxBenchmarkRunIdBytes_def)

text \<open>
  A number after white space may carry a minus sign: \<open>strtoull\<close> negates it modulo \<open>2^64\<close>, so a negative number is
  accepted as a positive size.
\<close>

lemma negative_size_accepted: "parse_positive_size '' -18446744073709551613'' = Some 3"
  by (simp add: parse_positive_size_def strtoull_def scan_number_def isspace_def isdigit_def dec_value_def digit_val_def)

end
