(* ===== verification/Bench_Main.thy ===== *)
theory Bench_Main
  imports Bench_Args Node
begin

text \<open>
  The benchmark program (bench/src/main.cpp): the two nodes, the subscriber's callback, the publishing loop with its flow
  control, the report and the exit code.

  What the machine decides is an argument: the clock readings, the random numbers, what the nodes' own
  threads do between two steps of the main thread, and the calls of the subscriber's callback. The predicate of a
  \<open>wait_until\<close> is its result whether it returns early or at the deadline, so a wait is the callbacks that run during
  it, followed by the predicate. Printing of floating-point numbers and protobuf are arguments too.
\<close>

section \<open>Setting up\<close>

definition benchmark_qos :: qos where
  "benchmark_qos = default_qos\<lparr>qos_history := KEEP_ALL\<rparr>"

definition make_run_id :: "u64 \<Rightarrow> u32 \<Rightarrow> u32 \<Rightarrow> string" where
  "make_run_id now_ns random1 random2 =
     to_string (unat now_ns) @ ''-'' @ to_string (unat random1) @ ''-'' @ to_string (unat random2)"

record callback_state =
  cs_collector :: collector
  cs_accepting :: bool

definition new_callback_state :: "string \<Rightarrow> nat \<Rightarrow> callback_state" where
  "new_callback_state run_id expected_count = \<lparr>cs_collector = new_collector run_id expected_count, cs_accepting = True\<rparr>"

text \<open>The callback: the text of a message and the time it is called.\<close>

definition bench_callback :: "callback_state \<Rightarrow> string \<times> nat \<Rightarrow> callback_state" where
  "bench_callback st r =
     (if cs_accepting st then st\<lparr>cs_collector := snd (collect_record (fst r) (snd r) (cs_collector st))\<rparr> else st)"

definition bench_callbacks :: "(string \<times> nat) list \<Rightarrow> callback_state \<Rightarrow> callback_state" where
  "bench_callbacks rs st = foldl bench_callback st rs"

definition make_bench_node :: "string \<Rightarrow> bench_mode \<Rightarrow> node_env \<Rightarrow> unit node" where
  "make_bench_node name mode env =
     (let n = make_node_shm name (mode = SHM) env in n\<lparr>nd_agent := set_timing 80 5000 (nd_agent n)\<rparr>)"

section \<open>The publishing loop\<close>

text \<open>
  One turn: the clock at the deadline check and for the time stamp, what the publisher node's threads have done, which
  sinks are alive, and the callbacks that run until the turn's wait is over. Times are nanoseconds.
\<close>

record bench_turn =
  bt_now :: int
  bt_send_ns :: u64
  bt_threads :: "unit node \<Rightarrow> unit node"
  bt_alive :: "sink_id \<Rightarrow> bool"
  bt_received :: "(string \<times> nat) list"

record bench_run =
  rn_node :: "unit node"
  rn_state :: callback_state
  rn_failed :: bool
  rn_err :: string

definition bench_fail :: "string \<Rightarrow> bench_run \<Rightarrow> bench_run" where
  "bench_fail text s = s\<lparr>rn_failed := True, rn_err := rn_err s @ text @ newline\<rparr>"

definition publish_turn :: "(string \<Rightarrow> bytes option) \<Rightarrow> bench_options \<Rightarrow> string \<Rightarrow> publisher \<Rightarrow> int \<Rightarrow> bench_turn \<Rightarrow> nat \<Rightarrow>
    bench_run \<Rightarrow> bench_run" where
  "publish_turn ser opts run_id pub deadline t i s =
     (if bt_now t \<ge> deadline then bench_fail (''publish deadline reached before sequence '' @ to_string i) s
      else
        (let n = bt_threads t (rn_node s);
             msg = make_benchmark_payload run_id i (unat (bt_send_ns t)) (bo_payload_bytes opts);
             (ok, _, bus) = publish ser (bt_alive t) pub msg (pl_bus (nd_plane n));
             s = s\<lparr>rn_node := set_bus bus n\<rparr>
         in if \<not> ok then bench_fail (''publish failed at sequence '' @ to_string i) s
            else
              (let s = s\<lparr>rn_state := bench_callbacks (bt_received t) (rn_state s)\<rparr>;
                   target_received = flow_control_target (i + 1);
                   received = bc_received (cs_collector (rn_state s))
               in if target_received > 0 \<and> \<not> received \<ge> target_received then
                    bench_fail (''flow-control wait timed out after sequence '' @ to_string i @ '': received '' @
                      to_string received @ '', required '' @ to_string target_received) s
                  else s)))"

text \<open>The first \<open>k\<close> turns of the loop; a turn that fails leaves it.\<close>

fun publish_loop :: "(string \<Rightarrow> bytes option) \<Rightarrow> bench_options \<Rightarrow> string \<Rightarrow> publisher \<Rightarrow> int \<Rightarrow> (nat \<Rightarrow> bench_turn) \<Rightarrow> nat \<Rightarrow>
    bench_run \<Rightarrow> bench_run" where
  "publish_loop ser opts run_id pub deadline turns 0 s = s"
| "publish_loop ser opts run_id pub deadline turns (Suc i) s =
     (let s = publish_loop ser opts run_id pub deadline turns i s
      in if rn_failed s then s else publish_turn ser opts run_id pub deadline (turns i) i s)"

section \<open>The program\<close>

record bench_world =
  bw_ser :: "string \<Rightarrow> bytes option"
  bw_sizes :: proto_sizes
  bw_show :: "rat \<Rightarrow> string"
  bw_clock_ns :: u64
  bw_random :: "u32 \<times> u32"
  bw_sub_env :: node_env
  bw_pub_env :: node_env
  bw_before :: "(string \<times> nat) list"
  bw_loop_start :: int
  bw_started :: int
  bw_turns :: "nat \<Rightarrow> bench_turn"
  bw_late :: "(string \<times> nat) list"
  bw_finished :: int

definition print_report :: "(rat \<Rightarrow> string) \<Rightarrow> bench_options \<Rightarrow> nat \<Rightarrow> latency_stats \<Rightarrow> string" where
  "print_report show_fixed opts received stats =
     ''mode: '' @ mode_name (bo_mode opts) @ newline @
     ''messages: '' @ to_string (bo_count opts) @ newline @
     ''payload_bytes: '' @ to_string (bo_payload_bytes opts) @ newline @
     ''received: '' @ to_string received @ newline @
     ''duration_ms: '' @ show_fixed (ls_duration_ms stats) @ newline @
     ''throughput_msg_s: '' @ show_fixed (ls_throughput stats) @ newline @
     ''latency_us_avg: '' @ show_fixed (ls_avg_us stats) @ newline @
     ''latency_us_p50: '' @ to_string (ls_p50_us stats) @ newline @
     ''latency_us_p95: '' @ to_string (ls_p95_us stats) @ newline @
     ''latency_us_p99: '' @ to_string (ls_p99_us stats) @ newline"

definition bench_timeout :: "nat \<Rightarrow> int" where
  "bench_timeout count = int (5 + count div 1000) * 10 ^ 9"

text \<open>From the creation of the callback state to the last wait.\<close>

definition bench_measure :: "bench_world \<Rightarrow> bench_options \<Rightarrow> string \<Rightarrow> bench_run" where
  "bench_measure w opts run_id =
     (let st = new_callback_state run_id (bo_count opts);
          sub_node = make_bench_node ''mm_bench_subscriber'' (bo_mode opts) (bw_sub_env w);
          pub_node = make_bench_node ''mm_bench_publisher'' (bo_mode opts) (bw_pub_env w);
          (sub :: sink_id \<times> string subscriber, sub_node) = node_create_subscriber (bo_topic opts) ''mm.StringMsg'' benchmark_qos sub_node;
          (pub, pub_node) = node_create_publisher (bo_topic opts) ''mm.StringMsg'' benchmark_qos pub_node;
          deadline = bw_loop_start w + bench_timeout (bo_count opts);
          s = \<lparr>rn_node = pub_node, rn_state = bench_callbacks (bw_before w) st, rn_failed = False, rn_err = []\<rparr>;
          s = publish_loop (bw_ser w) opts run_id pub deadline (bw_turns w) (bo_count opts) s
      in s\<lparr>rn_state := bench_callbacks (bw_late w) (rn_state s)\<rparr>)"

text \<open>Standard output, standard error and the exit code.\<close>

definition bench_main :: "bench_world \<Rightarrow> string list \<Rightarrow> string \<times> string \<times> int" where
  "bench_main w argv =
     (let parsed = parse_bench_args (bw_sizes w) argv in
      if pr_help parsed then (pr_message parsed, [], 0)
      else if \<not> pr_ok parsed then ([], pr_message parsed, pr_exit_code parsed)
      else
        (let opts = pr_options parsed;
             note = (if bo_requested_payload_bytes opts < bo_payload_bytes opts
                     then ''payload_bytes '' @ to_string (bo_requested_payload_bytes opts) @
                       '' is below the minimum metadata length; using '' @ to_string (bo_payload_bytes opts) @ newline
                     else []);
             run_id = make_run_id (bw_clock_ns w) (fst (bw_random w)) (snd (bw_random w));
             s = bench_measure w opts run_id;
             st = (rn_state s)\<lparr>cs_accepting := False\<rparr>;
             xs = samples (cs_collector st);
             duration = (bw_finished w - bw_started w) div 1000;
             out = print_report (bw_show w) opts (length xs) (compute_latency_stats xs duration)
         in if rn_failed s \<or> length xs \<noteq> bo_count opts then
              (out, note @ rn_err s @ ''benchmark incomplete: received '' @ to_string (length xs) @ '' of '' @
                to_string (bo_count opts) @ newline, 1)
            else (out, note @ rn_err s, 0)))"

section \<open>The run identifier\<close>

lemma run_id_nonempty [simp]: "make_run_id t a b \<noteq> []"
  by (simp add: make_run_id_def)

lemma run_id_no_bar [simp]: "CHR 0x7C \<notin> set (make_run_id t a b)"
  by (simp add: make_run_id_def bar_not_in_number)

lemma number_length:
  fixes x :: "'a::len word"
  assumes "0 < k" "2 ^ LENGTH('a) \<le> (10::nat) ^ k"
  shows "length (to_string (unat x)) \<le> k"
proof (rule to_string_length_le [OF assms(1)])
  have "unat x < 2 ^ LENGTH('a)" by (rule unsigned_less)
  with assms(2) show "unat x < 10 ^ k" by linarith
qed

lemma run_id_length: "length (make_run_id t a b) \<le> kMaxBenchmarkRunIdBytes"
  using number_length [of 20 t] number_length [of 10 a] number_length [of 10 b]
  by (simp add: make_run_id_def kMaxBenchmarkRunIdBytes_def)

section \<open>The callbacks\<close>

lemma bench_callbacks_collect:
  assumes "cs_accepting st"
  shows "bench_callbacks rs st = st\<lparr>cs_collector := collect_all rs (cs_collector st)\<rparr>"
  using assms
proof (induction rs arbitrary: st)
  case (Cons r rs)
  then show ?case by (simp add: bench_callbacks_def bench_callback_def collect_all_def split_beta)
qed (simp add: bench_callbacks_def collect_all_def)

definition turns_received :: "(nat \<Rightarrow> bench_turn) \<Rightarrow> nat \<Rightarrow> (string \<times> nat) list" where
  "turns_received turns k = concat (map (\<lambda>i. bt_received (turns i)) [0..<k])"

lemma turns_received_Suc: "turns_received turns (Suc k) = turns_received turns k @ bt_received (turns k)"
  by (simp add: turns_received_def)

lemma turns_received_mono: "j \<le> k \<Longrightarrow> set (turns_received turns j) \<subseteq> set (turns_received turns k)"
  by (fastforce simp: turns_received_def)

lemma bench_callbacks_append: "bench_callbacks (rs @ rs') st = bench_callbacks rs' (bench_callbacks rs st)"
  by (simp add: bench_callbacks_def)

lemma bench_fail_fields [simp]: "rn_failed (bench_fail m s)" "rn_state (bench_fail m s) = rn_state s"
  by (simp_all add: bench_fail_def)

text \<open>What one turn does to the callback state, and when it goes on.\<close>

lemma publish_turn_state:
  "rn_state (publish_turn ser opts run_id pub deadline t i s) \<in> {rn_state s, bench_callbacks (bt_received t) (rn_state s)}"
  by (simp add: publish_turn_def Let_def split_beta)

lemma publish_turn_ok:
  fixes t :: bench_turn
  assumes "\<not> rn_failed s"
  defines "c \<equiv> bench_callbacks (bt_received t) (rn_state s)"
  shows "\<not> rn_failed (publish_turn ser opts run_id pub deadline t i s) \<longleftrightarrow>
      bt_now t < deadline \<and> ser (make_benchmark_payload run_id i (unat (bt_send_ns t)) (bo_payload_bytes opts)) \<noteq> None \<and>
      flow_control_target (i + 1) \<le> bc_received (cs_collector c)"
    and "\<not> rn_failed (publish_turn ser opts run_id pub deadline t i s) \<Longrightarrow>
      rn_state (publish_turn ser opts run_id pub deadline t i s) = c"
proof -
  let ?m = "make_benchmark_payload run_id i (unat (bt_send_ns t)) (bo_payload_bytes opts)"
  let ?p = "publish_turn ser opts run_id pub deadline t i s"
  have late: "rn_failed ?p" if "deadline \<le> bt_now t"
    using that by (simp add: publish_turn_def)
  have unsent: "rn_failed ?p" if "ser ?m = None"
    using that by (simp add: publish_turn_def publish_def Let_def)
  have sent: "(rn_failed ?p \<longleftrightarrow> \<not> flow_control_target (i + 1) \<le> bc_received (cs_collector c)) \<and> rn_state ?p = c"
    if "bt_now t < deadline" "ser ?m = Some bs" for bs
    using that assms(1) by (auto simp: publish_turn_def publish_def Let_def split_beta c_def)
  show "\<not> rn_failed ?p \<longleftrightarrow> bt_now t < deadline \<and> ser ?m \<noteq> None \<and> flow_control_target (i + 1) \<le> bc_received (cs_collector c)"
    using late unsent sent by (cases "ser ?m") force+
  show "rn_state ?p = c" if "\<not> rn_failed ?p"
    using that late unsent sent by (cases "ser ?m") force+
qed

lemma publish_loop_state:
  "\<exists>j \<le> k. rn_state (publish_loop ser opts run_id pub deadline turns k s) = bench_callbacks (turns_received turns j) (rn_state s) \<and>
     (\<not> rn_failed (publish_loop ser opts run_id pub deadline turns k s) \<longrightarrow> j = k)"
proof (induction k)
  case (Suc k)
  let ?s = "publish_loop ser opts run_id pub deadline turns k s"
  from Suc obtain j where j: "j \<le> k" "rn_state ?s = bench_callbacks (turns_received turns j) (rn_state s)"
    "\<not> rn_failed ?s \<longrightarrow> j = k" by blast
  show ?case
  proof (cases "rn_failed ?s")
    case True
    with j show ?thesis by (intro exI [of _ j]) (simp add: Let_def)
  next
    case False
    let ?t = "publish_turn ser opts run_id pub deadline (turns k) k ?s"
    have c: "rn_state ?s = bench_callbacks (turns_received turns k) (rn_state s)" using j False by simp
    then have c': "bench_callbacks (bt_received (turns k)) (rn_state ?s) = bench_callbacks (turns_received turns (Suc k)) (rn_state s)"
      by (simp add: turns_received_Suc bench_callbacks_append)
    consider "rn_failed ?t" "rn_state ?t = rn_state ?s" | "rn_state ?t = bench_callbacks (turns_received turns (Suc k)) (rn_state s)"
      using publish_turn_state [of ser opts run_id pub deadline "turns k" k ?s] publish_turn_ok(2) [OF False] c'
      by fastforce
    then show ?thesis
    proof cases
      case 1
      with c False show ?thesis by (intro exI [of _ k]) (simp add: Let_def)
    next
      case 2
      with False show ?thesis by (intro exI [of _ "Suc k"]) (simp add: Let_def)
    qed
  qed
qed (auto simp: turns_received_def bench_callbacks_def)

section \<open>The counts\<close>

text \<open>A run starts with nothing recorded but what came before the loop.\<close>

definition started_with :: "string \<Rightarrow> nat \<Rightarrow> (string \<times> nat) list \<Rightarrow> bench_run \<Rightarrow> bool" where
  "started_with run_id expected rs s \<longleftrightarrow> \<not> rn_failed s \<and> rn_state s = bench_callbacks rs (new_callback_state run_id expected)"

lemma callbacks_received:
  "bc_received (cs_collector (bench_callbacks rs (new_callback_state run_id expected))) =
     card {i. i < expected \<and> (\<exists>r \<in> set rs. carries run_id i r)}"
  by (simp add: bench_callbacks_collect new_callback_state_def collect_all_received)

lemma callbacks_samples:
  "length (samples (cs_collector (bench_callbacks rs (new_callback_state run_id expected)))) =
     card {i. i < expected \<and> (\<exists>r \<in> set rs. carries run_id i r)}"
  by (simp add: bench_callbacks_collect new_callback_state_def collect_all_received samples_length new_collector_all_ok)

lemma card_below: "card {i. i < (n::nat) \<and> P i} = n \<longleftrightarrow> (\<forall>i < n. P i)"
proof
  assume c: "card {i. i < n \<and> P i} = n"
  have "{i. i < n \<and> P i} = {..<n}" by (rule card_subset_eq) (use c in auto)
  then show "\<forall>i < n. P i" by blast
next
  assume "\<forall>i < n. P i"
  then have "{i. i < n \<and> P i} = {..<n}" by auto
  then show "card {i. i < n \<and> P i} = n" by simp
qed

lemma loop_window:
  assumes "\<not> rn_failed (publish_loop ser opts run_id pub deadline turns k s)" "\<not> rn_failed s"
  shows "flow_control_target k \<le>
    bc_received (cs_collector (rn_state (publish_loop ser opts run_id pub deadline turns k s)))"
proof (cases k)
  case (Suc i)
  let ?s = "publish_loop ser opts run_id pub deadline turns i s"
  have f: "\<not> rn_failed ?s" using assms(1) Suc by (auto simp: Let_def)
  then have e: "publish_loop ser opts run_id pub deadline turns k s = publish_turn ser opts run_id pub deadline (turns i) i ?s"
    by (simp add: Suc Let_def)
  show ?thesis using assms(1) publish_turn_ok [OF f] unfolding e by (metis Suc Suc_eq_plus1)
qed (simp add: flow_control_target_def)

text \<open>The loop reaches its end if each message is on time and received at most the window's length of turns later.\<close>

lemma loop_completes:
  assumes "started_with run_id expected rs s" "n \<le> expected"
    and "\<And>i. i < n \<Longrightarrow> bt_now (turns i) < deadline"
    and "\<And>i. i < n \<Longrightarrow> ser (make_benchmark_payload run_id i (unat (bt_send_ns (turns i))) (bo_payload_bytes opts)) \<noteq> None"
    and "\<And>i. i + kBenchmarkInFlightWindow < n \<Longrightarrow>
      \<exists>r \<in> set (turns_received turns (Suc (i + kBenchmarkInFlightWindow))). carries run_id i r"
  shows "k \<le> n \<Longrightarrow> \<not> rn_failed (publish_loop ser opts run_id pub deadline turns k s)"
proof (induction k)
  case (Suc k)
  let ?s = "publish_loop ser opts run_id pub deadline turns k s"
  let ?all = "rs @ turns_received turns (Suc k)"
  have f: "\<not> rn_failed ?s" using Suc by simp
  have "rn_state ?s = bench_callbacks (turns_received turns k) (rn_state s)"
    using publish_loop_state [of k ser opts run_id pub deadline turns s] f by blast
  then have c: "bench_callbacks (bt_received (turns k)) (rn_state ?s) = bench_callbacks ?all (new_callback_state run_id expected)"
    using assms(1) by (simp add: started_with_def bench_callbacks_append turns_received_Suc)
  have "{i. i < flow_control_target (k + 1)} \<subseteq> {i. i < expected \<and> (\<exists>r \<in> set ?all. carries run_id i r)}"
  proof
    fix i assume "i \<in> {i. i < flow_control_target (k + 1)}"
    then have i: "i + kBenchmarkInFlightWindow \<le> k" by (auto simp: flow_control_target_def split: if_splits)
    with assms(5) [of i] Suc.prems obtain r where "r \<in> set (turns_received turns (Suc (i + kBenchmarkInFlightWindow)))" "carries run_id i r"
      by auto
    moreover from this(1) have "r \<in> set ?all"
      using turns_received_mono [of "Suc (i + kBenchmarkInFlightWindow)" "Suc k" turns] i by auto
    ultimately show "i \<in> {i. i < expected \<and> (\<exists>r \<in> set ?all. carries run_id i r)}" using i Suc.prems assms(2) by auto
  qed
  from card_mono [OF _ this] have "flow_control_target (k + 1) \<le> bc_received (cs_collector (bench_callbacks ?all (new_callback_state run_id expected)))"
    unfolding callbacks_received by simp
  then have "\<not> rn_failed (publish_turn ser opts run_id pub deadline (turns k) k ?s)"
    using Suc.prems assms(3,4) [of k] unfolding publish_turn_ok(1) [OF f] c by simp
  with f show ?case by (simp add: Let_def)
qed (use assms(1) in \<open>simp add: started_with_def\<close>)

lemma measure_loop:
  obtains s pub where "started_with run_id (bo_count opts) (bw_before w) s"
    "bench_measure w opts run_id =
       (let s' = publish_loop (bw_ser w) opts run_id pub (bw_loop_start w + bench_timeout (bo_count opts)) (bw_turns w) (bo_count opts) s
        in s'\<lparr>rn_state := bench_callbacks (bw_late w) (rn_state s')\<rparr>)"
proof -
  define sub where "sub = make_bench_node ''mm_bench_subscriber'' (bo_mode opts) (bw_sub_env w)"
  define pn where "pn = node_create_publisher (bo_topic opts) ''mm.StringMsg'' benchmark_qos
    (make_bench_node ''mm_bench_publisher'' (bo_mode opts) (bw_pub_env w))"
  define s where "s = \<lparr>rn_node = snd pn, rn_state = bench_callbacks (bw_before w) (new_callback_state run_id (bo_count opts)),
    rn_failed = False, rn_err = []\<rparr>"
  show thesis
  proof (rule that [of s "fst pn"])
    show "started_with run_id (bo_count opts) (bw_before w) s" by (simp add: started_with_def s_def)
  qed (simp add: bench_measure_def Let_def split_beta pn_def s_def)
qed

definition heard :: "bench_world \<Rightarrow> nat \<Rightarrow> (string \<times> nat) list" where
  "heard w k = bw_before w @ turns_received (bw_turns w) k @ bw_late w"

lemma measure_state:
  "\<exists>j. rn_state (bench_measure w opts run_id) = bench_callbacks (heard w j) (new_callback_state run_id (bo_count opts)) \<and>
     (\<not> rn_failed (bench_measure w opts run_id) \<longrightarrow> j = bo_count opts)"
proof -
  obtain s pub where s: "started_with run_id (bo_count opts) (bw_before w) s"
    "bench_measure w opts run_id =
       (let s' = publish_loop (bw_ser w) opts run_id pub (bw_loop_start w + bench_timeout (bo_count opts)) (bw_turns w) (bo_count opts) s
        in s'\<lparr>rn_state := bench_callbacks (bw_late w) (rn_state s')\<rparr>)"
    by (rule measure_loop)
  define s' where "s' = publish_loop (bw_ser w) opts run_id pub (bw_loop_start w + bench_timeout (bo_count opts)) (bw_turns w) (bo_count opts) s"
  obtain j where j: "rn_state s' = bench_callbacks (turns_received (bw_turns w) j) (rn_state s)" "\<not> rn_failed s' \<longrightarrow> j = bo_count opts"
    using publish_loop_state unfolding s'_def by meson
  show ?thesis
    by (rule exI [of _ j]) (use s j in \<open>simp add: started_with_def heard_def bench_callbacks_append Let_def s'_def [symmetric]\<close>)
qed

section \<open>An example\<close>

text \<open>A run of three messages, each received in its own turn.\<close>

definition run_x :: string where
  "run_x = make_run_id 5 6 7"

definition turn_x :: "nat \<Rightarrow> bench_turn" where
  "turn_x i = \<lparr>bt_now = int i, bt_send_ns = 1000, bt_threads = id, bt_alive = (\<lambda>s. True),
     bt_received = [(make_benchmark_payload run_x i 1000 200, 3000)]\<rparr>"

definition world_x :: bench_world where
  "world_x = \<lparr>bw_ser = Some, bw_sizes = sizes_x, bw_show = (\<lambda>r. []), bw_clock_ns = 5, bw_random = (6, 7),
     bw_sub_env = env_x, bw_pub_env = env_x, bw_before = [], bw_loop_start = 0, bw_started = 0, bw_turns = turn_x,
     bw_late = [], bw_finished = 4000\<rparr>"

abbreviation argv_x :: "string list" where
  "argv_x \<equiv> [''mm_bench'', ''--count'', ''3'', ''--payload-bytes'', ''200'']"

lemma turns_x: "turns_received turn_x k = map (\<lambda>i. (make_benchmark_payload run_x i 1000 200, 3000)) [0..<k]"
  by (induction k) (simp_all add: turns_received_Suc turns_received_def turn_x_def)

lemma carries_x: "carries run_x j (make_benchmark_payload run_x i 1000 200, t) \<longleftrightarrow> i = j" if "i < 2 ^ 64"
  using payload_carries [of run_x i 1000 200 t] that by (auto simp: carries_def run_x_def)

definition start_x :: bench_run where
  "start_x = \<lparr>rn_node = make_node ''m'' default_options env_x, rn_state = new_callback_state run_x 3, rn_failed = False, rn_err = []\<rparr>"

lemma start_x: "started_with run_x 3 [] start_x"
  by (simp add: started_with_def start_x_def bench_callbacks_def)

lemma loop_x: "\<not> rn_failed (publish_loop Some (pr_options r) run_x pub 100 turn_x 3 start_x)"
  by (rule loop_completes [OF start_x order_refl _ _ _ order_refl]) (simp_all add: turn_x_def kBenchmarkInFlightWindow_def)

section \<open>Properties\<close>



text \<open>
  C22: the exit code tells the truth: for accepted arguments it is 0 exactly if no turn of the loop failed and for every
  sequence number below the count a message of the run with that number reached the callback, and 1 otherwise.
\<close>

theorem bench_exit_code:
  assumes "parse_bench_args (bw_sizes w) argv = r" "pr_ok r" "\<not> pr_help r"
    and "run_id = make_run_id (bw_clock_ns w) (fst (bw_random w)) (snd (bw_random w))"
  shows "snd (snd (bench_main w argv)) =
    (if \<not> rn_failed (bench_measure w (pr_options r) run_id) \<and>
        (\<forall>i < bo_count (pr_options r). \<exists>m \<in> set (heard w (bo_count (pr_options r))). carries run_id i m)
     then 0 else 1)"
proof -
  let ?s = "bench_measure w (pr_options r) run_id" and ?n = "bo_count (pr_options r)"
  obtain j where j: "rn_state ?s = bench_callbacks (heard w j) (new_callback_state run_id ?n)" "\<not> rn_failed ?s \<longrightarrow> j = ?n"
    using measure_state by blast
  have c: "snd (snd (bench_main w argv)) =
      (if rn_failed ?s \<or> length (samples (cs_collector (rn_state ?s))) \<noteq> ?n then 1 else 0)"
    using assms by (simp add: bench_main_def Let_def)
  have l: "length (samples (cs_collector (rn_state ?s))) = card {i. i < ?n \<and> (\<exists>m \<in> set (heard w j). carries run_id i m)}"
    unfolding j(1) by (rule callbacks_samples)
  show ?thesis
  proof (cases "rn_failed ?s")
    case False
    show ?thesis unfolding c l card_below j(2) [rule_format, OF False] using False by simp
  qed (simp add: c)
qed

theorem bench_exit_code_witness:
  "snd (snd (bench_main world_x argv_x)) =
    (if \<not> rn_failed (bench_measure world_x (pr_options (parse_bench_args sizes_x argv_x)) run_x) \<and>
        (\<forall>i < 3. \<exists>m \<in> set (heard world_x 3). carries run_x i m)
     then 0 else 1)"
  using bench_exit_code [of world_x argv_x, OF _ _ _ refl] args_x by (simp add: world_x_def run_x_def)

text \<open>
  C30: a benchmark whose messages arrive ends well: for accepted arguments, if every turn starts before the deadline, every payload
  serialises, each message reaches the callback at most \<open>kBenchmarkInFlightWindow\<close> turns after its own, and the last ones before the
  final wait is over, then \<open>mm_bench\<close> exits with 0.
\<close>

theorem bench_completes:
  assumes "parse_bench_args (bw_sizes w) argv = r" "pr_ok r" "\<not> pr_help r"
    and "run_id = make_run_id (bw_clock_ns w) (fst (bw_random w)) (snd (bw_random w))"
    and "msg = (\<lambda>i. make_benchmark_payload run_id i (unat (bt_send_ns (bw_turns w i))) (bo_payload_bytes (pr_options r)))"
    and "\<And>i. i < bo_count (pr_options r) \<Longrightarrow> bt_now (bw_turns w i) < bw_loop_start w + bench_timeout (bo_count (pr_options r))"
    and "\<And>i. i < bo_count (pr_options r) \<Longrightarrow> bw_ser w (msg i) \<noteq> None"
    and "\<And>i. i + kBenchmarkInFlightWindow < bo_count (pr_options r) \<Longrightarrow>
      msg i \<in> fst ` set (turns_received (bw_turns w) (Suc (i + kBenchmarkInFlightWindow)))"
    and "\<And>i. i < bo_count (pr_options r) \<Longrightarrow> msg i \<in> fst ` set (heard w (bo_count (pr_options r)))"
  shows "snd (snd (bench_main w argv)) = 0"
proof -
  let ?n = "bo_count (pr_options r)"
  have "?n \<le> kMaxBenchmarkCount"
    using assms(1-3) by (cases rule: parse_bench_args_cases [of "bw_sizes w" argv])
      (auto simp: help_result_def is_error_def error_result_def bench_options_ok_def)
  then have n: "?n < 2 ^ 64" by (simp add: kMaxBenchmarkCount_def)
  have u: "unat x < 2 ^ 64" for x :: u64 using unsigned_less [of x, where 'a = nat] by simp
  have carry: "\<exists>m \<in> set rs. carries run_id i m" if "msg i \<in> fst ` set rs" "i < ?n" for i rs
    using that payload_carries [of run_id i "unat (bt_send_ns (bw_turns w i))"] n u unfolding assms(4,5) by force
  obtain s pub where s: "started_with run_id ?n (bw_before w) s"
    "bench_measure w (pr_options r) run_id =
       (let s' = publish_loop (bw_ser w) (pr_options r) run_id pub (bw_loop_start w + bench_timeout ?n) (bw_turns w) ?n s
        in s'\<lparr>rn_state := bench_callbacks (bw_late w) (rn_state s')\<rparr>)"
    by (rule measure_loop)
  have "\<not> rn_failed (publish_loop (bw_ser w) (pr_options r) run_id pub (bw_loop_start w + bench_timeout ?n) (bw_turns w) ?n s)"
    by (rule loop_completes [OF s(1) order_refl assms(6) _ _ order_refl])
      (use assms(5,7) carry [OF assms(8)] in auto)
  then have f: "\<not> rn_failed (bench_measure w (pr_options r) run_id)" unfolding s(2) by (simp add: Let_def)
  obtain j where j: "rn_state (bench_measure w (pr_options r) run_id) = bench_callbacks (heard w j) (new_callback_state run_id ?n)"
    "\<not> rn_failed (bench_measure w (pr_options r) run_id) \<longrightarrow> j = ?n"
    using measure_state by blast
  have "length (samples (cs_collector (rn_state (bench_measure w (pr_options r) run_id)))) = ?n"
    unfolding j(1) j(2) [rule_format, OF f] callbacks_samples card_below using carry assms(9) by blast
  with f assms(1-4) show ?thesis by (simp add: bench_main_def Let_def)
qed

theorem bench_completes_witness: "snd (snd (bench_main world_x argv_x)) = 0"
proof -
  have p: "parse_bench_args (bw_sizes world_x) argv_x = parse_bench_args sizes_x argv_x" by (simp add: world_x_def)
  have r: "make_run_id (bw_clock_ns world_x) (fst (bw_random world_x)) (snd (bw_random world_x)) = run_x"
    by (simp add: world_x_def run_x_def)
  show ?thesis
    by (rule bench_completes [OF p _ _ r [symmetric] refl])
      (simp_all add: args_x heard_def turns_x world_x_def turn_x_def image_image bench_timeout_def kBenchmarkInFlightWindow_def)
qed

end
