(* ===== verification/Logger.thy ===== *)
theory Logger
  imports C_Text
begin

text \<open>
  The logger (common/include/common/logger.h): the \<open>{}\<close> formatting of messages and the line written to standard error.
  Arguments of a message are the texts that \<open>operator<<\<close> gives for them. The time of day is an argument.
\<close>

section \<open>Formatting\<close>

text \<open>\<open>std::string::find\<close> for the two characters of a placeholder.\<close>

fun find_braces :: "string \<Rightarrow> nat option" where
  "find_braces [] = None"
| "find_braces [c] = None"
| "find_braces (c # d # s) = (if c = CHR ''{'' \<and> d = CHR ''}'' then Some 0 else map_option Suc (find_braces (d # s)))"

definition find_placeholder :: "string \<Rightarrow> nat \<Rightarrow> nat option" where
  "find_placeholder fmt pos = map_option ((+) pos) (find_braces (drop pos fmt))"

fun format_helper :: "string \<Rightarrow> nat \<Rightarrow> string list \<Rightarrow> string" where
  "format_helper fmt pos [] = drop pos fmt"
| "format_helper fmt pos (v # args) =
     (case find_placeholder fmt pos of
        None \<Rightarrow> drop pos fmt
      | Some placeholder \<Rightarrow> substr fmt pos (placeholder - pos) @ v @ format_helper fmt (placeholder + 2) args)"

definition format_string :: "string \<Rightarrow> string list \<Rightarrow> string" where
  "format_string fmt args = format_helper fmt 0 args"

section \<open>Log lines\<close>

datatype log_level = INFO | WARN | ERROR

fun color :: "log_level \<Rightarrow> string" where
  "color INFO = CHR 0x1B # ''[32m''"
| "color WARN = CHR 0x1B # ''[33m''"
| "color ERROR = CHR 0x1B # ''[31m''"

fun tag :: "log_level \<Rightarrow> string" where
  "tag INFO = ''INFO ''"
| "tag WARN = ''WARN ''"
| "tag ERROR = ''ERROR''"

text \<open>The loop over the path: what follows the last slash passed.\<close>

fun basename :: "string \<Rightarrow> string \<Rightarrow> string" where
  "basename [] base = base"
| "basename (c # p) base = basename p (if c = CHR ''/'' then p else base)"

definition pad :: "nat \<Rightarrow> nat \<Rightarrow> string" where
  "pad width n = replicate (width - length (to_string n)) (CHR ''0'') @ to_string n"

definition c_str :: "string \<Rightarrow> string" where
  "c_str s = takeWhile (\<lambda>c. c \<noteq> CHR 0x00) s"

record time_of_day =
  tm_hour :: nat
  tm_min :: nat
  tm_sec :: nat
  tm_ms :: nat

definition log_line :: "time_of_day \<Rightarrow> log_level \<Rightarrow> string \<Rightarrow> nat \<Rightarrow> string \<Rightarrow> string" where
  "log_line t level file line msg =
     color level @ ''['' @ pad 2 (tm_hour t) @ '':'' @ pad 2 (tm_min t) @ '':'' @ pad 2 (tm_sec t) @ ''.'' @ pad 3 (tm_ms t) @
     ''] ['' @ tag level @ ''] ['' @ basename file file @ '':'' @ to_string line @ ''] '' @ c_str msg @ CHR 0x1B # ''[0m'' @ newline"

section \<open>Facts\<close>

text \<open>A format is text with placeholders between its pieces; filling puts the arguments there as long as there are any.\<close>

definition no_braces :: "string \<Rightarrow> bool" where
  "no_braces s \<longleftrightarrow> find_braces s = None"

definition with_placeholders :: "string \<Rightarrow> string list \<Rightarrow> string" where
  "with_placeholders p ps = p @ concat (map (\<lambda>q. ''{}'' @ q) ps)"

fun filled :: "string \<Rightarrow> string list \<Rightarrow> string list \<Rightarrow> string" where
  "filled p [] args = p"
| "filled p (q # ps) [] = p @ ''{}'' @ filled q ps []"
| "filled p (q # ps) (v # args) = p @ v @ filled q ps args"

lemma find_braces_first: "no_braces p \<Longrightarrow> find_braces (p @ CHR ''{'' # CHR ''}'' # r) = Some (length p)"
  by (induction p rule: find_braces.induct) (auto simp: no_braces_def split: if_splits)

lemma with_placeholders_Cons: "with_placeholders p (q # ps) = p @ CHR ''{'' # CHR ''}'' # with_placeholders q ps"
  by (simp add: with_placeholders_def)

lemma filled_no_args: "filled p ps [] = with_placeholders p ps"
  by (induction ps arbitrary: p) (simp_all add: with_placeholders_def)

lemma format_helper_filled:
  assumes "list_all no_braces (p # ps)"
  shows "format_helper (pre @ with_placeholders p ps) (length pre) args = filled p ps args"
  using assms
proof (induction p ps args arbitrary: pre rule: filled.induct)
  case (1 p args)
  then show ?case
    by (cases args) (auto simp: find_placeholder_def with_placeholders_def no_braces_def)
next
  case (2 p q ps)
  show ?case unfolding filled_no_args by simp
next
  case (3 p q ps v args)
  let ?fmt = "pre @ with_placeholders p (q # ps)"
  have f: "find_placeholder ?fmt (length pre) = Some (length pre + length p)"
    using "3.prems" by (simp add: find_placeholder_def with_placeholders_Cons find_braces_first)
  have "format_helper ?fmt (length pre + length p + 2) args = filled q ps args"
    using "3.IH" [of "pre @ p @ ''{}''"] "3.prems" by (simp add: with_placeholders_Cons)
  moreover have "substr ?fmt (length pre) (length p) = p" by (simp add: substr_def with_placeholders_Cons)
  ultimately show ?case by (simp only: format_helper.simps f option.case add_diff_cancel_left' filled.simps)
qed

lemma basename_tail: "CHR ''/'' \<notin> set p \<Longrightarrow> basename p base = base"
  by (induction p) auto

lemma basename_last: "CHR ''/'' \<notin> set base \<Longrightarrow> basename (dir @ CHR ''/'' # base) d = base"
  by (induction dir arbitrary: d) (simp_all add: basename_tail)

section \<open>Properties\<close>

text \<open>
  a log message is its format with the arguments in the places of the \<open>{}\<close>, in order: arguments are never searched for
  placeholders, surplus placeholders stay as they are and surplus arguments are dropped.
\<close>

theorem format_fills_placeholders:
  assumes "list_all no_braces (p # ps)"
  shows "format_string (with_placeholders p ps) args = filled p ps args"
  using format_helper_filled [OF assms, of "[]"] by (simp add: format_string_def)

theorem format_fills_placeholders_witness: "format_string ''udp {} at {}'' [''{}'', ''x'', ''y''] = ''udp {} at x''"
  using format_fills_placeholders [of "''udp ''" "['' at '', []]" "[''{}'', ''x'', ''y'']"]
  by (simp add: with_placeholders_def no_braces_def)

end
