(* ===== verification/Host_Id.thy ===== *)
theory Host_Id
  imports C_Text
begin

text \<open>
  The identity of the host (common/src/host_id.cpp): the first line of \<open>/etc/machine-id\<close>, else the host name, else a constant. The
  contents of the file, unless it cannot be opened, and what \<open>gethostname\<close> gives, unless it fails, are arguments.
\<close>

definition host_blank :: "char \<Rightarrow> bool" where
  "host_blank c \<longleftrightarrow> c = CHR 0x0A \<or> c = CHR 0x0D \<or> c = CHR '' ''"

fun pop_blanks :: "string \<Rightarrow> string" where
  "pop_blanks s = (if s \<noteq> [] \<and> host_blank (last s) then pop_blanks (butlast s) else s)"

declare pop_blanks.simps [simp del]

definition compute_host_id :: "string option \<Rightarrow> string option \<Rightarrow> string" where
  "compute_host_id machine_id hostname =
     (let host_id = (case machine_id of
                  None \<Rightarrow> []
                | Some text \<Rightarrow> pop_blanks (case getlines text of [] \<Rightarrow> [] | l # _ \<Rightarrow> l))
      in if host_id \<noteq> [] then host_id
         else (case hostname of
                 Some h \<Rightarrow> if h \<noteq> [] then ''host:'' @ h else ''unknown-host''
               | None \<Rightarrow> ''unknown-host''))"

text \<open>The static variable: computed by the first call, whatever the machine says later.\<close>

definition local_host_id :: "string option \<Rightarrow> string option \<Rightarrow> string option \<Rightarrow> string \<times> string option" where
  "local_host_id machine_id hostname cache =
     (let host_id = (case cache of Some cached \<Rightarrow> cached | None \<Rightarrow> compute_host_id machine_id hostname) in (host_id, Some host_id))"

lemma pop_blanks_id: "ident \<noteq> [] \<Longrightarrow> \<not> host_blank (last ident) \<Longrightarrow> list_all host_blank bs \<Longrightarrow> pop_blanks (ident @ bs) = ident"
proof (induction bs rule: rev_induct)
  case Nil
  then show ?case by (simp add: pop_blanks.simps)
next
  case (snoc b bs)
  then show ?case by (subst pop_blanks.simps) (simp add: butlast_append)
qed

section \<open>Properties\<close>

text \<open>
  processes of one host agree on its identity: two machine-ident files whose first lines differ only in trailing
  carriage returns and blanks give the same identifier, which is the line's text; without such a line the identifier is
  still not empty, so it is never confused with the empty host of an announcement that has none.
\<close>

theorem host_id_agrees:
  assumes "ident \<noteq> []" "\<not> host_blank (last ident)" "CHR 0x0A \<notin> set (ident @ bs)" "list_all host_blank bs"
  shows "compute_host_id (Some (ident @ bs @ CHR 0x0A # rest)) h = ident \<and> compute_host_id (Some (ident @ bs)) h = ident \<and>
    compute_host_id None h \<noteq> []"
proof -
  have "getlines (ident @ bs @ CHR 0x0A # rest) = (ident @ bs) # getlines rest"
    using getlines_line [OF assms(3), of rest] by simp
  moreover have "getlines (ident @ bs) = [ident @ bs]"
    using assms(1,3) by (intro getlines_single) auto
  ultimately show ?thesis
    using assms pop_blanks_id [OF assms(1,2,4)] by (simp add: compute_host_id_def split: option.splits)
qed

theorem host_id_agrees_witness:
  "compute_host_id (Some (''ab12'' @ [CHR 0x0D] @ CHR 0x0A # ''x'')) None = ''ab12'' \<and>
   compute_host_id (Some (''ab12'' @ [CHR 0x0D])) None = ''ab12'' \<and> compute_host_id None None \<noteq> []"
  by (rule host_id_agrees) (simp_all add: host_blank_def)

end
