(* ===== verification/Udp_Multicast.thy ===== *)
theory Udp_Multicast
  imports MM_Prelude
begin

text \<open>
  The multicast socket (discovery/src/udp_multicast.cpp). The kernel is the set of open descriptors; the outcome of each system
  call is an argument. Socket options whose result the code ignores are left out, logging too.
\<close>

record udp_multicast =
  um_group :: string
  um_port :: u16
  um_send_fd :: int
  um_recv_fd :: int

definition new_udp_multicast :: "string \<Rightarrow> u16 \<Rightarrow> udp_multicast" where
  "new_udp_multicast grp port = \<lparr>um_group = grp, um_port = port, um_send_fd = -1, um_recv_fd = -1\<rparr>"

text \<open>The descriptors the two \<open>socket\<close> calls give (negative on failure), and whether \<open>bind\<close> and joining the group succeed.\<close>

record udp_outcome =
  uo_recv_socket :: int
  uo_bind :: "u16 \<Rightarrow> bool"
  uo_join :: "string \<Rightarrow> bool"
  uo_send_socket :: int

definition udp_close :: "udp_multicast \<times> int set \<Rightarrow> udp_multicast \<times> int set" where
  "udp_close s =
     (let (u, fds) = s;
          (u, fds) = (if um_recv_fd u \<ge> 0 then (u\<lparr>um_recv_fd := -1\<rparr>, fds - {um_recv_fd u}) else (u, fds))
      in if um_send_fd u \<ge> 0 then (u\<lparr>um_send_fd := -1\<rparr>, fds - {um_send_fd u}) else (u, fds))"

definition opened :: "int \<Rightarrow> int set \<Rightarrow> int set" where
  "opened fd fds = (if fd \<ge> 0 then insert fd fds else fds)"

definition udp_open :: "udp_outcome \<Rightarrow> udp_multicast \<times> int set \<Rightarrow> bool \<times> udp_multicast \<times> int set" where
  "udp_open oc s =
     (let (u, fds) = s;
          u = u\<lparr>um_recv_fd := uo_recv_socket oc\<rparr>;
          fds = opened (uo_recv_socket oc) fds
      in if um_recv_fd u < 0 then (False, u, fds)
         else if \<not> uo_bind oc (um_port u) then (False, udp_close (u, fds))
         else if \<not> uo_join oc (um_group u) then (False, udp_close (u, fds))
         else
           (let u = u\<lparr>um_send_fd := uo_send_socket oc\<rparr>;
                fds = opened (uo_send_socket oc) fds
            in if um_send_fd u < 0 then (False, udp_close (u, fds)) else (True, u, fds)))"

text \<open>\<open>sendto\<close> returns the number of bytes it took, or a negative number.\<close>

definition udp_send :: "(string \<Rightarrow> u16 \<Rightarrow> bytes \<Rightarrow> int) \<Rightarrow> udp_multicast \<Rightarrow> bytes \<Rightarrow> bool" where
  "udp_send sendto u bs =
     (if um_send_fd u < 0 then False else sendto (um_group u) (um_port u) bs = int (length bs))"

text \<open>The next datagram, unless the call times out or fails; a longer one is cut to the buffer.\<close>

definition udp_recv :: "udp_multicast \<Rightarrow> bytes option \<Rightarrow> bytes option" where
  "udp_recv u datagram = (if um_recv_fd u < 0 then None else map_option (take 65536) datagram)"

definition udp_closed :: "udp_multicast \<Rightarrow> bool" where
  "udp_closed u \<longleftrightarrow> um_send_fd u < 0 \<and> um_recv_fd u < 0"

section \<open>Properties\<close>

text \<open>
  opening the multicast socket does not leak descriptors: from a closed object, either it succeeds and exactly the two new
  descriptors are open and owned, and closing gives both back, or it fails, whichever call failed, with the object closed and the
  descriptors of the process as before.
\<close>

theorem udp_open_no_leak:
  assumes "udp_closed u" "uo_recv_socket oc \<notin> fds" "uo_send_socket oc \<notin> fds" "uo_send_socket oc \<noteq> uo_recv_socket oc \<or> uo_recv_socket oc < 0"
  shows "case udp_open oc (u, fds) of (ok, u', fds') \<Rightarrow>
    (if ok then \<not> udp_closed u' \<and> fds' = fds \<union> {um_recv_fd u', um_send_fd u'} \<and>
        (case udp_close (u', fds') of (u'', fds'') \<Rightarrow> udp_closed u'' \<and> fds'' = fds)
     else udp_closed u' \<and> fds' = fds)"
  using assms by (auto simp: udp_open_def udp_close_def udp_closed_def opened_def Let_def)

theorem udp_open_no_leak_witness:
  "case udp_open \<lparr>uo_recv_socket = 5, uo_bind = (\<lambda>p. True), uo_join = (\<lambda>g. False), uo_send_socket = 6\<rparr>
      (new_udp_multicast ''239.255.0.1'' 7400, {3, 4}) of (ok, u', fds') \<Rightarrow>
    (if ok then \<not> udp_closed u' \<and> fds' = {3, 4} \<union> {um_recv_fd u', um_send_fd u'} \<and>
        (case udp_close (u', fds') of (u'', fds'') \<Rightarrow> udp_closed u'' \<and> fds'' = {3, 4})
     else udp_closed u' \<and> fds' = {3, 4})"
  by (rule udp_open_no_leak) (simp_all add: udp_closed_def new_udp_multicast_def)

end
