(* ===== verification/Spec2Isabelle.thy ===== *)
theory Spec2Isabelle
  imports Rpc_Demo Tcp_Demos Liveliness Transport Shm_Concurrent Cli_Commands Bench_Main Logger Host_Id Udp_Multicast
begin

text \<open>
  A verification of mini\_middleware, a publish/subscribe middleware in C++ with discovery, TCP and shared-memory transports,
  remote procedure calls, a command-line tool and a benchmark.

  \<^bold>\<open>The program and its model.\<close> A \<open>Node\<close> owns a bus for the subscribers of its process, a data plane for the channels to
  other processes and a discovery agent that announces its endpoints and matches them with those of others; the agent's
  match callbacks make the data plane open and close channels, whose sinks hang on the bus beside the local subscribers. The theories
  follow this structure, in the order of their imports:

  \<^item> \<open>MM_Prelude\<close>, \<open>C_Text\<close>: type synonyms for machine words and bytes, characters and numbers as text, the C++ string and
    C number functions the sources call, the collections of simplification rules.
  \<^item> \<open>Frame_Codec\<close> (transport/src/frame\_codec.cpp): length-prefixed frames; the locale \<open>framing\<close> states what a stream of
    frames promises and is interpreted on the codec.
  \<^item> \<open>Tcp_Client\<close>, \<open>Tcp_Server\<close> (transport/src/tcp\_client\_transport.cpp, tcp\_server\_transport.cpp): every member function as a
    function on a record of the object's fields; results of system calls are arguments. \<open>connect_publish\<close> and
    \<open>connect_register\<close> are the two halves of \<open>handle_connect_complete\<close>, so that a sender can run in between.
  \<^item> \<open>Transport\<close> (transport/include/transport/transport.h): the interface of both as the locale \<open>transport\<close>, interpreted on each.
  \<^item> \<open>Shm_Ring\<close>, \<open>Shm_Concurrent\<close> (transport/include/transport/shm\_ring.h): the ring sequentially (locale \<open>message_log\<close>) and as a
    step relation of one writer and many readers at single load, store and byte-copy granularity. 64-bit positions are words; the
    concurrent theorems are for fewer than \<open>2^63\<close> messages, where a position never meets the writing bit.
  \<^item> \<open>Shm_Segment\<close>, \<open>Shm_Reader\<close> (transport/src/shm\_segment.cpp, core/src/shm\_reader.cpp): named segments in a table that stands for the kernel,
    and the polling reader.
  \<^item> \<open>Blocking_Queue\<close>, \<open>Pub_Sub\<close> (common/include/common/blocking\_queue.h, qos.h, core/src/local\_bus.cpp, publisher.h, subscriber.h): the
    queue of a subscriber (locale \<open>message_queue\<close>), its worker loop, the bus and its type check. Which weak pointers are alive is
    an argument. A \<open>pop\<close> that blocks is \<open>None\<close>.
  \<^item> \<open>Queue_Test\<close> (examples/queue\_test.cpp): the condition variable of the queue, who sleeps on it, notifications and spurious wake-ups, in the
    program of one producer and any number of consumers.
  \<^item> \<open>Std_Map\<close> (locale \<open>key_map\<close>), \<open>Endpoint_Matcher\<close>, \<open>Discovery_Agent\<close> (discovery/src/endpoint\_matcher.cpp, discovery\_agent.cpp): matching and the agent's table
    of participants, with the callbacks as a list of events.
  \<^item> \<open>Liveliness\<close> (discovery/src/discovery\_agent.cpp): the loop of the background thread with the clock readings of its turns, and when its
    announcements are sent.
  \<^item> \<open>Data_Plane\<close> (core/src/data\_plane.cpp, remote\_sink.h, shm\_sink.h): the channels with their reference counts; a null pointer
    dereference is \<open>None\<close>.
  \<^item> \<open>Rpc\<close> (core/include/core/client.h, service.h, rpc\_topics.h): a call is two steps, sending and the end of the wait, so that callers,
    the service's worker and the reply worker interleave.
  \<^item> \<open>Node\<close> (core/src/node.cpp, core/include/core/node.h): construction and the factory methods, and a history of a node as a list of
    operations including those of the discovery thread.
  \<^item> \<open>Peer_Knowledge\<close>: what a node knows of others, for a single node (locale \<open>peer_knowledge\<close>: if every announcement it hears is true, all
    that is in its table, its matches and its channels is true).
  \<^item> \<open>Network\<close>, \<open>Network_Shm\<close>: any number of nodes in processes on hosts, in one history of events: a process starts or leaves,
    acts (creates endpoints, publishes, expires participants), says its announcement, hears one that was said (late, twice, or never), writes to and polls
    shared memory. All of it runs the definitions of the theories above; an inductive predicate \<open>reachable\<close> collects the histories,
    and the locale is interpreted on every network.
  \<^item> \<open>Network_Rpc\<close>: calls from a node of a network to another, over the connections that their matches have opened.
  \<^item> \<open>Demos\<close>, \<open>Tcp_Demos\<close>, \<open>Rpc_Demo\<close> (examples/): the demonstrations that run nodes, in one process and in two, one that sets a callback of its own,
    the client and server of the bare transports, and the client and server of a remote procedure.
  \<^item> \<open>Host_Id\<close>, \<open>Udp_Multicast\<close>, \<open>Logger\<close> (common/src/host\_id.cpp, discovery/src/udp\_multicast.cpp, common/include/common/logger.h).
  \<^item> \<open>Config\<close>, \<open>Cli_Args\<close>, \<open>Cli_Commands\<close> (config/src/config.cpp, cli/src): the configuration file and the tool \<open>mm\<close>.
  \<^item> \<open>Bench_Codec\<close>, \<open>Bench_Args\<close>, \<open>Bench_Main\<close> (bench/src): the benchmark \<open>mm_bench\<close>.

  \<^bold>\<open>What the theorems show.\<close>

  \<^item> Transport: frames survive any chunking of the stream and decoding is sound on any input; what a TCP client accepts reaches the
    server's callback unchanged and in order; both transports stop cleanly (\<open>transports_stop_cleanly\<close>); bytes buffered are always armed for writing (if nobody sends inside the connect window). In
    every interleaving a reader of the ring returns only messages as written, accounts for every position and copies inside the
    slot; the fine-grained writer refines the sequential one.
  \<^item> Publish/subscribe: queues conserve items in order under every schedule, a \<open>KEEP_ALL\<close> subscriber gets everything published, types
    are respected, inbound data is not forwarded again, destruction drains. With the condition variable modelled no wake-up is lost, and
    producer and consumers end with everything taken once.
  \<^item> Discovery: callbacks are consistent, matches are sound, complete and symmetric, silent participants are withdrawn, and a
    participant whose announcements arrive in time never is (\<open>steady_peer_is_kept\<close>).
  \<^item> Channels and nodes: the channels of a node are at every moment those of its matches, and a started node never crashes; publishing
    reaches the subscribers of other processes; the configuration decides the routes (at the end of this theory).
  \<^item> Networks: in every reachable network each node's table, matches and channels name participants that exist, at the port and with the
    endpoints they have (\<open>network_knowledge\<close>); what is published reaches the matched subscribers of the other node over TCP and over shared memory
    (\<open>network_tcp_delivery\<close>, \<open>network_shm_delivery\<close>); two nodes with the same settings choose the same channel for a match
    (\<open>channels_agree\<close>); a subscriber only gets messages of its type (\<open>network_type_safe\<close>); two nodes that heard each other are connected (\<open>meeting_connects\<close>).
  \<^item> Calls: every caller gets the answer to its own request, and pending entries do not leak; a call to another node of a network, once both have
    matched each other, is answered by the service there (\<open>remote_call_answered\<close>).
  \<^item> Examples: what the demonstrations print, e.g.\ \<open>tcp_demos_meet\<close>, \<open>rpc_demo_prints\<close>.
  \<^item> Tools: numbers, configuration files and command lines are parsed exactly (round trips); \<open>echo\<close> prints what it was asked for; the
    benchmark's messages fit their channel, its flow control bounds what is under way, its statistics are right and its
    exit code tells whether every message arrived; log lines are formatted as written.
  \<^item> Behaviour that is likely not meant is stated as a theorem too, e.g.\ \<open>first_remote_reply_lost\<close>, \<open>shm_claim_window_drops\<close>,
    \<open>connect_window_loses_wakeup\<close>, \<open>failed_create_breaks_count\<close>, \<open>colliding_topics_share_segment\<close>, \<open>negative_size_accepted\<close>, and in
    networks \<open>one_sided_shm_loses\<close>, \<open>mixed_reliability_loses\<close>, \<open>stale_reader_loses\<close>, \<open>refused_subscription_misdelivers\<close>,
    \<open>discovery_demo_never_connects\<close>; for transports \<open>restarted_client_never_stops\<close>.

  \<^bold>\<open>Bounds and termination.\<close> There is no fuel: loops of the sources are structural recursion or functions with a termination proof, and
  what runs forever (event loops, pollers, workers) is a list of the steps it takes. Request identifiers are 64-bit words; the
  theorems on calls are for histories shorter than \<open>2^64\<close> steps. Histories of a network allow (\<open>allowed\<close>) messages
  below 4 GiB and fewer than \<open>2^63\<close> messages in one ring, and a poll is an event only where the poll returns. Averages and rates are exact rational numbers where the code uses
  \<open>double\<close>.

  \<^bold>\<open>Parameters.\<close> Protobuf (serialisation, parsing, sizes), system calls, clocks and random numbers, the contents of files and
  the printing of floating-point numbers are arguments; where a theorem relies on protobuf it is that parsing undoes
  serialisation, and its witness instantiates it.

  \<^bold>\<open>Not modelled.\<close> Generated protobuf classes, the memory model below sequential consistency, logging as a side effect of the
  other components, subscriber\_demo (it prints a constant), and the tests. What is left of the sources beside these is declarations,
  whose definitions are modelled where they stand.

  \<^bold>\<open>Further work.\<close> A crash of a process in the middle of a write to shared memory; calls whose requests go through shared memory; the
  timing of a whole network, where the delays of announcements, matches and connections add up.
\<close>

section \<open>From the configuration file to the channels\<close>

lemma compute_host_id_nonempty: "compute_host_id machine_id hostname \<noteq> []"
  by (simp add: compute_host_id_def Let_def split: option.splits)

text \<open>
  C20: the configuration decides the channels. For a node made from a configuration whose host identity is that of its machine, in
  every history, a match goes through shared memory exactly if \<open>enable_shm\<close> is on, the remote participant announces the same
  host identity, and the reading endpoint is best effort; and with \<open>enable_shm: false\<close> the node never holds a
  segment or a reader of one, whatever is discovered.
\<close>

theorem configured_routing:
  fixes n :: "'r node"
  assumes "ne_listening env = Some port" "ne_host env = compute_host_id machine_id hostname"
    and "node_run old ops (make_node (cfg_node_name cfg) (options_of cfg) env) = Some n"
  shows "(use_shm (pl_dp (nd_plane n)) m \<longleftrightarrow>
      cfg_enable_shm cfg \<and> mi_host m = compute_host_id machine_id hostname \<and>
      ep_reliability (if ep_kind (mi_local m) = SUBSCRIBER then mi_local m else mi_remote m) = 0) \<and>
    (\<not> cfg_enable_shm cfg \<longrightarrow>
      dp_shm_pub (pl_dp (nd_plane n)) = [] \<and> (\<exists>rm. dp_readers (pl_dp (nd_plane n)) = Some rm \<and> rm_readers rm = []))"
proof -
  have i: "dp_shm_enabled (pl_dp (nd_plane n)) = cfg_enable_shm cfg" "dp_host (pl_dp (nd_plane n)) = compute_host_id machine_id hostname"
    using node_run_identity [OF assms(3)] assms(2)
    by (simp_all add: same_identity_def make_node_def Let_def set_local_identity_def options_of_def)
  have u: "use_shm (pl_dp (nd_plane n)) m \<longleftrightarrow>
      cfg_enable_shm cfg \<and> mi_host m = compute_host_id machine_id hostname \<and>
      ep_reliability (if ep_kind (mi_local m) = SUBSCRIBER then mi_local m else mi_remote m) = 0" for m
    using i compute_host_id_nonempty by (auto simp: use_shm_def same_host_def Let_def)
  have "node_inv n" using node_run_inv [OF make_node_inv [OF assms(1)]] assms(3) by (metis option.inject)
  then have "tracks (nd_plane n) (ran (active_map (nd_agent n)))" by (simp add: node_inv_def)
  with tracked_no_shm u show ?thesis by blast
qed

theorem configured_routing_witness:
  "\<exists>n :: unit node. node_run (\<lambda>i j. CHR ''x'') node_ops_x (make_node (cfg_node_name (default_config\<lparr>cfg_enable_shm := False\<rparr>))
     (options_of (default_config\<lparr>cfg_enable_shm := False\<rparr>)) (env_x\<lparr>ne_host := compute_host_id (Some ''h'') None\<rparr>)) = Some n \<and>
     dp_shm_pub (pl_dp (nd_plane n)) = []"
proof -
  let ?env = "env_x\<lparr>ne_host := compute_host_id (Some ''h'') None\<rparr>" and ?cfg = "default_config\<lparr>cfg_enable_shm := False\<rparr>"
  have l: "ne_listening ?env = Some 4000" and h: "ne_host ?env = compute_host_id (Some ''h'') None" by (simp_all add: env_x_def)
  obtain n :: "unit node" where n: "node_run (\<lambda>i j. CHR ''x'') node_ops_x (make_node (cfg_node_name ?cfg) (options_of ?cfg) ?env) = Some n"
    using node_run_inv [OF make_node_inv [OF l]] by blast
  have "dp_shm_pub (pl_dp (nd_plane n)) = []"
    using configured_routing [OF l h n] by simp
  with n show ?thesis by blast
qed

end
